(* ===== verification/Rdma_Prelude.thy ===== *)
theory Rdma_Prelude
  imports Main "HOL-Library.Word"
begin

text \<open>
  What every component of the development shares: the fixed-width integer types of the C
  code, the ways a C function can go wrong as values, a bounded \<open>for\<close> loop, NULL-terminated
  chains of pointers, and the contract of a step system whose invariant is proved once.
\<close>

section \<open>Integers\<close>

type_synonym u8 = "8 word"
type_synonym u16 = "16 word"
type_synonym u32 = "32 word"
type_synonym u64 = "64 word"

named_theorems res_simps "rewrite rules of the result type"
named_theorems size_simps "the numeric values of the size macros"
named_theorems inv_intros "introduction rules for the invariants of the components"

lemma unat_u32_less: "unat (w :: u32) < 4294967296"
  using unsigned_less[of w] by simp

section \<open>Faults: how a C function can go wrong\<close>

text \<open>
  \<open>Aborted\<close> is a call of \<open>abort()\<close> (also a failed \<open>GPR_ASSERT\<close>). The other constructors are
  undefined behaviour of C, which the source does not guard against: a NULL dereference, an
  access through a pointer whose block is not live, an access outside a block, a signed
  overflow and a read of a variable that was never written.
\<close>

datatype fault = Aborted | NullDeref | BadAddress | OutOfBounds | SignedOverflow | UninitRead

type_synonym 'a res = "fault + 'a"

definition bind_res :: "'a res \<Rightarrow> ('a \<Rightarrow> 'b res) \<Rightarrow> 'b res" where
  "bind_res m f = (case m of Inl e \<Rightarrow> Inl e | Inr x \<Rightarrow> f x)"

lemma bind_res_simps [simp, res_simps]:
  "bind_res (Inl e) f = Inl e"
  "bind_res (Inr x) f = f x"
  by (simp_all add: bind_res_def)

lemma bind_res_Inr_iff [res_simps]:
  "bind_res m f = Inr y \<longleftrightarrow> (\<exists>x. m = Inr x \<and> f x = Inr y)"
  by (simp add: bind_res_def split: sum.splits)

lemma bind_res_assoc: "bind_res (bind_res m f) g = bind_res m (\<lambda>x. bind_res (f x) g)"
  by (simp add: bind_res_def split: sum.splits)

text \<open>\<open>GPR_ASSERT(x)\<close> of \<open>rdma_log.h\<close>: log and abort when the condition fails.\<close>

definition GPR_ASSERT :: "bool \<Rightarrow> unit res" where
  "GPR_ASSERT x = (if \<not> x then Inl Aborted else Inr ())"

lemma GPR_ASSERT_simps [simp, res_simps]:
  "GPR_ASSERT True = Inr ()"
  "GPR_ASSERT False = Inl Aborted"
  by (simp_all add: GPR_ASSERT_def)

text \<open>Reading a pointer that may be NULL.\<close>

definition deref :: "'a option \<Rightarrow> 'a res" where
  "deref p = (case p of None \<Rightarrow> Inl NullDeref | Some a \<Rightarrow> Inr a)"

lemma deref_simps [simp, res_simps]:
  "deref None = Inl NullDeref"
  "deref (Some a) = Inr a"
  by (simp_all add: deref_def)

section \<open>Counting loops\<close>

text \<open>
  \<open>for_loop i n f s\<close> is \<open>for (k = i; k < i + n; k++) s = f(k, s);\<close> a body that faults ends the
  loop with its fault.
\<close>

fun for_loop :: "nat \<Rightarrow> nat \<Rightarrow> (nat \<Rightarrow> 's \<Rightarrow> 's res) \<Rightarrow> 's \<Rightarrow> 's res" where
  "for_loop i 0 f s = Inr s"
| "for_loop i (Suc n) f s = bind_res (f i s) (for_loop (Suc i) n f)"

text \<open>
  Total correctness: an invariant that the body establishes for the next index, without a
  fault, holds at the end, and the loop returns.
\<close>

lemma for_loop_rule:
  assumes "P i s"
    and "\<And>k s. i \<le> k \<Longrightarrow> k < i + n \<Longrightarrow> P k s \<Longrightarrow> \<exists>s'. f k s = Inr s' \<and> P (Suc k) s'"
  shows "\<exists>s'. for_loop i n f s = Inr s' \<and> P (i + n) s'"
  using assms
proof (induction n arbitrary: i s)
  case 0
  then show ?case by simp
next
  case (Suc n)
  from Suc.prems(2)[of i s] Suc.prems(1) obtain s1 where s1: "f i s = Inr s1" "P (Suc i) s1"
    by auto
  have "\<exists>s'. for_loop (Suc i) n f s1 = Inr s' \<and> P (Suc i + n) s'"
    using Suc.prems(2) s1(2) by (intro Suc.IH) auto
  with s1(1) show ?case by simp
qed

text \<open>Partial correctness: a relation that every turn keeps relates the two ends of the loop.\<close>

lemma for_loop_relates:
  assumes "for_loop i n f s = Inr s'" and "\<And>k s s'. f k s = Inr s' \<Longrightarrow> R s s'"
    and "\<And>s. R s s" "\<And>s t u. R s t \<Longrightarrow> R t u \<Longrightarrow> R s u"
  shows "R s s'"
  using assms(1)
proof (induction n arbitrary: i s)
  case 0
  then show ?case using assms(3) by simp
next
  case (Suc n)
  then obtain s1 where "f i s = Inr s1" "for_loop (Suc i) n f s1 = Inr s'"
    by (auto simp: bind_res_Inr_iff)
  then show ?case using Suc.IH assms(2,4) by blast
qed

lemma for_loop_append:
  "for_loop i (m + n) f s = bind_res (for_loop i m f s) (for_loop (i + m) n f)"
  by (induction m arbitrary: i s) (simp_all add: bind_res_def split: sum.splits)

lemma for_loop_cong:
  assumes "\<And>k s. i \<le> k \<Longrightarrow> k < i + n \<Longrightarrow> f k s = g k s"
  shows "for_loop i n f s = for_loop i n g s"
  using assms
proof (induction n arbitrary: i s)
  case 0
  then show ?case by simp
next
  case (Suc n)
  then show ?case by (auto simp: bind_res_def split: sum.splits)
qed

text \<open>A loop whose body cannot fault is a fold over the index range.\<close>

lemma for_loop_pure:
  "for_loop i n (\<lambda>k s. Inr (g k s)) s = Inr (fold g [i..<i + n] s)"
proof (induction n arbitrary: i s)
  case 0
  then show ?case by simp
next
  case (Suc n)
  have "[i..<i + Suc n] = i # [Suc i..<Suc i + n]"
    by (simp add: upt_conv_Cons)
  with Suc show ?case by simp
qed

section \<open>NULL-terminated chains\<close>

text \<open>
  \<open>chain nx p xs\<close>: following \<open>nx\<close> from \<open>p\<close> visits exactly \<open>xs\<close> and ends at NULL;
  \<open>segment nx p xs q\<close>: it visits \<open>xs\<close> and arrives at \<open>q\<close>.
\<close>

fun chain :: "('a \<Rightarrow> 'a option) \<Rightarrow> 'a option \<Rightarrow> 'a list \<Rightarrow> bool" where
  "chain nx p [] = (p = None)"
| "chain nx p (a # as) = (p = Some a \<and> chain nx (nx a) as)"

fun segment :: "('a \<Rightarrow> 'a option) \<Rightarrow> 'a option \<Rightarrow> 'a list \<Rightarrow> 'a option \<Rightarrow> bool" where
  "segment nx p [] q = (p = q)"
| "segment nx p (a # as) q = (p = Some a \<and> segment nx (nx a) as q)"

lemma chain_None [simp]: "chain nx None xs = (xs = [])"
  by (cases xs) auto

lemma chain_segment: "chain nx p (xs @ ys) \<longleftrightarrow> (\<exists>q. segment nx p xs q \<and> chain nx q ys)"
  by (induction xs arbitrary: p) auto

lemma segment_append: "segment nx p (xs @ ys) r \<longleftrightarrow> (\<exists>q. segment nx p xs q \<and> segment nx q ys r)"
  by (induction xs arbitrary: p) auto

lemma segment_None: "segment nx p xs None = chain nx p xs"
  by (induction xs arbitrary: p) auto

lemma chain_unique: "chain nx p xs \<Longrightarrow> chain nx p ys \<Longrightarrow> xs = ys"
proof (induction xs arbitrary: p ys)
  case Nil
  then show ?case by simp
next
  case (Cons a as)
  then show ?case by (cases ys) auto
qed

lemma segment_chain_split:
  "segment nx p xs q \<Longrightarrow> chain nx q ys \<Longrightarrow> chain nx p zs \<Longrightarrow> zs = xs @ ys"
  by (metis chain_segment chain_unique)

lemma chain_notin: "chain nx (nx a) as \<Longrightarrow> a \<notin> set as"
proof
  assume c: "chain nx (nx a) as" and "a \<in> set as"
  then obtain ys zs where as: "as = ys @ a # zs" by (meson split_list)
  with c have "chain nx (nx a) zs" by (auto simp: chain_segment)
  with c have "as = zs" by (rule chain_unique)
  with as show False by simp
qed

lemma chain_distinct: "chain nx p xs \<Longrightarrow> distinct xs"
  by (induction xs arbitrary: p) (auto dest: chain_notin)

lemma chain_upd: "a \<notin> set xs \<Longrightarrow> chain (nx(a := q)) p xs = chain nx p xs"
  by (induction xs arbitrary: p) auto

lemma segment_upd: "a \<notin> set xs \<Longrightarrow> segment (nx(a := r)) p xs q = segment nx p xs q"
  by (induction xs arbitrary: p) auto

lemma chain_cong: "(\<And>a. a \<in> set xs \<Longrightarrow> nx a = nx' a) \<Longrightarrow> chain nx p xs = chain nx' p xs"
  by (induction xs arbitrary: p) auto

lemma segment_cong:
  "(\<And>a. a \<in> set xs \<Longrightarrow> nx a = nx' a) \<Longrightarrow> segment nx p xs q = segment nx' p xs q"
  by (induction xs arbitrary: p) auto

text \<open>The head of a list as a pointer: NULL for the empty list.\<close>

definition head_of :: "'a list \<Rightarrow> 'a option" where
  "head_of xs = (case xs of [] \<Rightarrow> None | a # _ \<Rightarrow> Some a)"

lemma head_of_simps [simp]: "head_of [] = None" "head_of (a # as) = Some a"
  by (simp_all add: head_of_def)

lemma chain_head: "chain nx p xs \<Longrightarrow> p = head_of xs"
  by (cases xs) auto

section \<open>Step systems\<close>

text \<open>
  The states a system reaches from its initial states by its steps; the contract of an
  inductive invariant, and what follows from it.
\<close>

inductive reach :: "('s \<Rightarrow> bool) \<Rightarrow> ('s \<Rightarrow> 's \<Rightarrow> bool) \<Rightarrow> 's \<Rightarrow> bool"
  for init :: "'s \<Rightarrow> bool" and step :: "'s \<Rightarrow> 's \<Rightarrow> bool" where
  reach_init: "init s \<Longrightarrow> reach init step s"
| reach_step: "reach init step s \<Longrightarrow> step s t \<Longrightarrow> reach init step t"

locale step_system =
  fixes init :: "'s \<Rightarrow> bool"
    and step :: "'s \<Rightarrow> 's \<Rightarrow> bool"
    and inv :: "'s \<Rightarrow> bool"
  assumes init_inv: "init s \<Longrightarrow> inv s"
    and step_inv: "inv s \<Longrightarrow> step s t \<Longrightarrow> inv t"
begin

lemma reach_inv: "reach init step s \<Longrightarrow> inv s"
  by (induction rule: reach.induct) (auto intro: init_inv step_inv)

lemma steps_inv: "step\<^sup>*\<^sup>* s t \<Longrightarrow> inv s \<Longrightarrow> inv t"
  by (induction rule: rtranclp_induct) (auto intro: step_inv)

end

lemma reach_start: "reach init step s \<Longrightarrow> \<exists>s0. init s0"
  by (induction rule: reach.induct) auto

lemma reach_steps: "step\<^sup>*\<^sup>* s t \<Longrightarrow> reach init step s \<Longrightarrow> reach init step t"
  by (induction rule: rtranclp_induct) (auto intro: reach_step)

lemma reach_from: "step\<^sup>*\<^sup>* s t \<Longrightarrow> reach (\<lambda>x. x = s) step t"
  by (erule reach_steps) (rule reach_init, rule refl)

end
