(* ===== verification/Rdma_Chunk.thy ===== *)
theory Rdma_Chunk
  imports Rdma_Prelude
begin

text \<open>
  \<open>src/rdma_buffer_pool.h\<close>: the chunk header, its packed layout on the wire, and the sizes
  the C macros derive from it. A chunk is a union of 64 KiB raw bytes with a header followed
  by a body; \<open>chunk_view\<close> is its byte view and \<open>store_bytes\<close> what a write of raw bytes at its
  start leaves in header and body.
\<close>

section \<open>Sizes\<close>

record rdma_chunk_header =
  flags :: u8
  chunk_id :: u32
  chunk_len :: u32
  chunk_num :: u32
  data_id :: u32
  data_len :: u32

definition RDMA_CHUNK_SIZE :: u32 where
  "RDMA_CHUNK_SIZE = 64 * 1024"

definition RDMA_BUFFER_SIZE :: u32 where
  "RDMA_BUFFER_SIZE = 1024 * 4"

text \<open>
  The header is packed: one \<open>uint8_t\<close> and five \<open>uint32_t\<close> without padding. The macro
  \<open>RDMA_HEADER_SIZE\<close> is its \<open>sizeof\<close> as a \<open>uint32_t\<close>.
\<close>

definition RDMA_HEADER_SIZE :: u32 where
  "RDMA_HEADER_SIZE = 1 + 4 + 4 + 4 + 4 + 4"

definition RDMA_BODY_SIZE :: u32 where
  "RDMA_BODY_SIZE = RDMA_CHUNK_SIZE - RDMA_HEADER_SIZE"

text \<open>
  \<open>sizeof (struct rdma_chunk)\<close> on a 64-bit target: the union and two pointers, packed;
  \<open>sizeof (struct link_node)\<close>: three pointers.
\<close>

definition sizeof_rdma_chunk :: nat where
  "sizeof_rdma_chunk = unat RDMA_CHUNK_SIZE + 8 + 8"

definition sizeof_link_node :: nat where
  "sizeof_link_node = 8 + 8 + 8"

lemma sizes [size_simps]:
  "RDMA_CHUNK_SIZE = 65536"
  "RDMA_BUFFER_SIZE = 4096"
  "RDMA_HEADER_SIZE = 21"
  "RDMA_BODY_SIZE = 65515"
  by (simp_all add: RDMA_CHUNK_SIZE_def RDMA_BUFFER_SIZE_def RDMA_HEADER_SIZE_def
      RDMA_BODY_SIZE_def)

lemma unat_sizes [simp, size_simps]:
  "unat RDMA_CHUNK_SIZE = 65536"
  "unat RDMA_BUFFER_SIZE = 4096"
  "unat RDMA_HEADER_SIZE = 21"
  "unat RDMA_BODY_SIZE = 65515"
  by (simp_all add: sizes)

section \<open>The packed header\<close>

text \<open>
  The header goes over the network as it lies in memory, with no change of byte order; the
  model is a little-endian host (x86, the target of the project).
\<close>

definition le32 :: "u32 \<Rightarrow> u8 list" where
  "le32 w = [ucast w, ucast (drop_bit 8 w), ucast (drop_bit 16 w), ucast (drop_bit 24 w)]"

fun of_le32 :: "u8 list \<Rightarrow> u32" where
  "of_le32 [b0, b1, b2, b3] =
     of_nat (unat b0 + 256 * unat b1 + 65536 * unat b2 + 16777216 * unat b3)"
| "of_le32 _ = 0"

definition header_bytes :: "rdma_chunk_header \<Rightarrow> u8 list" where
  "header_bytes h =
     [flags h] @ le32 (chunk_id h) @ le32 (chunk_len h) @ le32 (chunk_num h)
     @ le32 (data_id h) @ le32 (data_len h)"

definition header_of_bytes :: "u8 list \<Rightarrow> rdma_chunk_header" where
  "header_of_bytes bs =
     \<lparr>flags = bs ! 0,
      chunk_id = of_le32 (take 4 (drop 1 bs)),
      chunk_len = of_le32 (take 4 (drop 5 bs)),
      chunk_num = of_le32 (take 4 (drop 9 bs)),
      data_id = of_le32 (take 4 (drop 13 bs)),
      data_len = of_le32 (take 4 (drop 17 bs))\<rparr>"

lemma length_le32 [simp]: "length (le32 w) = 4"
  by (simp add: le32_def)

lemma length_header_bytes [simp]: "length (header_bytes h) = unat RDMA_HEADER_SIZE"
  by (simp add: header_bytes_def)

lemma unat_byte_of: "unat (ucast (w :: u32) :: u8) = unat w mod 256"
  by (simp add: unsigned_ucast_eq take_bit_eq_mod)

lemma unat_shift_byte: "unat (drop_bit k (w :: u32)) = unat w div 2 ^ k"
  by (simp add: unat_drop_bit_eq flip: drop_bit_eq_div)

lemma four_bytes:
  assumes "n < (4294967296 :: nat)"
  shows "n mod 256 + 256 * (n div 256 mod 256) + 65536 * (n div 65536 mod 256)
    + 16777216 * (n div 16777216 mod 256) = n"
proof -
  define a b c where "a = n div 256" and "b = a div 256" and "c = b div 256"
  have d: "n div 65536 = b" "n div 16777216 = c"
    by (simp_all add: a_def b_def c_def flip: div_mult2_eq)
  have "c < 256"
    using assms by (simp add: less_mult_imp_div_less flip: d)
  moreover have "n = n mod 256 + 256 * a" "a = a mod 256 + 256 * b" "b = b mod 256 + 256 * c"
    by (simp_all add: a_def b_def c_def)
  ultimately show ?thesis
    unfolding d by (simp flip: a_def)
qed

lemma of_le32_le32 [simp]: "of_le32 (le32 w) = w"
proof -
  have "unat w < 4294967296"
    using unsigned_less[of w] by simp
  note bytes = four_bytes[OF this]
  have p: "(2::nat) ^ 8 = 256" "(2::nat) ^ 16 = 65536" "(2::nat) ^ 24 = 16777216"
    by simp_all
  show ?thesis
    by (simp only: le32_def of_le32.simps unat_byte_of unat_shift_byte p bytes) simp
qed

lemma take_le32 [simp]: "take 4 (le32 w @ bs) = le32 w" "drop 4 (le32 w @ bs) = bs"
  by simp_all

lemma header_of_bytes_header_bytes [simp]: "header_of_bytes (header_bytes h @ bs) = h"
proof -
  have d: "drop 5 (x # le32 a @ r) = r" "drop 9 (x # le32 a @ le32 b @ r) = r"
    "drop 13 (x # le32 a @ le32 b @ le32 c @ r) = r"
    "drop 17 (x # le32 a @ le32 b @ le32 c @ le32 d @ r) = r" for x a b c d r
    by (simp_all add: drop_Cons')
  show ?thesis
    by (simp add: header_of_bytes_def header_bytes_def d)
qed

section \<open>Bytes of a chunk on the wire\<close>

text \<open>
  A send work request names the start of a chunk and a byte count: the bytes that leave the
  host are the header followed by the first \<open>n\<close> bytes of the body. The receiving adapter
  writes them at the start of a posted chunk, whose other bytes keep their old value.
\<close>

type_synonym chunk_body = "nat \<Rightarrow> u8"

definition wire_bytes :: "rdma_chunk_header \<Rightarrow> chunk_body \<Rightarrow> nat \<Rightarrow> u8 list" where
  "wire_bytes h b n = header_bytes h @ map b [0..<n]"

definition store_bytes ::
  "u8 list \<Rightarrow> rdma_chunk_header \<times> chunk_body \<Rightarrow> rdma_chunk_header \<times> chunk_body" where
  "store_bytes bs c =
     (header_of_bytes (take (unat RDMA_HEADER_SIZE) bs
        @ drop (length bs) (header_bytes (fst c))),
      (\<lambda>j. if unat RDMA_HEADER_SIZE + j < length bs
           then bs ! (unat RDMA_HEADER_SIZE + j) else snd c j))"

lemma length_wire_bytes [simp]: "length (wire_bytes h b n) = unat RDMA_HEADER_SIZE + n"
  by (simp add: wire_bytes_def)

lemma store_wire_bytes:
  "store_bytes (wire_bytes h b n) c = (h, \<lambda>j. if j < n then b j else snd c j)"
  using header_of_bytes_header_bytes[of h "[]"]
  by (auto simp: store_bytes_def wire_bytes_def nth_append fun_eq_iff)

end
