(* ===== verification/Buffer_Pool.thy ===== *)
theory Buffer_Pool
  imports Rdma_Chunk
begin

text \<open>
  \<open>src/rdma_buffer_pool.c\<close>: the pool of registered chunks. A chunk address is a block (one
  \<open>malloc\<close>ed array of chunks) and an index into it; NULL is \<open>None\<close>. The memory of the process
  that the pool reads and writes is a record of field-wise heaps, which extends the pool's own
  struct (the program has one pool, \<open>g_rdma_context->rbp\<close>), so that the components that call
  the pool can extend it further. Every operation is the sequence of its locked sections; the
  sections are definitions of their own and are interleaved in \<open>Pool_Threads\<close>.
\<close>

section \<open>Data\<close>

type_synonym caddr = "nat \<times> nat"

text \<open>The handle that \<open>ibv_reg_mr\<close> returns, and the key the code reads from it.\<close>

record ibv_mr =
  mr_id :: nat
  lkey :: u32

datatype ibv_access = IBV_ACCESS_LOCAL_WRITE | IBV_ACCESS_REMOTE_READ | IBV_ACCESS_REMOTE_WRITE

definition RDMA_BUF_FLAG :: "ibv_access list" where
  "RDMA_BUF_FLAG = [IBV_ACCESS_LOCAL_WRITE, IBV_ACCESS_REMOTE_READ, IBV_ACCESS_REMOTE_WRITE]"

record link_node =
  buffer :: "nat option"
  node_mr :: "ibv_mr option"
  node_next :: "nat option"

record rdma_buffer_pool =
  link_head :: "nat option"
  free_list :: "caddr option"
  total_size :: u32
  free_size :: u32
  pool_pd :: nat

text \<open>
  The heap: the fields of every chunk, the number of chunks of every live block, the live
  \<open>link_node\<close>s, the next unused address, and the memory regions registered with the device.
  The fields of a block that \<open>malloc\<close> has just returned hold whatever they held before.
\<close>

record mem = rdma_buffer_pool +
  next_of :: "caddr \<Rightarrow> caddr option"
  mr_of :: "caddr \<Rightarrow> ibv_mr"
  header_of :: "caddr \<Rightarrow> rdma_chunk_header"
  body_of :: "caddr \<Rightarrow> chunk_body"
  buffers :: "nat \<rightharpoonup> nat"
  links :: "nat \<rightharpoonup> link_node"
  fresh :: nat
  registered :: "ibv_mr list"

text \<open>
  What the operating system and the verbs library decide: whether the allocation that would
  get a given address and size succeeds, and what \<open>ibv_reg_mr\<close> returns for a protection
  domain, an address, a length and access flags.
\<close>

record os =
  malloc_ok :: "nat \<Rightarrow> nat \<Rightarrow> bool"
  ibv_reg_mr :: "nat \<Rightarrow> nat \<Rightarrow> nat \<Rightarrow> ibv_access list \<Rightarrow> ibv_mr option"

definition chunk_live :: "'z mem_scheme \<Rightarrow> caddr \<Rightarrow> bool" where
  "chunk_live s a = (case buffers s (fst a) of None \<Rightarrow> False | Some n \<Rightarrow> snd a < n)"

text \<open>A dereference of a chunk pointer: it must be neither NULL nor dangling.\<close>

definition chunk_at :: "'z mem_scheme \<Rightarrow> caddr option \<Rightarrow> caddr res" where
  "chunk_at s p =
     bind_res (deref p) (\<lambda>a. if chunk_live s a then Inr a else Inl BadAddress)"

definition malloc :: "os \<Rightarrow> nat \<Rightarrow> 'z mem_scheme \<Rightarrow> nat option \<times> 'z mem_scheme" where
  "malloc os n s =
     (if malloc_ok os (fresh s) n then Some (fresh s) else None, s\<lparr>fresh := Suc (fresh s)\<rparr>)"

section \<open>Growing the pool\<close>

text \<open>One turn of the loop that links the chunks of a new block.\<close>

definition init_chunk :: "nat \<Rightarrow> ibv_mr \<Rightarrow> nat \<Rightarrow> 'z mem_scheme \<Rightarrow> 'z mem_scheme res" where
  "init_chunk buf mr i s =
     Inr (s\<lparr>mr_of := (mr_of s)((buf, i) := mr),
            next_of := (next_of s)((buf, i) := Some (buf, i + 1))\<rparr>)"

text \<open>The chunks that \<open>append_rdma_buffer_pool\<close> adds: whole buffers of \<open>RDMA_BUFFER_SIZE\<close>.\<close>

definition append_size :: "u32 \<Rightarrow> u32" where
  "append_size sz =
     (let buffer_cnt = sz div RDMA_BUFFER_SIZE + (if sz mod RDMA_BUFFER_SIZE = 0 then 0 else 1)
      in buffer_cnt * RDMA_BUFFER_SIZE)"

text \<open>
  The part of \<open>append_rdma_buffer_pool\<close> before its locked section: \<open>None\<close> is \<open>return -1\<close>.
  \<open>calloc\<close> of the node is not checked, so its failure is a NULL dereference. When the block
  cannot be allocated the node is freed; when registering fails, node and block stay allocated.
  The loop counter is an \<open>int\<close> compared with the \<open>uint32_t\<close> \<open>size - 1\<close>.
\<close>

definition append_prepare ::
  "os \<Rightarrow> u32 \<Rightarrow> 'z mem_scheme \<Rightarrow> ((nat \<times> nat \<times> u32) option \<times> 'z mem_scheme) res" where
  "append_prepare os sz0 s =
     (let sz = append_size sz0
      in if sz = 0 then Inr (None, s)
      else let (node, s1) = malloc os sizeof_link_node s;
               (buf, s2) = malloc os (unat sz * sizeof_rdma_chunk) s1
      in case node of None \<Rightarrow> Inl NullDeref
         | Some node \<Rightarrow>
      (case buf of None \<Rightarrow> Inr (None, s2)
         | Some buf \<Rightarrow>
      (let s3 = s2\<lparr>links := (links s2)(node \<mapsto>
                       \<lparr>buffer = Some buf, node_mr = None, node_next = None\<rparr>),
                   buffers := (buffers s2)(buf \<mapsto> unat sz)\<rparr>
       in case ibv_reg_mr os (pool_pd s3) buf (sizeof_rdma_chunk * unat sz) RDMA_BUF_FLAG of
           None \<Rightarrow> Inr (None, s3)
         | Some mr \<Rightarrow>
           (let s4 = s3\<lparr>registered := mr # registered s3\<rparr>
            in if unat (sz - 1) > 2 ^ 31 - 1 then Inl SignedOverflow
            else bind_res (for_loop 0 (unat (sz - 1)) (init_chunk buf mr) s4) (\<lambda>s5.
              Inr (Some (node, buf, sz),
                s5\<lparr>mr_of := (mr_of s5)((buf, unat (sz - 1)) := mr),
                   links := (links s5)(node \<mapsto>
                     \<lparr>buffer = Some buf, node_mr = Some mr, node_next = None\<rparr>)\<rparr>))))))"

text \<open>The locked section of \<open>append_rdma_buffer_pool\<close>.\<close>

definition append_publish ::
  "nat \<Rightarrow> nat \<Rightarrow> u32 \<Rightarrow> 'z mem_scheme \<Rightarrow> 'z mem_scheme res" where
  "append_publish node buf sz s =
     (case links s node of None \<Rightarrow> Inl BadAddress
      | Some nd \<Rightarrow> Inr (s\<lparr>next_of := (next_of s)((buf, unat (sz - 1)) := free_list s),
                          free_list := Some (buf, 0),
                          links := (links s)(node \<mapsto> nd\<lparr>node_next := link_head s\<rparr>),
                          link_head := Some node,
                          total_size := total_size s + sz,
                          free_size := free_size s + sz\<rparr>))"

definition append_rdma_buffer_pool ::
  "os \<Rightarrow> u32 \<Rightarrow> 'z mem_scheme \<Rightarrow> (int \<times> 'z mem_scheme) res" where
  "append_rdma_buffer_pool os sz s =
     bind_res (append_prepare os sz s) (\<lambda>(r, s1).
       case r of None \<Rightarrow> Inr (- 1, s1)
       | Some (node, buf, sz) \<Rightarrow>
           bind_res (append_publish node buf sz s1) (\<lambda>s2. Inr (0, s2)))"

section \<open>Operations\<close>

definition init_rdma_buffer_pool ::
  "os \<Rightarrow> nat \<Rightarrow> 'z mem_scheme \<Rightarrow> (int \<times> 'z mem_scheme) res" where
  "init_rdma_buffer_pool os pd s =
     append_rdma_buffer_pool os RDMA_BUFFER_SIZE
       (s\<lparr>link_head := None, free_list := None, total_size := 0, free_size := 0, pool_pd := pd\<rparr>)"

text \<open>The second locked section of \<open>get_rdma_chunk_from_pool\<close>: take the head of the list.\<close>

definition pop_chunk :: "'z mem_scheme \<Rightarrow> (caddr \<times> 'z mem_scheme) res" where
  "pop_chunk s =
     bind_res (chunk_at s (free_list s)) (\<lambda>chunk.
       Inr (chunk, s\<lparr>free_list := next_of s chunk,
                     next_of := (next_of s)(chunk := None),
                     free_size := free_size s - 1\<rparr>))"

definition get_rdma_chunk_from_pool ::
  "os \<Rightarrow> 'z mem_scheme \<Rightarrow> (caddr option \<times> 'z mem_scheme) res" where
  "get_rdma_chunk_from_pool os s =
     (let free = free_size s in
      bind_res (if free = 0 then append_rdma_buffer_pool os RDMA_BUFFER_SIZE s else Inr (0, s))
        (\<lambda>(rc, s1). if rc < 0 then Inr (None, s1)
                    else bind_res (pop_chunk s1) (\<lambda>(c, s2). Inr (Some c, s2))))"

text \<open>
  The loop of \<open>get_rdma_chunk_list_from_pool\<close>: \<open>None\<close> is its early \<open>return NULL\<close>, \<open>Some now\<close>
  the value of \<open>now\<close> after \<open>n\<close> turns, which may be NULL.
\<close>

fun advance :: "nat \<Rightarrow> 'z mem_scheme \<Rightarrow> caddr option \<Rightarrow> caddr option option res" where
  "advance 0 s now = Inr (Some now)"
| "advance (Suc n) s now =
     (if now = None then Inr None
      else bind_res (chunk_at s now) (\<lambda>a. advance n s (next_of s a)))"

definition take_chunks ::
  "u32 \<Rightarrow> 'z mem_scheme \<Rightarrow> (caddr option \<times> 'z mem_scheme) res" where
  "take_chunks count s =
     (let chunk = free_list s in
      bind_res (advance (unat (count - 1)) s chunk) (\<lambda>r.
        case r of None \<Rightarrow> Inr (None, s)
        | Some now \<Rightarrow> bind_res (chunk_at s now) (\<lambda>a.
            Inr (chunk, s\<lparr>free_list := next_of s a,
                          next_of := (next_of s)(a := None),
                          free_size := free_size s - count\<rparr>))))"

definition get_rdma_chunk_list_from_pool ::
  "os \<Rightarrow> u32 \<Rightarrow> 'z mem_scheme \<Rightarrow> (caddr option \<times> 'z mem_scheme) res" where
  "get_rdma_chunk_list_from_pool os count s =
     (if count = 0 then Inr (None, s)
      else let free = free_size s in
      bind_res (if free < count then append_rdma_buffer_pool os (count - free) s else Inr (0, s))
        (\<lambda>(rc, s1). if rc < 0 then Inr (None, s1) else take_chunks count s1))"

definition release_rdma_chunk_to_pool ::
  "caddr option \<Rightarrow> 'z mem_scheme \<Rightarrow> 'z mem_scheme res" where
  "release_rdma_chunk_to_pool chunk s =
     (if chunk = None then Inr s
      else bind_res (chunk_at s chunk) (\<lambda>a.
        Inr (s\<lparr>next_of := (next_of s)(a := free_list s),
               free_list := Some a,
               free_size := free_size s + 1\<rparr>)))"

text \<open>
  The loop of \<open>destroy_rdma_buffer_pool\<close>. It follows the \<open>link_node\<close>s and may not end on a
  cyclic list, so it takes fuel, and \<open>None\<close> is "still running"; \<open>destroy_pool_frees\<close> below says
  how much is enough. \<open>link_head\<close> is left as it was.
\<close>

fun destroy_links :: "nat \<Rightarrow> nat option \<Rightarrow> 'z mem_scheme \<Rightarrow> 'z mem_scheme res option" where
  "destroy_links fuel None s = Some (Inr s)"
| "destroy_links 0 (Some p) s = None"
| "destroy_links (Suc fuel) (Some p) s =
     (case links s p of None \<Rightarrow> Some (Inl BadAddress)
      | Some nd \<Rightarrow>
        (case chunk_at s (map_option (\<lambda>b. (b, 0)) (buffer nd)) of Inl e \<Rightarrow> Some (Inl e)
         | Inr a \<Rightarrow>
             destroy_links fuel (node_next nd)
               (s\<lparr>registered := remove1 (mr_of s a) (registered s),
                  buffers := (buffers s)(fst a := None),
                  links := (links s)(p := None)\<rparr>)))"

definition destroy_rdma_buffer_pool ::
  "nat \<Rightarrow> 'z mem_scheme \<Rightarrow> 'z mem_scheme res option" where
  "destroy_rdma_buffer_pool fuel s =
     map_option (\<lambda>r. bind_res r (\<lambda>s1.
         Inr (s1\<lparr>free_list := None, free_size := 0, total_size := 0\<rparr>)))
       (destroy_links fuel (link_head s) s)"

section \<open>The size of a grown pool\<close>


definition round_up :: "nat \<Rightarrow> nat" where
  "round_up n = (n + 4095) div 4096 * 4096"

lemma round_up_bounds: "n \<le> round_up n" "round_up n < n + 4096"
proof -
  define q r where "q = (n + 4095) div 4096" and "r = (n + 4095) mod 4096"
  have "n + 4095 = q * 4096 + r" "r < 4096"
    by (simp_all add: q_def r_def)
  then show "n \<le> round_up n" "round_up n < n + 4096"
    unfolding round_up_def q_def[symmetric] by linarith+
qed

lemma round_up_le: "round_up n \<le> 4096 * n"
  using round_up_bounds(2)[of n] by (cases n) (simp_all add: round_up_def)

lemma ceil_div: "n div 4096 + (if n mod 4096 = 0 then 0 else 1) = (n + 4095) div (4096::nat)"
proof -
  define q r where "q = n div 4096" and "r = n mod 4096"
  have n: "n = q * 4096 + r" "r < 4096"
    by (simp_all add: q_def r_def)
  have "(n + 4095) div 4096 = q + (r + 4095) div 4096"
    unfolding n(1) by (simp add: add.assoc)
  moreover have "(r + 4095) div 4096 = (if r = 0 then 0 else 1)"
    using n(2) by (cases r) (simp_all add: div_nat_eqI)
  ultimately show ?thesis
    unfolding q_def[symmetric] r_def[symmetric] by simp
qed

lemma append_size_eq:
  "unat (append_size sz) = (if unat sz \<le> 4294963200 then round_up (unat sz) else 0)"
proof -
  have lt: "unat sz < 4294967296" using unsigned_less[of sz] by simp
  have z: "sz mod 4096 = 0 \<longleftrightarrow> unat sz mod 4096 = 0"
    by (metis unat_0_iff unat_mod_distrib unsigned_numeral unsigned_0 
         unat_sizes(2) sizes(2))
  have d: "unat sz div 4096 \<le> 1048575"
    using lt by (simp add: less_mult_imp_div_less less_Suc_eq_le[symmetric])
  have "unat (sz div 4096 + (if sz mod 4096 = 0 then 0 else 1))
      = unat sz div 4096 + (if unat sz mod 4096 = 0 then 0 else 1)"
    using d by (simp add: z unat_plus_if' unat_div_distrib)
  then have c: "unat (sz div 4096 + (if sz mod 4096 = 0 then 0 else 1)) = (unat sz + 4095) div 4096"
    by (simp only: ceil_div)
  define w where "w = sz div 4096 + (if sz mod 4096 = 0 then 0 else 1)"
  have "append_size sz = w * 4096"
    by (simp add: append_size_def sizes w_def Let_def)
  then have "unat (append_size sz) = unat w * 4096 mod 4294967296"
    by (simp add: unat_word_ariths)
  then have "unat (append_size sz) = (unat sz + 4095) div 4096 * 4096 mod 4294967296"
    using c by (simp only: w_def)
  also have "\<dots> = (if unat sz \<le> 4294963200 then round_up (unat sz) else 0)"
  proof (cases "unat sz \<le> 4294963200")
    case True
    then have "round_up (unat sz) < 4294967296"
      using round_up_bounds(2)[of "unat sz"] by linarith
    with True show ?thesis by (simp add: round_up_def)
  next
    case False
    with lt have "(unat sz + 4095) div 4096 = 1048576" by (intro div_nat_eqI) simp_all
    with False show ?thesis by simp
  qed
  finally show ?thesis .
qed


lemma init_chunk_loop:
  "for_loop 0 n (init_chunk buf mr) s =
     Inr (s\<lparr>mr_of := \<lambda>a. if fst a = buf \<and> snd a < n then mr else mr_of s a,
            next_of := \<lambda>a. if fst a = buf \<and> snd a < n then Some (buf, snd a + 1) else next_of s a\<rparr>)"
proof (induction n)
  case 0
  then show ?case by simp
next
  case (Suc n)
  have "for_loop 0 (Suc n) (init_chunk buf mr) s
      = bind_res (for_loop 0 n (init_chunk buf mr) s) (init_chunk buf mr n)"
    using for_loop_append[of 0 n 1 "init_chunk buf mr" s]
    by (simp add: bind_res_def split: sum.splits)
  also have "\<dots> = Inr (s\<lparr>mr_of := \<lambda>a. if fst a = buf \<and> snd a < Suc n then mr else mr_of s a,
            next_of := \<lambda>a. if fst a = buf \<and> snd a < Suc n then Some (buf, snd a + 1) else next_of s a\<rparr>)"
    unfolding Suc by (auto simp: init_chunk_def fun_eq_iff less_Suc_eq intro!: mem.equality)
  finally show ?case .
qed

text \<open>
  The state after a successful append of \<open>n\<close> chunks: \<open>next_of\<close> links the new block in order
  and ends at the old head of the free list.
\<close>

definition grown :: "ibv_mr \<Rightarrow> u32 \<Rightarrow> 'z mem_scheme \<Rightarrow> 'z mem_scheme" where
  "grown mr n s =
     (let node = fresh s; buf = Suc (fresh s) in
      s\<lparr>link_head := Some node,
        free_list := Some (buf, 0),
        total_size := total_size s + n,
        free_size := free_size s + n,
        next_of := (\<lambda>a. if fst a = buf \<and> snd a < unat n - 1 then Some (buf, snd a + 1)
                        else if a = (buf, unat n - 1) then free_list s else next_of s a),
        mr_of := (\<lambda>a. if fst a = buf \<and> snd a < unat n then mr else mr_of s a),
        buffers := (buffers s)(buf \<mapsto> unat n),
        links := (links s)(node \<mapsto>
          \<lparr>buffer = Some buf, node_mr = Some mr, node_next = link_head s\<rparr>),
        fresh := Suc (Suc (fresh s)),
        registered := mr # registered s\<rparr>)"

text \<open>After a failed registration: the node and the block stay allocated, the pool is as it was.\<close>

definition leaked :: "u32 \<Rightarrow> 'z mem_scheme \<Rightarrow> 'z mem_scheme" where
  "leaked n s =
     s\<lparr>buffers := (buffers s)(Suc (fresh s) \<mapsto> unat n),
       links := (links s)(fresh s \<mapsto>
          \<lparr>buffer = Some (Suc (fresh s)), node_mr = None, node_next = None\<rparr>),
       fresh := Suc (Suc (fresh s))\<rparr>"

lemma append_rdma_buffer_pool_eq:
  "append_rdma_buffer_pool os sz s =
     (let n = append_size sz in
      if n = 0 then Inr (- 1, s)
      else if \<not> malloc_ok os (fresh s) sizeof_link_node then Inl NullDeref
      else if \<not> malloc_ok os (Suc (fresh s)) (unat n * sizeof_rdma_chunk)
        then Inr (- 1, s\<lparr>fresh := Suc (Suc (fresh s))\<rparr>)
      else case ibv_reg_mr os (pool_pd s) (Suc (fresh s)) (sizeof_rdma_chunk * unat n) RDMA_BUF_FLAG
        of None \<Rightarrow> Inr (- 1, leaked n s)
         | Some mr \<Rightarrow> if unat n > 2 ^ 31 then Inl SignedOverflow else Inr (0, grown mr n s))"
proof -
  define n where "n = append_size sz"
  show ?thesis
  proof (cases "n = 0")
    case True
    then show ?thesis
      by (simp add: append_rdma_buffer_pool_def append_prepare_def n_def[symmetric])
  next
    case False
    then have pos: "0 < unat n" by (simp add: unat_gt_0)
    have m1: "unat (n - 1) = unat n - 1"
      using False by (metis unat_minus_one)
    have g: "2 ^ 31 - 1 < unat n - 1 \<longleftrightarrow> 2 ^ 31 < unat n" by auto
    show ?thesis
      using False pos
      by (simp add: append_rdma_buffer_pool_def append_prepare_def append_publish_def malloc_def
          n_def[symmetric] m1 g init_chunk_loop leaked_def grown_def Let_def split: option.splits)
         (auto simp: fun_eq_iff less_Suc_eq intro!: mem.equality)
  qed
qed


section \<open>The invariant of the pool\<close>

text \<open>
  The list of \<open>link_node\<close>s, each with its block and the number of chunks of the block, and the
  chunks of all blocks of the list.
\<close>

type_synonym node = "nat \<times> nat \<times> nat"

fun node_chain :: "'z mem_scheme \<Rightarrow> nat option \<Rightarrow> node list \<Rightarrow> bool" where
  "node_chain s p [] = (p = None)"
| "node_chain s p ((n, b, k) # ns) =
     (p = Some n \<and>
      (case links s n of None \<Rightarrow> False
       | Some nd \<Rightarrow> buffer nd = Some b \<and> buffers s b = Some k \<and> 0 < k
                     \<and> node_chain s (node_next nd) ns))"

definition block_addrs :: "nat \<Rightarrow> nat \<Rightarrow> caddr list" where
  "block_addrs b k = map (Pair b) [0..<k]"

definition chunk_addrs :: "node list \<Rightarrow> caddr list" where
  "chunk_addrs ns = concat (map (\<lambda>(n, b, k). block_addrs b k) ns)"

text \<open>
  The pool is well formed: \<open>ns\<close> is its list of nodes, \<open>xs\<close> its free list; the free chunks are
  chunks of its blocks, and both counters are exact.
\<close>

definition pool_inv :: "'z mem_scheme \<Rightarrow> node list \<Rightarrow> caddr list \<Rightarrow> bool" where
  "pool_inv s ns xs \<longleftrightarrow>
     node_chain s (link_head s) ns
     \<and> distinct (map (fst \<circ> snd) ns)
     \<and> list_all (\<lambda>(n, b, k). n < fresh s \<and> b < fresh s) ns
     \<and> chain (next_of s) (free_list s) xs
     \<and> list_all (\<lambda>a. a \<in> set (chunk_addrs ns)) xs
     \<and> length xs = unat (free_size s)
     \<and> length (chunk_addrs ns) = unat (total_size s)"

lemma chunk_addrs_simps [simp]:
  "chunk_addrs [] = []"
  "chunk_addrs ((n, b, k) # ns) = block_addrs b k @ chunk_addrs ns"
  by (simp_all add: chunk_addrs_def)

lemma block_addrs_facts [simp]:
  "length (block_addrs b k) = k"
  "a \<in> set (block_addrs b k) \<longleftrightarrow> fst a = b \<and> snd a < k"
  "distinct (block_addrs b k)"
  by (cases a; force simp: block_addrs_def distinct_map inj_on_def)+

definition block_tail :: "nat \<Rightarrow> nat \<Rightarrow> caddr list" where
  "block_tail b k = map (Pair b) [1..<k]"

lemma block_addrs_Cons: "0 < k \<Longrightarrow> block_addrs b k = (b, 0) # block_tail b k"
  by (simp add: block_addrs_def block_tail_def upt_conv_Cons)

lemma in_chunk_addrs: "(b, i) \<in> set (chunk_addrs ns) \<longleftrightarrow> (\<exists>n k. (n, b, k) \<in> set ns \<and> i < k)"
  by (fastforce simp: chunk_addrs_def)

lemma distinct_chunk_addrs:
  "distinct (map (fst \<circ> snd) ns) \<Longrightarrow> distinct (chunk_addrs ns)"
proof (induction ns)
  case Nil
  then show ?case by simp
next
  case (Cons x ns)
  obtain n b k where x: "x = (n, b, k)" by (cases x)
  with Cons.prems have "b \<notin> fst ` snd ` set ns" by (auto simp: image_comp)
  then have "(b, i) \<notin> set (chunk_addrs ns)" for i
    by (force simp: in_chunk_addrs)
  with Cons x show ?case
    by (auto simp: distinct_map inj_on_def)
qed

lemma node_chain_live:
  "node_chain s p ns \<Longrightarrow> a \<in> set (chunk_addrs ns) \<Longrightarrow> chunk_live s a"
  by (induction s p ns rule: node_chain.induct)
    (auto simp: chunk_live_def split: option.splits)

text \<open>A node chain depends on the nodes and blocks of its own elements only.\<close>

lemma node_chain_cong:
  assumes "\<And>n b k. (n, b, k) \<in> set ns \<Longrightarrow> links s' n = links s n \<and> buffers s' b = buffers s b"
  shows "node_chain s' p ns = node_chain s p ns"
  using assms
proof (induction ns arbitrary: p)
  case Nil
  then show ?case by simp
next
  case (Cons x ns)
  obtain n b k where x: "x = (n, b, k)" by (cases x)
  from Cons.prems[of n b k] x have "links s' n = links s n" "buffers s' b = buffers s b"
    by auto
  moreover from Cons.prems have "node_chain s' q ns = node_chain s q ns" for q
    by (intro Cons.IH) auto
  ultimately show ?case
    by (simp add: x split: option.split)
qed

lemma pool_invD:
  assumes "pool_inv s ns xs"
  shows "node_chain s (link_head s) ns" "distinct (map (fst \<circ> snd) ns)"
    "\<And>n b k. (n, b, k) \<in> set ns \<Longrightarrow> n < fresh s \<and> b < fresh s"
    "chain (next_of s) (free_list s) xs" "set xs \<subseteq> set (chunk_addrs ns)"
    "length xs = unat (free_size s)" "length (chunk_addrs ns) = unat (total_size s)"
    "distinct xs" "\<And>a. a \<in> set (chunk_addrs ns) \<Longrightarrow> chunk_live s a"
    "\<And>a. a \<in> set xs \<Longrightarrow> chunk_live s a"
  using assms
  by (auto simp: pool_inv_def list_all_iff dest: chain_distinct node_chain_live)

lemma pool_invI [inv_intros]:
  assumes "node_chain s (link_head s) ns" "distinct (map (fst \<circ> snd) ns)"
    "\<And>n b k. (n, b, k) \<in> set ns \<Longrightarrow> n < fresh s \<and> b < fresh s"
    "chain (next_of s) (free_list s) xs" "set xs \<subseteq> set (chunk_addrs ns)"
    "length xs = unat (free_size s)" "length (chunk_addrs ns) = unat (total_size s)"
  shows "pool_inv s ns xs"
  using assms by (auto simp: pool_inv_def list_all_iff)

text \<open>
  The free list never holds more chunks than the pool, so neither counter wraps.
\<close>

lemma pool_inv_free_le:
  assumes "pool_inv s ns xs"
  shows "unat (free_size s) \<le> unat (total_size s)"
proof -
  note inv = pool_invD[OF assms]
  have "length xs = card (set xs)" using inv(8) by (simp add: distinct_card)
  also have "\<dots> \<le> card (set (chunk_addrs ns))" using inv(5) by (simp add: card_mono)
  also have "\<dots> \<le> length (chunk_addrs ns)" by (rule card_length)
  finally show ?thesis using inv(6,7) by simp
qed

lemma free_list_cases:
  assumes "pool_inv s ns xs"
  obtains "free_size s = 0" "xs = []" "free_list s = None"
  | a as where "free_size s \<noteq> 0" "xs = a # as" "free_list s = Some a" "chunk_live s a"
      "chain (next_of s) (next_of s a) as" "a \<notin> set as"
proof (cases xs)
  case Nil
  with pool_invD(4,6)[OF assms] that(1) show ?thesis by (simp add: unat_0_iff)
next
  case (Cons a as)
  note inv = pool_invD[OF assms]
  from inv(6) Cons have "free_size s \<noteq> 0" by auto
  moreover from Cons inv(10) have "chunk_live s a" by simp
  ultimately show ?thesis using Cons inv(4,8) by (intro that(2)) auto
qed

lemma pool_inv_grown:
  assumes inv: "pool_inv s ns xs" and n: "0 < unat n" and bound: "unat (total_size s) + unat n < 2 ^ 32"
  shows "pool_inv (grown mr n s) ((fresh s, Suc (fresh s), unat n) # ns)
           (block_addrs (Suc (fresh s)) (unat n) @ xs)"
proof -
  note inv = pool_invD[OF inv] pool_inv_free_le[OF inv]
  let ?s = "grown mr n s" and ?b = "Suc (fresh s)"
  have notin: "a \<in> set xs \<Longrightarrow> fst a \<noteq> ?b" for a
    using inv(3,5) by (cases a) (fastforce simp: in_chunk_addrs)
  have old: "chain (next_of ?s) (free_list s) xs"
  proof (subst chain_cong[where nx' = "next_of s"])
    show "next_of ?s a = next_of s a" if "a \<in> set xs" for a
      using notin[OF that] by (cases a) (simp add: grown_def Let_def)
  qed (rule inv(4))
  have seg: "i \<le> unat n \<Longrightarrow> chain (next_of ?s) (if i < unat n then Some (?b, i) else free_list s)
      (map (Pair ?b) [i..<unat n] @ xs)" for i
  proof (induction "unat n - i" arbitrary: i)
    case 0
    with old show ?case by simp
  next
    case (Suc m)
    then have lt: "i < unat n" by simp
    have "next_of ?s (?b, i) = (if Suc i < unat n then Some (?b, Suc i) else free_list s)"
      using lt by (auto simp: grown_def Let_def)
    moreover have "chain (next_of ?s) (if Suc i < unat n then Some (?b, Suc i) else free_list s)
      (map (Pair ?b) [Suc i..<unat n] @ xs)"
      using Suc lt by (intro Suc.hyps) auto
    ultimately show ?case
      using lt by (simp add: upt_conv_Cons[OF lt])
  qed
  have nodes: "node_chain ?s (link_head s) ns"
    using inv(1) by (subst node_chain_cong[where s = s]) (use inv(3) in \<open>fastforce simp: grown_def Let_def\<close>)+
  show ?thesis
  proof (intro inv_intros)
    show "node_chain ?s (link_head ?s) ((fresh s, ?b, unat n) # ns)"
      using n nodes by (simp add: grown_def Let_def)
    show "distinct (map (fst \<circ> snd) ((fresh s, ?b, unat n) # ns))"
      using inv(2,3) by fastforce
    show "m < fresh ?s \<and> b < fresh ?s" if "(m, b, k) \<in> set ((fresh s, ?b, unat n) # ns)" for m b k
      using that inv(3)[of m b k] by (auto simp: grown_def Let_def)
    show "chain (next_of ?s) (free_list ?s) (block_addrs ?b (unat n) @ xs)"
      using seg[of 0] n by (simp add: grown_def Let_def block_addrs_def)
  qed (use inv bound in \<open>auto simp: grown_def Let_def unat_plus_if'\<close>)
qed


lemma pool_inv_cong:
  assumes "pool_inv s ns xs" "link_head s' = link_head s" "free_list s' = free_list s"
    "total_size s' = total_size s" "free_size s' = free_size s" "next_of s' = next_of s"
    "fresh s \<le> fresh s'"
    "\<And>n b k. (n, b, k) \<in> set ns \<Longrightarrow> links s' n = links s n \<and> buffers s' b = buffers s b"
  shows "pool_inv s' ns xs"
proof (intro inv_intros)
  note inv = pool_invD[OF assms(1)]
  show "node_chain s' (link_head s') ns"
    using inv(1) assms(2,8) by (subst node_chain_cong[where s = s]) auto
  show "n < fresh s' \<and> b < fresh s'" if "(n, b, k) \<in> set ns" for n b k
    using inv(3)[OF that] assms(7) by auto
qed (use pool_invD[OF assms(1)] assms in auto)

section \<open>What each operation does\<close>

lemma append_failed_inv:
  "pool_inv s ns xs \<Longrightarrow> pool_inv (s\<lparr>fresh := Suc (Suc (fresh s))\<rparr>) ns xs"
  "pool_inv s ns xs \<Longrightarrow> pool_inv (leaked n s) ns xs"
  by (rule pool_inv_cong; simp add: leaked_def; fastforce dest: pool_invD(3))+

text \<open>
  Growing either fails and leaves the pool as it was, or puts a new block in front of the
  free list.
\<close>

lemma append_outcomes:
  assumes "append_rdma_buffer_pool os sz s = Inr (rc, s')"
  shows "rc = -1 \<and> s' \<in> {s, s\<lparr>fresh := Suc (Suc (fresh s))\<rparr>, leaked (append_size sz) s}
    \<or> (rc = 0 \<and> append_size sz \<noteq> 0 \<and> (\<exists>mr. s' = grown mr (append_size sz) s))"
  using assms unfolding append_rdma_buffer_pool_eq Let_def
  by (auto split: if_splits option.splits)

lemma append_cases [consumes 3, case_names failed ok]:
  assumes "append_rdma_buffer_pool os sz s = Inr (rc, s')" and inv: "pool_inv s ns xs"
    and bound: "unat (total_size s) + round_up (unat sz) < 2 ^ 32"
  obtains (failed) "rc = -1" "pool_inv s' ns xs" "next_of s' = next_of s" "header_of s' = header_of s"
      "body_of s' = body_of s" "mr_of s' = mr_of s" "mem.more s' = mem.more s"
  | (ok) mr where "rc = 0" "s' = grown mr (append_size sz) s"
      "unat (append_size sz) = round_up (unat sz)"
      "pool_inv s' ((fresh s, Suc (fresh s), round_up (unat sz)) # ns)
         (block_addrs (Suc (fresh s)) (round_up (unat sz)) @ xs)"
  using append_outcomes[OF assms(1)]
proof (elim disjE conjE exE)
  assume "rc = -1" and s': "s' \<in> {s, s\<lparr>fresh := Suc (Suc (fresh s))\<rparr>, leaked (append_size sz) s}"
  moreover have "pool_inv s' ns xs"
    using s' inv append_failed_inv[OF inv] by auto
  moreover have "next_of s' = next_of s \<and> header_of s' = header_of s \<and> body_of s' = body_of s
      \<and> mr_of s' = mr_of s \<and> mem.more s' = mem.more s"
    using s' by (auto simp: leaked_def)
  ultimately show ?thesis by (intro failed) auto
next
  fix mr assume "rc = 0" and n: "append_size sz \<noteq> 0" and s': "s' = grown mr (append_size sz) s"
  have sz: "unat (append_size sz) = round_up (unat sz)"
    using n by (metis append_size_eq unat_0_iff)
  have "0 < unat (append_size sz)"
    using n by (simp add: unat_gt_0)
  from pool_inv_grown[OF inv this, of mr] bound sz
  have "pool_inv s' ((fresh s, Suc (fresh s), round_up (unat sz)) # ns)
         (block_addrs (Suc (fresh s)) (round_up (unat sz)) @ xs)"
    by (simp add: s')
  with \<open>rc = 0\<close> s' sz show ?thesis by (intro ok) auto
qed

text \<open>Taking one chunk.\<close>

definition popped :: "caddr \<Rightarrow> 'z mem_scheme \<Rightarrow> 'z mem_scheme" where
  "popped a s = s\<lparr>free_list := next_of s a, next_of := (next_of s)(a := None),
                  free_size := free_size s - 1\<rparr>"

lemma pop_chunk_Cons:
  assumes "pool_inv s ns (a # as)"
  shows "pop_chunk s = Inr (a, popped a s)" "pool_inv (popped a s) ns as"
proof -
  note inv = pool_invD[OF assms]
  from inv(4) have fl: "free_list s = Some a" by simp
  from inv(10) fl show "pop_chunk s = Inr (a, popped a s)"
    by (simp add: pop_chunk_def chunk_at_def popped_def)
  have "unat (free_size s - 1) = length as"
    using inv(6) by (metis One_nat_def diff_Suc_1 length_Cons unat_0_iff unat_minus_one nat.distinct(1))
  moreover have "node_chain (popped a s) (link_head s) ns"
    using inv(1) by (subst node_chain_cong[where s = s]) (auto simp: popped_def)
  ultimately show "pool_inv (popped a s) ns as"
    using inv by (intro inv_intros) (auto simp: popped_def chain_upd)
qed

lemma pop_chunk_Nil: "pool_inv s ns [] \<Longrightarrow> pop_chunk s = Inl NullDeref"
  by (auto simp: pop_chunk_def chunk_at_def dest: pool_invD(4))

text \<open>Giving one back.\<close>

definition released :: "caddr \<Rightarrow> 'z mem_scheme \<Rightarrow> 'z mem_scheme" where
  "released a s = s\<lparr>free_list := Some a, next_of := (next_of s)(a := free_list s),
                    free_size := free_size s + 1\<rparr>"

lemma release_eq:
  "chunk_live s a \<Longrightarrow> release_rdma_chunk_to_pool (Some a) s = Inr (released a s)"
  by (simp add: release_rdma_chunk_to_pool_def chunk_at_def released_def)

lemma pool_inv_released:
  assumes "pool_inv s ns xs" and "a \<in> set (chunk_addrs ns)" and "a \<notin> set xs"
  shows "pool_inv (released a s) ns (a # xs)"
proof -
  note inv = pool_invD[OF assms(1)]
  have "Suc (length xs) = card (insert a (set xs))"
    using inv(8) assms(3) by (simp add: distinct_card)
  also have "\<dots> \<le> card (set (chunk_addrs ns))"
    using inv(5) assms(2) by (intro card_mono) auto
  also have "\<dots> \<le> unat (total_size s)"
    using card_length[of "chunk_addrs ns"] inv(7) by simp
  finally have "Suc (unat (free_size s)) < 2 ^ 32"
    using unat_u32_less[of "total_size s"] inv(6) by simp
  then have "unat (free_size s + 1) = Suc (unat (free_size s))"
    by (simp add: unat_plus_if')
  moreover have "node_chain (released a s) (link_head s) ns"
    using inv(1) by (subst node_chain_cong[where s = s]) (auto simp: released_def)
  ultimately show ?thesis
    using inv assms(2,3) by (intro inv_intros) (auto simp: released_def chain_upd)
qed

lemma released_popped:
  assumes "free_list s = Some a"
  shows "released a (popped a s) = s"
  using assms by (auto simp: released_def popped_def intro!: mem.equality)


text \<open>Walking the free list, and cutting a prefix off it.\<close>

lemma advance_chain:
  assumes "chain (next_of s) p xs" and "\<And>a. a \<in> set xs \<Longrightarrow> chunk_live s a"
  shows "advance n s p = Inr (if n \<le> length xs then Some (head_of (drop n xs)) else None)"
  using assms
proof (induction n arbitrary: p xs)
  case 0
  then show ?case by (simp add: chain_head)
next
  case (Suc n)
  show ?case
  proof (cases xs)
    case Nil
    with Suc.prems show ?thesis by simp
  next
    case (Cons a as)
    with Suc.prems have "advance n s (next_of s a)
        = Inr (if n \<le> length as then Some (head_of (drop n as)) else None)"
      by (intro Suc.IH) auto
    with Cons Suc.prems show ?thesis
      by (simp add: chunk_at_def)
  qed
qed

definition taken :: "u32 \<Rightarrow> caddr \<Rightarrow> 'z mem_scheme \<Rightarrow> 'z mem_scheme" where
  "taken count a s = s\<lparr>free_list := next_of s a, next_of := (next_of s)(a := None),
                       free_size := free_size s - count\<rparr>"

text \<open>
  The locked section of \<open>get_rdma_chunk_list_from_pool\<close> on every branch: enough chunks, one
  chunk short (the loop ends on NULL and the code dereferences it), or shorter still (the loop
  sees NULL and the call returns NULL).
\<close>

lemma take_chunks_eq:
  assumes "pool_inv s ns xs" and "count \<noteq> 0"
  shows "take_chunks count s =
    (if unat count \<le> length xs then Inr (head_of xs, taken count (xs ! (unat count - 1)) s)
     else if unat count = Suc (length xs) then Inl NullDeref
     else Inr (None, s))"
proof -
  note inv = pool_invD[OF assms(1)]
  have pos: "0 < unat count" using assms(2) by (simp add: unat_gt_0)
  have m1: "unat (count - 1) = unat count - 1"
    using assms(2) by (metis unat_minus_one)
  have adv: "advance (unat count - 1) s (free_list s)
      = Inr (if unat count - 1 \<le> length xs then Some (head_of (drop (unat count - 1) xs)) else None)"
    using inv by (intro advance_chain) auto
  have fl: "free_list s = head_of xs" using inv(4) by (rule chain_head)
  show ?thesis
  proof (cases "unat count \<le> length xs")
    case True
    then have lt: "unat count - 1 < length xs" using pos by simp
    then have "head_of (drop (unat count - 1) xs) = Some (xs ! (unat count - 1))"
      by (simp add: Cons_nth_drop_Suc[symmetric])
    moreover have "chunk_live s (xs ! (unat count - 1))"
      using inv(10) lt by simp
    ultimately show ?thesis
      using True lt adv
      by (simp add: take_chunks_def m1 chunk_at_def taken_def fl Let_def del: One_nat_def)
  next
    case False
    then show ?thesis
      using pos adv by (auto simp: take_chunks_def m1 chunk_at_def Let_def simp del: One_nat_def)
  qed
qed

lemma pool_inv_taken:
  assumes inv: "pool_inv s ns xs" and "count \<noteq> 0" and le: "unat count \<le> length xs"
  defines "s' \<equiv> taken count (xs ! (unat count - 1)) s"
  shows "pool_inv s' ns (drop (unat count) xs)"
    and "chain (next_of s') (head_of xs) (take (unat count) xs)"
proof -
  note inv = pool_invD[OF inv]
  define k where "k = unat count - 1"
  have "0 < unat count" using assms(2) by (simp add: unat_gt_0)
  then have k: "unat count = Suc k" by (simp add: k_def)
  define a where "a = xs ! k"
  have klt: "k < length xs" using le k by simp
  have s': "s' = taken count a s" by (simp add: s'_def a_def k_def)
  have split: "xs = take k xs @ a # drop (Suc k) xs"
    unfolding a_def by (rule id_take_nth_drop[OF klt])
  define ys zs where "ys = take k xs" and "zs = drop (Suc k) xs"
  have xs: "xs = ys @ a # zs" using split by (simp add: ys_def zs_def)
  have notin: "a \<notin> set ys" "a \<notin> set zs" using inv(8) xs by auto
  from inv(4) obtain q where "segment (next_of s) (free_list s) ys q" "chain (next_of s) q (a # zs)"
    unfolding xs chain_segment by blast
  then have seg: "segment (next_of s) (free_list s) ys (Some a)" "chain (next_of s) (next_of s a) zs"
    by auto
  have "unat (free_size s - count) = length xs - Suc k"
    using inv(6) le k by (simp add: unat_sub word_le_nat_alt)
  moreover have "node_chain s' (link_head s) ns"
    using inv(1) by (subst node_chain_cong[where s = s]) (auto simp: s' taken_def)
  moreover have "chain (next_of s') (free_list s') zs"
    using seg(2) notin by (simp add: s' taken_def chain_upd)
  moreover have "set zs \<subseteq> set (chunk_addrs ns)" "length zs = length xs - Suc k"
    using inv(5) by (auto simp: zs_def dest: in_set_dropD)
  ultimately have "pool_inv s' ns zs"
    using inv(2,3,7) by (intro inv_intros) (auto simp: s' taken_def)
  then show "pool_inv s' ns (drop (unat count) xs)"
    by (simp add: k zs_def)
  have "chain (next_of s') (free_list s) (ys @ [a])"
    using seg(1) notin by (auto simp: chain_segment s' taken_def segment_upd)
  moreover have "take (unat count) xs = ys @ [a]"
    using klt by (simp add: k ys_def a_def take_Suc_conv_app_nth)
  ultimately show "chain (next_of s') (head_of xs) (take (unat count) xs)"
    using chain_head[OF inv(4)] by simp
qed

section \<open>The operations of the pool\<close>

lemma pool_inv_empty:
  assumes "link_head s = None" "free_list s = None" "total_size s = 0" "free_size s = 0"
  shows "pool_inv s [] []"
  using assms by (simp add: pool_inv_def)

lemma round_up_one [simp]: "round_up 4096 = 4096"
  by (simp add: round_up_def)

text \<open>
  A fresh pool: \<open>init_rdma_buffer_pool\<close> either fails with -1 and an empty pool, or builds a
  well-formed pool of one block of \<open>RDMA_BUFFER_SIZE\<close> chunks, all of them free and in the order
  of their addresses.
\<close>

lemma init_rdma_buffer_pool_spec:
  assumes "init_rdma_buffer_pool os pd s = Inr (rc, s')"
  shows "rc = -1 \<and> pool_inv s' [] [] \<or>
    rc = 0 \<and> pool_inv s' [(fresh s, Suc (fresh s), 4096)] (block_addrs (Suc (fresh s)) 4096)"
proof -
  let ?s0 = "s\<lparr>link_head := None, free_list := None, total_size := 0, free_size := 0, pool_pd := pd\<rparr>"
  have app: "append_rdma_buffer_pool os RDMA_BUFFER_SIZE ?s0 = Inr (rc, s')"
    using assms by (simp add: init_rdma_buffer_pool_def)
  moreover have "pool_inv ?s0 [] []" by (simp add: pool_inv_empty)
  moreover have "unat (total_size ?s0) + round_up (unat RDMA_BUFFER_SIZE) < 2 ^ 32" by simp
  ultimately show ?thesis
    by (cases rule: append_cases) auto
qed

lemma append_fault:
  assumes "append_rdma_buffer_pool os sz s = Inl e"
  shows "e = NullDeref \<and> \<not> malloc_ok os (fresh s) sizeof_link_node
    \<or> e = SignedOverflow \<and> 2 ^ 31 < unat (append_size sz)"
  using assms unfolding append_rdma_buffer_pool_eq Let_def by (auto split: if_splits option.splits)

lemma get_chunk_Cons:
  assumes "pool_inv s ns (a # xs)"
  shows "get_rdma_chunk_from_pool os s = Inr (Some a, popped a s)"
proof -
  from assms have "free_size s \<noteq> 0" by (auto elim: free_list_cases)
  then show ?thesis
    by (simp add: get_rdma_chunk_from_pool_def pop_chunk_Cons(1)[OF assms])
qed

lemma get_chunk_Nil:
  assumes "pool_inv s ns []"
  shows "get_rdma_chunk_from_pool os s =
    bind_res (append_rdma_buffer_pool os RDMA_BUFFER_SIZE s) (\<lambda>(rc, s1).
      if rc < 0 then Inr (None, s1) else bind_res (pop_chunk s1) (\<lambda>(c, s2). Inr (Some c, s2)))"
proof -
  from assms have "free_size s = 0" by (auto elim: free_list_cases)
  then show ?thesis by (simp add: get_rdma_chunk_from_pool_def)
qed

text \<open>
  C24: Getting a chunk from a well-formed pool. With a free chunk the call returns the head of
  the free list and keeps the rest; with none it returns the first chunk of a new block, or NULL
  when the pool cannot grow, which leaves it as it was. The chunk handed out is no longer free,
  its \<open>next\<close> is NULL, and the pool stays well formed. The one way to fault is the unchecked
  \<open>calloc\<close> of the node.
\<close>

theorem get_rdma_chunk_spec:
  assumes inv: "pool_inv s ns xs" and bound: "unat (total_size s) + 4096 < 2 ^ 32"
  shows "case get_rdma_chunk_from_pool os s of
      Inl e \<Rightarrow> xs = [] \<and> \<not> malloc_ok os (fresh s) sizeof_link_node \<and> e = NullDeref
    | Inr (None, s') \<Rightarrow> xs = [] \<and> pool_inv s' ns []
    | Inr (Some c, s') \<Rightarrow> next_of s' c = None \<and>
        (\<exists>ns' xs'. pool_inv s' ns' xs' \<and> c \<in> set (chunk_addrs ns') \<and> c \<notin> set xs' \<and>
           (if xs \<noteq> [] then ns' = ns \<and> c # xs' = xs
            else ns' = (fresh s, Suc (fresh s), 4096) # ns \<and>
                 c # xs' = block_addrs (Suc (fresh s)) 4096))"
proof (cases xs)
  case (Cons a as)
  with inv have inv': "pool_inv s ns (a # as)" by simp
  from pop_chunk_Cons(2)[OF inv'] pool_invD(5,8)[OF inv'] Cons show ?thesis
    by (auto simp: get_chunk_Cons[OF inv'] popped_def)
next
  case Nil
  with inv have inv': "pool_inv s ns []" by simp
  show ?thesis
  proof (cases "append_rdma_buffer_pool os RDMA_BUFFER_SIZE s")
    case (Inl e)
    with append_fault[OF Inl] Nil show ?thesis
      by (auto simp: get_chunk_Nil[OF inv'] append_size_eq)
  next
    case (Inr r)
    then obtain rc s1 where app: "append_rdma_buffer_pool os RDMA_BUFFER_SIZE s = Inr (rc, s1)"
      by (cases r) auto
    have "unat (total_size s) + round_up (unat RDMA_BUFFER_SIZE) < 2 ^ 32"
      using bound by simp
    with app inv' show ?thesis
    proof (cases rule: append_cases)
      case failed
      then show ?thesis by (simp add: get_chunk_Nil[OF inv'] app Nil)
    next
      case (ok mr)
      let ?b = "Suc (fresh s)" and ?ns = "(fresh s, Suc (fresh s), 4096) # ns"
      have e: "block_addrs ?b 4096 = (?b, 0) # block_tail ?b 4096"
        by (simp add: block_addrs_Cons)
      have inv1: "pool_inv s1 ?ns ((?b, 0) # block_tail ?b 4096)"
        using ok(4) by (simp add: e)
      have "pool_inv (popped (?b, 0) s1) ?ns (block_tail ?b 4096)"
        by (rule pop_chunk_Cons(2)[OF inv1])
      moreover have "(?b, 0) \<in> set (chunk_addrs ?ns)" by simp
      moreover have "(?b, 0) \<notin> set (block_tail ?b 4096)"
        using pool_invD(8)[OF inv1] by simp
      ultimately show ?thesis
        using ok(1) Nil e
        by (auto simp: get_chunk_Nil[OF inv'] app pop_chunk_Cons(1)[OF inv1] popped_def
            simp del: chunk_addrs_simps intro!: exI[of _ ?ns])
    qed
  qed
qed

lemma get_list_outcomes:
  assumes inv: "pool_inv s ns xs"
    and bound: "unat (total_size s) + round_up (unat count - length xs) < 2 ^ 32"
  shows "case get_rdma_chunk_list_from_pool os count s of
      Inl e \<Rightarrow> length xs < unat count \<and> (e = NullDeref \<or> e = SignedOverflow)
    | Inr (None, s') \<Rightarrow> pool_inv s' ns xs \<and> (count = 0 \<or> length xs < unat count)
    | Inr (Some p, s') \<Rightarrow> count \<noteq> 0 \<and>
        (\<exists>ns' cs xs'. pool_inv s' ns' xs' \<and> chain (next_of s') (Some p) cs \<and>
           length cs = unat count \<and> set cs \<subseteq> set (chunk_addrs ns') - set xs' \<and>
           (if unat count \<le> length xs then ns' = ns \<and> cs @ xs' = xs
            else let k = round_up (unat count - length xs) in
                 ns' = (fresh s, Suc (fresh s), k) # ns \<and>
                 cs @ xs' = block_addrs (Suc (fresh s)) k @ xs))"
proof (cases "count = 0")
  case True
  with inv show ?thesis by (simp add: get_rdma_chunk_list_from_pool_def)
next
  case False
  note fs = pool_invD(6)[OF inv]
  have take: "\<exists>p s' cs xs'. take_chunks count t = Inr (Some p, s') \<and> pool_inv s' ms xs' \<and>
      chain (next_of s') (Some p) cs \<and> length cs = unat count \<and>
      set cs \<subseteq> set (chunk_addrs ms) - set xs' \<and> cs @ xs' = as"
    if i: "pool_inv t ms as" and le: "unat count \<le> length as" for t :: "'a mem_scheme" and ms as
  proof -
    note taken = pool_inv_taken[OF i False le]
    have "as \<noteq> []" using le False by (auto simp: unat_0_iff)
    then obtain p where p: "head_of as = Some p" by (cases as) auto
    have "distinct (take (unat count) as @ drop (unat count) as)"
      using pool_invD(8)[OF i] by simp
    then have "set (take (unat count) as) \<inter> set (drop (unat count) as) = {}"
      by (simp only: distinct_append)
    then have "set (take (unat count) as) \<subseteq> set (chunk_addrs ms) - set (drop (unat count) as)"
      using pool_invD(5)[OF i] by (auto dest: in_set_takeD)
    with taken p le show ?thesis
      by (intro exI[of _ p] exI[of _ "taken count (as ! (unat count - 1)) t"]
          exI[of _ "take (unat count) as"] exI[of _ "drop (unat count) as"])
        (simp add: take_chunks_eq[OF i False])
  qed
  show ?thesis
  proof (cases "unat count \<le> length xs")
    case True
    then have "\<not> free_size s < count" using fs by (simp add: word_less_nat_alt)
    moreover obtain p s' cs xs' where "take_chunks count s = Inr (Some p, s')" "pool_inv s' ns xs'"
        "chain (next_of s') (Some p) cs" "length cs = unat count"
        "set cs \<subseteq> set (chunk_addrs ns) - set xs'" "cs @ xs' = xs"
      using take[OF inv True] by blast
    ultimately show ?thesis
      using True False
      by (simp add: get_rdma_chunk_list_from_pool_def) (intro exI[of _ cs] exI[of _ xs'], simp)
  next
    case less: False
    then have lt: "free_size s < count" using fs by (simp add: word_less_nat_alt)
    then have sub: "unat (count - free_size s) = unat count - length xs"
      using fs by (simp add: unat_sub word_le_nat_alt word_less_nat_alt)
    show ?thesis
    proof (cases "append_rdma_buffer_pool os (count - free_size s) s")
      case (Inl e)
      with append_fault[OF Inl] less False lt show ?thesis
        by (auto simp: get_rdma_chunk_list_from_pool_def)
    next
      case (Inr r)
      then obtain rc s1 where app: "append_rdma_buffer_pool os (count - free_size s) s = Inr (rc, s1)"
        by (cases r) auto
      have "unat (total_size s) + round_up (unat (count - free_size s)) < 2 ^ 32"
        using bound sub by simp
      with app inv show ?thesis
      proof (cases rule: append_cases)
        case failed
        with less lt False show ?thesis
          by (simp add: get_rdma_chunk_list_from_pool_def app)
      next
        case (ok mr)
        have "unat count \<le> length (block_addrs (Suc (fresh s)) (round_up (unat count - length xs)) @ xs)"
          using round_up_bounds(1)[of "unat count - length xs"] by simp
        from take[OF ok(4)[unfolded sub] this] obtain p s' cs xs' where
            "take_chunks count s1 = Inr (Some p, s')"
            "pool_inv s' ((fresh s, Suc (fresh s), round_up (unat count - length xs)) # ns) xs'"
            "chain (next_of s') (Some p) cs" "length cs = unat count"
            "set cs \<subseteq> set (chunk_addrs ((fresh s, Suc (fresh s), round_up (unat count - length xs)) # ns)) - set xs'"
            "cs @ xs' = block_addrs (Suc (fresh s)) (round_up (unat count - length xs)) @ xs"
          by blast
        with ok(1) less lt False show ?thesis
          by (simp add: get_rdma_chunk_list_from_pool_def app Let_def del: chunk_addrs_simps)
            (intro exI[of _ cs] exI[of _ xs'], simp)
      qed
    qed
  qed
qed

lemma get_list_total:
  assumes inv: "pool_inv s ns xs"
    and bound: "unat (total_size s) + round_up (unat count - length xs) < 2 ^ 32"
    and get: "get_rdma_chunk_list_from_pool os count s = Inr (Some p, s')"
  shows "unat (total_size s') \<le> unat (total_size s) + round_up (unat count - length xs)"
proof -
  from get_list_outcomes[OF inv bound, of os] get obtain ns' xs' where
    "pool_inv s' ns' xs'" "ns' = ns \<or> ns' = (fresh s, Suc (fresh s), round_up (unat count - length xs)) # ns"
    by (auto simp: Let_def split: if_splits)
  then show ?thesis using pool_invD(7)[OF inv] pool_invD(7)[of s' ns' xs'] by auto
qed

text \<open>
  C23: Getting a list of \<open>count\<close> chunks. The result is a chain of exactly \<open>count\<close> chunks, cut off
  the front of the free list and ended by NULL, after the pool was grown by a new block in front
  when it held fewer; NULL comes back only for a count of zero or when growing failed.
\<close>

theorem get_rdma_chunk_list_spec:
  assumes inv: "pool_inv s ns xs"
    and bound: "unat (total_size s) + round_up (unat count - length xs) < 2 ^ 32"
  shows "case get_rdma_chunk_list_from_pool os count s of
      Inl e \<Rightarrow> length xs < unat count \<and> (e = NullDeref \<or> e = SignedOverflow)
    | Inr (None, s') \<Rightarrow> pool_inv s' ns xs \<and> (count = 0 \<or> length xs < unat count)
    | Inr (Some p, s') \<Rightarrow> count \<noteq> 0 \<and>
        (\<exists>ns' cs xs'. pool_inv s' ns' xs' \<and> chain (next_of s') (Some p) cs \<and>
           length cs = unat count \<and> set cs \<subseteq> set (chunk_addrs ns') - set xs' \<and>
           (if unat count \<le> length xs then ns' = ns \<and> cs @ xs' = xs
            else let k = round_up (unat count - length xs) in
                 ns' = (fresh s, Suc (fresh s), k) # ns \<and>
                 cs @ xs' = block_addrs (Suc (fresh s)) k @ xs))"
  using assms by (rule get_list_outcomes)

text \<open>
  Releasing a chunk that is handed out puts it at the head of the free list and keeps the pool
  well formed; releasing NULL does nothing.
\<close>

lemma release_rdma_chunk_spec:
  assumes "pool_inv s ns xs" and "a \<in> set (chunk_addrs ns)" and "a \<notin> set xs"
  shows "\<exists>s'. release_rdma_chunk_to_pool (Some a) s = Inr s' \<and> pool_inv s' ns (a # xs)
    \<and> release_rdma_chunk_to_pool None s = Inr s"
  using pool_invD(9)[OF assms(1,2)] pool_inv_released[OF assms]
  by (simp add: release_eq) (simp add: release_rdma_chunk_to_pool_def)

text \<open>
  Get and release are inverse: giving the chunk just taken straight back restores the whole
  state.
\<close>

lemma get_release_roundtrip:
  assumes "pool_inv s ns xs" and "xs \<noteq> []"
  shows "bind_res (get_rdma_chunk_from_pool os s) (\<lambda>(c, s1). release_rdma_chunk_to_pool c s1) = Inr s"
proof -
  from assms(2) obtain a as where xs: "xs = a # as" by (cases xs) auto
  note inv = assms(1)[unfolded xs]
  have "chunk_live (popped a s) a" "free_list s = Some a"
    using pool_invD(10)[OF inv, of a] pool_invD(4)[OF inv] by (simp_all add: chunk_live_def popped_def)
  then show ?thesis
    by (simp add: get_chunk_Cons[OF inv] release_eq released_popped)
qed


text \<open>Taking \<open>n\<close> chunks one at a time, as a reference for the list operation.\<close>

fun pop_many :: "nat \<Rightarrow> 'z mem_scheme \<Rightarrow> (caddr list \<times> 'z mem_scheme) res" where
  "pop_many 0 s = Inr ([], s)"
| "pop_many (Suc n) s = bind_res (pop_chunk s) (\<lambda>(c, s1).
     bind_res (pop_many n s1) (\<lambda>(cs, s2). Inr (c # cs, s2)))"

lemma pop_many_inv:
  assumes "pool_inv s ns xs" and "n \<le> length xs"
  shows "\<exists>s'. pop_many n s = Inr (take n xs, s') \<and> pool_inv s' ns (drop n xs)
    \<and> free_size s' = free_size s - of_nat n \<and> total_size s' = total_size s"
  using assms
proof (induction n arbitrary: s xs)
  case 0
  then show ?case by simp
next
  case (Suc n)
  then obtain a as where xs: "xs = a # as" by (cases xs) auto
  note inv = Suc.prems(1)[unfolded xs]
  have "\<exists>s'. pop_many n (popped a s) = Inr (take n as, s') \<and> pool_inv s' ns (drop n as)
    \<and> free_size s' = free_size (popped a s) - of_nat n \<and> total_size s' = total_size (popped a s)"
    using Suc.prems(2) xs by (intro Suc.IH pop_chunk_Cons(2)[OF inv]) auto
  with xs show ?case
    by (auto simp: pop_chunk_Cons(1)[OF inv]) (simp_all add: popped_def)
qed

lemma pool_inv_chain_head:
  "pool_inv s ns xs \<Longrightarrow> free_list s = head_of xs"
  by (rule chain_head[OF pool_invD(4)])

text \<open>
  \<open>get_rdma_chunk_list_from_pool\<close> agrees with taking the chunks one at a time: the same chunks
  in the same order, the same free list and the same counters. Only the \<open>next\<close> fields of the
  chunks handed out differ, which stay linked in the list.
\<close>

lemma get_list_equals_pops:
  assumes inv: "pool_inv s ns xs" and "count \<noteq> 0" and le: "unat count \<le> length xs"
  shows "\<exists>p s1 s2 cs. get_rdma_chunk_list_from_pool os count s = Inr (Some p, s1) \<and>
    pop_many (unat count) s = Inr (cs, s2) \<and> chain (next_of s1) (Some p) cs \<and>
    free_list s1 = free_list s2 \<and> free_size s1 = free_size s2 \<and> total_size s1 = total_size s2 \<and>
    pool_inv s1 ns (drop (unat count) xs) \<and> pool_inv s2 ns (drop (unat count) xs)"
proof -
  let ?s1 = "taken count (xs ! (unat count - 1)) s"
  obtain s2 where s2: "pop_many (unat count) s = Inr (take (unat count) xs, s2)"
      "pool_inv s2 ns (drop (unat count) xs)" "free_size s2 = free_size s - count"
      "total_size s2 = total_size s"
    using pop_many_inv[OF inv le] by auto
  have "xs \<noteq> []" using le assms(2) by (auto simp: unat_0_iff)
  then obtain p where p: "head_of xs = Some p" by (cases xs) auto
  have "\<not> free_size s < count"
    using le pool_invD(6)[OF inv] by (simp add: word_less_nat_alt)
  then have "get_rdma_chunk_list_from_pool os count s = Inr (Some p, ?s1)"
    using assms(2) le p by (simp add: get_rdma_chunk_list_from_pool_def take_chunks_eq[OF inv])
  moreover have "pool_inv ?s1 ns (drop (unat count) xs)"
      and "chain (next_of ?s1) (Some p) (take (unat count) xs)"
    using pool_inv_taken[OF inv assms(2) le] p by simp_all
  moreover have "free_list ?s1 = free_list s2"
    using pool_inv_chain_head[OF s2(2)] pool_inv_chain_head[OF calculation(2)] by simp
  moreover have "free_size ?s1 = free_size s2" "total_size ?s1 = total_size s2"
    using s2 by (simp_all add: taken_def)
  ultimately show ?thesis
    using s2(1,2) by blast
qed

text \<open>
  The locked section that cuts a list off the free list, on every branch and whatever the size
  read before the lock was: with enough chunks it returns the prefix; with exactly one chunk too
  few it dereferences NULL, because the loop does not test \<open>now\<close> after its last step; with fewer
  it returns NULL and changes nothing.
\<close>

lemma take_chunks_branches:
  assumes "pool_inv s ns xs" and "count \<noteq> 0"
  shows "case take_chunks count s of
      Inl e \<Rightarrow> e = NullDeref \<and> unat count = Suc (length xs)
    | Inr (None, s') \<Rightarrow> s' = s \<and> Suc (length xs) < unat count
    | Inr (Some p, s') \<Rightarrow> unat count \<le> length xs \<and> pool_inv s' ns (drop (unat count) xs) \<and>
        chain (next_of s') (Some p) (take (unat count) xs)"
proof (cases "unat count \<le> length xs")
  case True
  with assms(2) have "xs \<noteq> []" by (auto simp: unat_0_iff)
  then obtain p where "head_of xs = Some p" by (cases xs) auto
  with True pool_inv_taken[OF assms True] show ?thesis
    by (simp add: take_chunks_eq[OF assms])
next
  case False
  then show ?thesis
    by (auto simp: take_chunks_eq[OF assms])
qed


text \<open>Destroying the pool walks the list of nodes.\<close>

lemma destroy_links_frees:
  assumes "node_chain s p ns" "distinct (map fst ns)" "distinct (map (fst \<circ> snd) ns)" "length ns \<le> fuel"
  shows "destroy_links fuel p s = Some (Inr (s
    \<lparr>registered := fold (\<lambda>(n, b, k). remove1 (mr_of s (b, 0))) ns (registered s),
     buffers := \<lambda>b. if b \<in> (fst \<circ> snd) ` set ns then None else buffers s b,
     links := \<lambda>n. if n \<in> fst ` set ns then None else links s n\<rparr>))"
  using assms
proof (induction ns arbitrary: fuel p s)
  case Nil
  then show ?case by (simp add: o_def)
next
  case (Cons x ns)
  obtain n b k where x: "x = (n, b, k)" by (cases x)
  from Cons.prems(1) x obtain nd where p: "p = Some n" and nd: "links s n = Some nd"
      "buffer nd = Some b" "buffers s b = Some k" "0 < k" "node_chain s (node_next nd) ns"
    by (auto split: option.splits)
  from Cons.prems(4) obtain f where f: "fuel = Suc f" "length ns \<le> f"
    by (cases fuel) auto
  let ?s = "s\<lparr>registered := remove1 (mr_of s (b, 0)) (registered s),
              buffers := (buffers s)(b := None), links := (links s)(n := None)\<rparr>"
  have "node_chain ?s (node_next nd) ns"
    using nd(5) Cons.prems(2,3) x
    by (subst node_chain_cong[where s = s]) (auto simp: image_iff)
  then have "destroy_links f (node_next nd) ?s = Some (Inr (?s
    \<lparr>registered := fold (\<lambda>(n, b, k). remove1 (mr_of ?s (b, 0))) ns (registered ?s),
     buffers := \<lambda>b. if b \<in> (fst \<circ> snd) ` set ns then None else buffers ?s b,
     links := \<lambda>n. if n \<in> fst ` set ns then None else links ?s n\<rparr>))"
    using Cons.prems(2,3) x f(2) by (intro Cons.IH) auto
  moreover have "chunk_at s (map_option (\<lambda>b. (b, 0)) (buffer nd)) = Inr (b, 0)"
    using nd by (simp add: chunk_at_def chunk_live_def)
  ultimately show ?case
    using x p nd(1) f(1) by (auto simp: fun_eq_iff intro!: mem.equality)
qed


lemma node_chain_nodes:
  "node_chain s p ns \<Longrightarrow> chain (\<lambda>n. Option.bind (links s n) node_next) p (map fst ns)"
  by (induction s p ns rule: node_chain.induct) (auto split: option.splits)

lemma destroy_pool_frees:
  assumes "pool_inv s ns xs" and "length ns \<le> fuel"
  shows "\<exists>s'. destroy_rdma_buffer_pool fuel s = Some (Inr s') \<and>
    (\<forall>b. buffers s' b = (if b \<in> (fst \<circ> snd) ` set ns then None else buffers s b)) \<and>
    (\<forall>n. links s' n = (if n \<in> fst ` set ns then None else links s n)) \<and>
    free_list s' = None \<and> free_size s' = 0 \<and> total_size s' = 0 \<and> link_head s' = link_head s"
  using destroy_links_frees[of s "link_head s" ns fuel] pool_invD(1,2)[OF assms(1)] assms(2)
    chain_distinct[OF node_chain_nodes[OF pool_invD(1)[OF assms(1)]]]
  by (simp add: destroy_rdma_buffer_pool_def)

text \<open>
  Destroying a well-formed pool terminates after one turn per node, without a fault: every block
  and every node of the pool is freed and no other, and the free list and both counters are reset.
  The list head is not reset: it still points to a freed node.
\<close>

lemma destroy_frees_pool:
  assumes "pool_inv s ns xs" and "length ns \<le> fuel"
  shows "\<exists>s'. destroy_rdma_buffer_pool fuel s = Some (Inr s') \<and>
    (\<forall>b. buffers s' b = (if b \<in> (fst \<circ> snd) ` set ns then None else buffers s b)) \<and>
    (\<forall>n. links s' n = (if n \<in> fst ` set ns then None else links s n)) \<and>
    free_list s' = None \<and> free_size s' = 0 \<and> total_size s' = 0 \<and> link_head s' = link_head s"
  using assms by (rule destroy_pool_frees)

text \<open>
  Destroying a pool twice reads the freed node that the list head still points to.
\<close>

lemma destroy_twice_faults:
  assumes "pool_inv s ns xs" and "length ns \<le> fuel" and "ns \<noteq> []" and "0 < fuel'"
  shows "\<exists>s'. destroy_rdma_buffer_pool fuel s = Some (Inr s') \<and>
    destroy_rdma_buffer_pool fuel' s' = Some (Inl BadAddress)"
proof -
  obtain s' where s': "destroy_rdma_buffer_pool fuel s = Some (Inr s')"
      "\<forall>n. links s' n = (if n \<in> fst ` set ns then None else links s n)" "link_head s' = link_head s"
    using destroy_pool_frees[OF assms(1,2)] by blast
  obtain n b k ms where ns: "ns = (n, b, k) # ms"
    using assms(3) by (cases ns) auto
  with pool_invD(1)[OF assms(1)] have "link_head s = Some n" by simp
  moreover obtain f where "fuel' = Suc f" using assms(4) by (cases fuel') auto
  ultimately have "destroy_rdma_buffer_pool fuel' s' = Some (Inl BadAddress)"
    using s' ns by (simp add: destroy_rdma_buffer_pool_def)
  with s'(1) show ?thesis by blast
qed

section \<open>A pool to evaluate on\<close>

text \<open>
  An operating system where every call succeeds, an empty memory, and the pool that
  \<open>init_rdma_buffer_pool\<close> builds in it.
\<close>

definition demo_os :: os where
  "demo_os = \<lparr>malloc_ok = \<lambda>_ _. True, ibv_reg_mr = \<lambda>_ b _ _. Some \<lparr>mr_id = b, lkey = 7\<rparr>\<rparr>"

definition demo_header :: rdma_chunk_header where
  "demo_header = \<lparr>flags = 0, chunk_id = 0, chunk_len = 0, chunk_num = 0, data_id = 0, data_len = 0\<rparr>"

definition demo_mem :: mem where
  "demo_mem = \<lparr>link_head = None, free_list = None, total_size = 0, free_size = 0, pool_pd = 0,
     next_of = \<lambda>_. None, mr_of = \<lambda>_. \<lparr>mr_id = 0, lkey = 0\<rparr>, header_of = \<lambda>_. demo_header,
     body_of = \<lambda>_ _. 0, buffers = Map.empty, links = Map.empty, fresh = 0, registered = []\<rparr>"

definition demo_pool :: mem where
  "demo_pool = grown \<lparr>mr_id = 1, lkey = 7\<rparr> 4096 demo_mem"

lemma demo_mem_inv: "pool_inv demo_mem [] []"
  by (simp add: demo_mem_def pool_inv_empty)

lemma append_size_4096 [simp]: "append_size 4096 = 4096"
  by (simp add: append_size_def sizes)

lemma init_demo_mem:
  "init_rdma_buffer_pool demo_os 0 demo_mem = Inr (0, demo_pool)"
proof -
  have "demo_mem\<lparr>link_head := None, free_list := None, total_size := 0, free_size := 0, pool_pd := 0\<rparr>
      = demo_mem"
    by (simp add: demo_mem_def)
  then show ?thesis
    by (simp add: init_rdma_buffer_pool_def append_rdma_buffer_pool_eq sizes demo_os_def
        demo_pool_def) (simp add: demo_mem_def)
qed

lemma demo_pool_inv: "pool_inv demo_pool [(0, 1, 4096)] (block_addrs 1 4096)"
  using pool_inv_grown[OF demo_mem_inv, of 4096 "\<lparr>mr_id = 1, lkey = 7\<rparr>"]
  by (simp add: demo_pool_def demo_mem_def)


lemma demo_pool_fields [simp]:
  "total_size demo_pool = 4096" "free_size demo_pool = 4096" "fresh demo_pool = 2"
  "link_head demo_pool = Some 0" "free_list demo_pool = Some (1, 0)"
  "next_of demo_pool (1, 0) = Some (1, 1)"
  by (simp_all add: demo_pool_def grown_def demo_mem_def Let_def)

lemma demo_mem_fields [simp]: "fresh demo_mem = 0" "total_size demo_mem = 0"
  by (simp_all add: demo_mem_def)

lemma head_of_block_addrs [simp]: "0 < k \<Longrightarrow> head_of (block_addrs b k) = Some (b, 0)"
  by (simp add: block_addrs_Cons)

lemma demo_pool_Cons: "pool_inv demo_pool [(0, 1, 4096)] ((1, 0) # block_tail 1 4096)"
  using demo_pool_inv by (simp add: block_addrs_Cons)

lemma init_rdma_buffer_pool_spec_example:
  "init_rdma_buffer_pool demo_os 0 demo_mem = Inr (0, demo_pool) \<and>
   pool_inv demo_pool [(0, 1, 4096)] (block_addrs 1 4096)"
  using init_rdma_buffer_pool_spec[OF init_demo_mem] by (simp add: init_demo_mem)

theorem get_rdma_chunk_spec_witness:
  "get_rdma_chunk_from_pool demo_os demo_pool = Inr (Some (1, 0), popped (1, 0) demo_pool) \<and>
   next_of (popped (1, 0) demo_pool) (1, 0) = None"
  using get_rdma_chunk_spec[OF demo_pool_inv, of demo_os]
  by (simp add: get_chunk_Cons[OF demo_pool_Cons])

theorem get_rdma_chunk_list_spec_witness:
  "\<exists>p s' cs. get_rdma_chunk_list_from_pool demo_os 3 demo_pool = Inr (Some p, s') \<and>
     chain (next_of s') (Some p) cs \<and> length cs = 3"
proof -
  have "get_rdma_chunk_list_from_pool demo_os 3 demo_pool
      = Inr (Some (1, 0), taken 3 (block_addrs 1 4096 ! 2) demo_pool)"
    by (simp add: get_rdma_chunk_list_from_pool_def take_chunks_eq[OF demo_pool_inv])
  moreover have "unat (total_size demo_pool) + round_up (unat (3 :: u32) - length (block_addrs 1 4096)) < 2 ^ 32"
    by (simp add: round_up_def)
  note get_rdma_chunk_list_spec[OF demo_pool_inv this, of demo_os]
  ultimately show ?thesis by auto
qed

lemma release_rdma_chunk_spec_example:
  "\<exists>s'. release_rdma_chunk_to_pool (Some (1, 0)) (popped (1, 0) demo_pool) = Inr s' \<and>
     pool_inv s' [(0, 1, 4096)] ((1, 0) # block_tail 1 4096)"
  using release_rdma_chunk_spec[OF pop_chunk_Cons(2)[OF demo_pool_Cons], of "(1, 0)"]
    pool_invD(8)[OF demo_pool_Cons] by auto

lemma get_release_roundtrip_example:
  "bind_res (get_rdma_chunk_from_pool demo_os demo_pool)
     (\<lambda>(c, s1). release_rdma_chunk_to_pool c s1) = Inr demo_pool"
  by (rule get_release_roundtrip[OF demo_pool_Cons]) simp

lemma get_list_equals_pops_example:
  "\<exists>p s1 s2 cs. get_rdma_chunk_list_from_pool demo_os 2 demo_pool = Inr (Some p, s1) \<and>
     pop_many 2 demo_pool = Inr (cs, s2) \<and> free_list s1 = free_list s2"
  using get_list_equals_pops[OF demo_pool_inv, of 2 demo_os] by auto

lemma take_chunks_branches_example:
  "take_chunks 4097 demo_pool = Inl NullDeref \<and> take_chunks 4098 demo_pool = Inr (None, demo_pool)"
  using take_chunks_branches[OF demo_pool_inv, of 4097] take_chunks_branches[OF demo_pool_inv, of 4098]
  by (simp add: take_chunks_eq[OF demo_pool_inv])


lemma destroy_frees_pool_example:
  "\<exists>s'. destroy_rdma_buffer_pool 1 demo_pool = Some (Inr s') \<and> buffers s' 1 = None \<and>
     free_list s' = None \<and> link_head s' = Some 0"
  using destroy_frees_pool[OF demo_pool_inv, of 1] by auto

lemma destroy_twice_faults_example:
  "\<exists>s'. destroy_rdma_buffer_pool 1 demo_pool = Some (Inr s') \<and>
     destroy_rdma_buffer_pool 1 s' = Some (Inl BadAddress)"
  using destroy_twice_faults[OF demo_pool_inv, of 1 1] by simp

end
