(* ===== verification/Pool_Interface.thy ===== *)
theory Pool_Interface
  imports Buffer_Pool
begin

text \<open>
  What the other components rely on when they call the pool: a contract over an abstract state
  with the list of all chunks and the list of the free ones, and what follows from it for the loops
  of the callers. \<open>Buffer_Pool\<close> fulfils the contract.
\<close>

section \<open>The contract\<close>

text \<open>
  \<open>room n s\<close>: the pool may grow by \<open>n\<close> chunks and stay below the width of its counters.
\<close>

locale chunk_pool =
  fixes get_list :: "u32 \<Rightarrow> 's \<Rightarrow> (caddr option \<times> 's) res"
    and release :: "caddr option \<Rightarrow> 's \<Rightarrow> 's res"
    and nx :: "'s \<Rightarrow> caddr \<Rightarrow> caddr option"
    and wf :: "caddr list \<Rightarrow> caddr list \<Rightarrow> 's \<Rightarrow> bool"
    and room :: "u32 \<Rightarrow> 's \<Rightarrow> bool"
  assumes get_list_some: "wf all free s \<Longrightarrow> room count s \<Longrightarrow> get_list count s = Inr (Some p, s') \<Longrightarrow>
      \<exists>all' free' cs. wf all' free' s' \<and> chain (nx s') (Some p) cs \<and> length cs = unat count \<and>
        set cs \<subseteq> set all' - set free' \<and> set all \<subseteq> set all' \<and> set all - set free = set all' - set free' - set cs"
    and get_list_none: "wf all free s \<Longrightarrow> room count s \<Longrightarrow> get_list count s = Inr (None, s') \<Longrightarrow>
      wf all free s'"
    and release_out: "wf all free s \<Longrightarrow> a \<in> set all \<Longrightarrow> a \<notin> set free \<Longrightarrow>
      \<exists>s'. release (Some a) s = Inr s' \<and> wf all (a # free) s'"
begin

text \<open>A loop that gives back chunks that are out, one after the other, never faults.\<close>

lemma release_loop:
  assumes "wf all free s" and "distinct cs" and "set cs \<subseteq> set all - set free"
  shows "\<exists>s'. for_loop 0 (length cs) (\<lambda>i. release (Some (cs ! i))) s = Inr s' \<and> wf all (rev cs @ free) s'"
proof -
  have "\<exists>s'. for_loop 0 (length cs) (\<lambda>i. release (Some (cs ! i))) s = Inr s'
      \<and> wf all (rev (take (0 + length cs) cs) @ free) s'"
  proof (rule for_loop_rule)
    show "wf all (rev (take 0 cs) @ free) s" using assms(1) by simp
  next
    fix k s assume k: "k < 0 + length cs" and w: "wf all (rev (take k cs) @ free) s"
    have "cs ! k \<notin> set (take k cs)"
      using assms(2) k by (auto simp: in_set_conv_nth nth_eq_iff_index_eq)
    moreover have "cs ! k \<in> set all" "cs ! k \<notin> set free"
      using assms(3) k by (auto dest: nth_mem)
    ultimately have "\<exists>s'. release (Some (cs ! k)) s = Inr s' \<and> wf all (cs ! k # rev (take k cs) @ free) s'"
      using w by (intro release_out) auto
    then show "\<exists>s'. release (Some (cs ! k)) s = Inr s' \<and> wf all (rev (take (Suc k) cs) @ free) s'"
      using k by (simp add: take_Suc_conv_app_nth)
  qed
  then show ?thesis by simp
qed

text \<open>Chunks out before a call are still out after it, and are not handed out again.\<close>

lemma get_list_keeps_out:
  assumes "wf all free s" "room count s" "get_list count s = Inr (p, s')" "a \<in> set all - set free"
  shows "\<exists>all' free'. wf all' free' s' \<and> a \<in> set all' - set free'"
proof (cases p)
  case None
  with get_list_none[OF assms(1,2)] assms(3,4) show ?thesis by blast
next
  case (Some q)
  with get_list_some[OF assms(1,2), of q s'] assms(3,4) show ?thesis by blast
qed

text \<open>A list that was taken can be given back chunk by chunk.\<close>

lemma get_list_then_release:
  assumes "wf all free s" "room count s" "get_list count s = Inr (Some p, s1)"
  shows "\<exists>cs s2 all' free'. chain (nx s1) (Some p) cs \<and> length cs = unat count \<and>
    for_loop 0 (unat count) (\<lambda>i. release (Some (cs ! i))) s1 = Inr s2 \<and> wf all' (rev cs @ free') s2"
proof -
  obtain all' free' cs where c: "wf all' free' s1" "chain (nx s1) (Some p) cs" "length cs = unat count"
      "set cs \<subseteq> set all' - set free'"
    using get_list_some[OF assms] by blast
  from release_loop[OF c(1) chain_distinct[OF c(2)] c(4)] c show ?thesis by auto
qed

end

section \<open>The pool of the program fulfils it\<close>

definition pool_wf :: "caddr list \<Rightarrow> caddr list \<Rightarrow> 'z mem_scheme \<Rightarrow> bool" where
  "pool_wf all free s \<longleftrightarrow> (\<exists>ns. pool_inv s ns free \<and> all = chunk_addrs ns)"

definition pool_room :: "u32 \<Rightarrow> 'z mem_scheme \<Rightarrow> bool" where
  "pool_room count s \<longleftrightarrow> unat (total_size s) + round_up (unat count - unat (free_size s)) < 2 ^ 32"

lemma pool_get_list_some:
  assumes "pool_wf all free s" "pool_room count s"
    and get: "get_rdma_chunk_list_from_pool os count s = Inr (Some p, s')"
  shows "\<exists>all' free' cs. pool_wf all' free' s' \<and> chain (next_of s') (Some p) cs \<and>
    length cs = unat count \<and> set cs \<subseteq> set all' - set free' \<and>
    set all \<subseteq> set all' \<and> set all - set free = set all' - set free' - set cs"
proof -
  obtain ns where inv: "pool_inv s ns free" and a: "all = chunk_addrs ns"
    using assms(1) by (auto simp: pool_wf_def)
  have "unat (total_size s) + round_up (unat count - length free) < 2 ^ 32"
    using assms(2) pool_invD(6)[OF inv] by (simp add: pool_room_def)
  note spec = get_list_outcomes[OF inv this, of os]
  define k where "k = round_up (unat count - length free)"
  obtain ns' cs xs' where c: "pool_inv s' ns' xs'" "chain (next_of s') (Some p) cs"
      "length cs = unat count" "set cs \<subseteq> set (chunk_addrs ns') - set xs'"
      "if unat count \<le> length free then ns' = ns \<and> cs @ xs' = free
       else ns' = (fresh s, Suc (fresh s), k) # ns \<and> cs @ xs' = block_addrs (Suc (fresh s)) k @ free"
    using spec unfolding get k_def Let_def by auto
  have new: "(Suc (fresh s), i) \<notin> set (chunk_addrs ns)" for i
    using pool_invD(3)[OF inv] by (fastforce simp: in_chunk_addrs)
  have "set (chunk_addrs ns') = set (chunk_addrs ns) \<union> (if unat count \<le> length free then {} else
      set (block_addrs (Suc (fresh s)) k))"
    using c(5) by (auto split: if_splits)
  moreover have "set cs \<union> set xs' = set free \<union> (if unat count \<le> length free then {} else
      set (block_addrs (Suc (fresh s)) k))"
  proof -
    have "set cs \<union> set xs' = set (cs @ xs')" by simp
    also have "\<dots> = set free \<union> (if unat count \<le> length free then {} else
        set (block_addrs (Suc (fresh s)) k))"
      using c(5) by (simp only: split: if_splits) auto
    finally show ?thesis .
  qed
  moreover have "a \<in> set (block_addrs (Suc (fresh s)) k) \<Longrightarrow> a \<notin> set (chunk_addrs ns)" for a
    using new[of "snd a"] by (cases a) auto
  ultimately have "set all \<subseteq> set (chunk_addrs ns')" "set all - set free = set (chunk_addrs ns') - set xs' - set cs"
    unfolding a by (auto split: if_splits)
  with c(1-4) show ?thesis
    unfolding pool_wf_def by blast
qed

lemma pool_get_list_none:
  assumes "pool_wf all free s" "pool_room count s"
    and get: "get_rdma_chunk_list_from_pool os count s = Inr (None, s')"
  shows "pool_wf all free s'"
proof -
  obtain ns where inv: "pool_inv s ns free" and a: "all = chunk_addrs ns"
    using assms(1) by (auto simp: pool_wf_def)
  have "unat (total_size s) + round_up (unat count - length free) < 2 ^ 32"
    using assms(2) pool_invD(6)[OF inv] by (simp add: pool_room_def)
  from get_list_outcomes[OF inv this, of os] get a show ?thesis
    by (auto simp: pool_wf_def)
qed

lemma pool_release_out:
  assumes "pool_wf all free s" "a \<in> set all" "a \<notin> set free"
  shows "\<exists>s'. release_rdma_chunk_to_pool (Some a) s = Inr s' \<and> pool_wf all (a # free) s'"
proof -
  obtain ns where inv: "pool_inv s ns free" and al: "all = chunk_addrs ns"
    using assms(1) by (auto simp: pool_wf_def)
  from pool_inv_released[OF inv assms(2)[unfolded al] assms(3)] pool_invD(9)[OF inv] assms(2) al
  show ?thesis
    by (auto simp: pool_wf_def release_eq)
qed

interpretation rbp: chunk_pool "get_rdma_chunk_list_from_pool os" release_rdma_chunk_to_pool
  next_of pool_wf pool_room for os
  by unfold_locales (blast intro: pool_get_list_some pool_get_list_none pool_release_out)+

lemma taken_from_pool:
  assumes inv: "pool_inv s ns xs"
    and bound: "unat (total_size s) + round_up (unat count - length xs) < 2 ^ 32"
    and get: "get_rdma_chunk_list_from_pool os count s = Inr (Some p, s1)"
  shows "\<exists>ns' xs' cs. pool_inv s1 ns' xs' \<and> chain (next_of s1) (Some p) cs \<and>
    length cs = unat count \<and> set cs \<subseteq> set (chunk_addrs ns') - set xs' \<and>
    set (chunk_addrs ns) \<subseteq> set (chunk_addrs ns') \<and> set (chunk_addrs ns) - set xs = set (chunk_addrs ns') - set xs' - set cs"
proof -
  have "pool_wf (chunk_addrs ns) xs s" using inv by (auto simp: pool_wf_def)
  moreover have "pool_room count s" using bound pool_invD(6)[OF inv] by (simp add: pool_room_def)
  ultimately have "\<exists>all' free' cs. pool_wf all' free' s1 \<and> chain (next_of s1) (Some p) cs \<and>
      length cs = unat count \<and> set cs \<subseteq> set all' - set free' \<and>
      set (chunk_addrs ns) \<subseteq> set all' \<and>
      set (chunk_addrs ns) - set xs = set all' - set free' - set cs"
    by (rule rbp.get_list_some[OF _ _ get])
  then show ?thesis
    unfolding pool_wf_def by blast
qed

end
