(* ===== verification/Transport.thy ===== *)
theory Transport
  imports Pool_Interface
begin

text \<open>
  \<open>src/rdma_transport.h\<close> and the posting functions of \<open>src/rdma_transport.c\<close>: the structures of a
  connection, and how receive and send work requests are built from pool chunks and handed to the
  verbs library. GLib's \<open>GQueue\<close> and the verbs calls are code outside the repository: records of
  functions that the definitions take as arguments. What the verbs return is an argument too, so
  the model says what this code does with any answer.
\<close>

section \<open>Data\<close>

record qp_attr =
  lid :: u16
  qpn :: u32
  psn :: u32

text \<open>
  The operations of \<open>GQueue\<close> that the code calls, on queues of pointers. The comparison function
  of \<open>g_queue_find_custom\<close> returns 0 for a match.
\<close>

record 'q gqueue_ops =
  g_queue_new :: 'q
  g_queue_push_tail :: "'q \<Rightarrow> nat \<Rightarrow> 'q"
  g_queue_peek_head :: "'q \<Rightarrow> nat option"
  g_queue_pop_head :: "'q \<Rightarrow> 'q"
  g_queue_find_custom :: "'q \<Rightarrow> (nat \<Rightarrow> int) \<Rightarrow> nat option"

text \<open>
  \<open>struct rdma_transport\<close>. The queues hold the addresses of \<open>dynarray_t\<close> and \<open>varray_t\<close> objects;
  \<open>tr_data_id\<close> and \<open>tr_cq\<close> are the fields \<open>data_id\<close> and \<open>cq\<close>; the objects of the verbs library are
  numbers, \<open>None\<close> is NULL. Locks and \<open>now_recv\<close>, which nothing reads, are left out.
\<close>

record 'q rdma_transport =
  is_ready :: u8
  local_qp_attr :: qp_attr
  remote_qp_attr :: qp_attr
  comp_channel :: "nat option"
  tr_cq :: "nat option"
  rc_qp :: "nat option"
  local_ip :: string
  remote_ip :: string
  tr_data_id :: u32
  poll_pid :: nat
  handle_pid :: nat
  handle_queue :: 'q
  is_handle_running :: int
  work_queue :: 'q
  is_work_running :: int

record rdma_work_chunk =
  wc_transport :: nat
  wc_chunk :: "caddr option"
  wc_len :: u32

text \<open>
  \<open>varray_t\<close>: \<open>va_data\<close> is the array of chunk pointers behind the struct, as long as it was
  allocated and NULL where it was not written.
\<close>

record varray_t =
  va_transport :: "nat option"
  va_data_id :: u32
  va_len :: u32
  va_size :: u32
  va_data :: "caddr option list"

definition sizeof_varray_t :: nat where
  "sizeof_varray_t = 8 + 4 + 4 + 4 + 4"

definition sizeof_rdma_work_chunk :: nat where
  "sizeof_rdma_work_chunk = 8 + 8 + 4 + 4"

text \<open>Work requests with one scatter/gather entry: \<open>wr_id\<close> is the address of a work chunk.\<close>

record recv_wr =
  wr_id :: nat
  sg_addr :: caddr
  sg_length :: u32
  sg_lkey :: u32
  num_sge :: nat

datatype ibv_wr_opcode = IBV_WR_SEND

datatype ibv_send_flag = IBV_SEND_SIGNALED

record send_wr = recv_wr +
  wr_opcode :: ibv_wr_opcode
  send_flags :: "ibv_send_flag list"

text \<open>
  One message handed to Java: the remote address, the length of the byte array allocated for it,
  the regions copied into the array (position, length, bytes) and the length passed on.
\<close>

record delivery =
  dv_remote :: string
  dv_alloc :: int
  dv_regions :: "(int \<times> int \<times> u8 list) list"
  dv_len :: int

text \<open>
  The state of the process beyond the pool: the live work chunks, arrays and transports by
  address; then, as the record of what the process did, the calls of \<open>ibv_post_recv\<close> and
  \<open>ibv_post_send\<close> with their results, the transports pushed to the worker thread pool, and the
  messages handed to Java.
\<close>

record 'q rt = mem +
  work_chunks :: "nat \<rightharpoonup> rdma_work_chunk"
  varrays :: "nat \<rightharpoonup> varray_t"
  transports :: "nat \<rightharpoonup> 'q rdma_transport"
  recv_calls :: "(nat \<times> recv_wr \<times> int) list"
  send_calls :: "(nat \<times> send_wr \<times> int) list"
  pool_pushes :: "nat list"
  deliveries :: "delivery list"

text \<open>The outside world: the allocator, and the verbs by the number of the call.\<close>

record env =
  env_os :: os
  ibv_post_recv :: "nat \<Rightarrow> nat \<Rightarrow> recv_wr \<Rightarrow> int"
  ibv_post_send :: "nat \<Rightarrow> nat \<Rightarrow> send_wr \<Rightarrow> int"

definition transport_at :: "('q, 'z) rt_scheme \<Rightarrow> nat \<Rightarrow> 'q rdma_transport res" where
  "transport_at s t = (case transports s t of None \<Rightarrow> Inl BadAddress | Some tr \<Rightarrow> Inr tr)"

definition work_chunk_at :: "('q, 'z) rt_scheme \<Rightarrow> nat \<Rightarrow> rdma_work_chunk res" where
  "work_chunk_at s w = (case work_chunks s w of None \<Rightarrow> Inl BadAddress | Some wc \<Rightarrow> Inr wc)"

definition varray_at :: "('q, 'z) rt_scheme \<Rightarrow> nat \<Rightarrow> varray_t res" where
  "varray_at s v = (case varrays s v of None \<Rightarrow> Inl BadAddress | Some va \<Rightarrow> Inr va)"

section \<open>Posting receives\<close>

text \<open>\<open>malloc (sizeof (struct rdma_work_chunk))\<close>, assertion, and the three assignments.\<close>

definition new_work_chunk ::
  "env \<Rightarrow> nat \<Rightarrow> caddr option \<Rightarrow> u32 \<Rightarrow> ('q, 'z) rt_scheme \<Rightarrow> (nat \<times> ('q, 'z) rt_scheme) res" where
  "new_work_chunk E t chunk len s =
     (let (w, s1) = malloc (env_os E) sizeof_rdma_work_chunk s in
      bind_res (GPR_ASSERT (w \<noteq> None)) (\<lambda>_. bind_res (deref w) (\<lambda>w.
        Inr (w, s1\<lparr>work_chunks := (work_chunks s1)(w \<mapsto>
          \<lparr>wc_transport = t, wc_chunk = chunk, wc_len = len\<rparr>)\<rparr>))))"

definition post_recv ::
  "env \<Rightarrow> nat \<Rightarrow> recv_wr \<Rightarrow> ('q, 'z) rt_scheme \<Rightarrow> int \<times> ('q, 'z) rt_scheme" where
  "post_recv E qp wr s =
     (let rc = ibv_post_recv E (length (recv_calls s)) qp wr
      in (rc, s\<lparr>recv_calls := recv_calls s @ [(qp, wr, rc)]\<rparr>))"

text \<open>One turn of the first loop: build the work request for the next chunk of the list.\<close>

definition build_recv ::
  "env \<Rightarrow> nat \<Rightarrow> nat \<Rightarrow> ('q, 'z) rt_scheme \<times> caddr option \<times> recv_wr list
     \<Rightarrow> (('q, 'z) rt_scheme \<times> caddr option \<times> recv_wr list) res" where
  "build_recv E t i st =
     (let (s, chunk_list, wrs) = st in
      bind_res (new_work_chunk E t chunk_list RDMA_CHUNK_SIZE s) (\<lambda>(w, s1).
      bind_res (chunk_at s1 chunk_list) (\<lambda>chunk.
        Inr (s1, next_of s1 chunk,
          wrs @ [\<lparr>wr_id = w, sg_addr = chunk, sg_length = RDMA_CHUNK_SIZE,
                  sg_lkey = lkey (mr_of s1 chunk), num_sge = 1\<rparr>]))))"

text \<open>One turn of the second loop.\<close>

definition post_built ::
  "env \<Rightarrow> nat \<Rightarrow> recv_wr list \<Rightarrow> nat \<Rightarrow> ('q, 'z) rt_scheme \<Rightarrow> ('q, 'z) rt_scheme res" where
  "post_built E t wrs i s =
     bind_res (transport_at s t) (\<lambda>tr. bind_res (deref (rc_qp tr)) (\<lambda>qp.
       let (rc, s1) = post_recv E qp (wrs ! i) s in
       if rc < 0 then Inl Aborted else Inr s1))"

text \<open>
  \<open>sge\<close> and \<open>recv_wr\<close> are \<open>calloc\<close>ed without a check and freed at the end; the model keeps their
  entries in a list and tests the two allocations.
\<close>

definition rdma_transport_recv_with_num ::
  "env \<Rightarrow> nat \<Rightarrow> u32 \<Rightarrow> ('q, 'z) rt_scheme \<Rightarrow> ('q, 'z) rt_scheme res" where
  "rdma_transport_recv_with_num E t num s =
     bind_res (get_rdma_chunk_list_from_pool (env_os E) num s) (\<lambda>(chunk_list, s1).
     bind_res (GPR_ASSERT (chunk_list \<noteq> None)) (\<lambda>_.
     let (sge, s2) = malloc (env_os E) (16 * unat num) s1;
         (wr, s3) = malloc (env_os E) (32 * unat num) s2 in
     bind_res (deref sge) (\<lambda>_. bind_res (deref wr) (\<lambda>_.
     bind_res (for_loop 0 (unat num) (build_recv E t) (s3, chunk_list, [])) (\<lambda>(s4, rest, wrs).
     bind_res (GPR_ASSERT (rest = None)) (\<lambda>_.
       for_loop 0 (unat num) (post_built E t wrs) s4))))))"

definition rdma_transport_recv ::
  "env \<Rightarrow> nat \<Rightarrow> ('q, 'z) rt_scheme \<Rightarrow> (int \<times> ('q, 'z) rt_scheme) res" where
  "rdma_transport_recv E t s =
     bind_res (new_work_chunk E t None RDMA_CHUNK_SIZE s) (\<lambda>(w, s1).
     bind_res (get_rdma_chunk_from_pool (env_os E) s1) (\<lambda>(chunk, s2).
     if chunk = None then Inr (- 1, s2)
     else let s3 = s2\<lparr>work_chunks := (work_chunks s2)(w \<mapsto>
            \<lparr>wc_transport = t, wc_chunk = chunk, wc_len = RDMA_CHUNK_SIZE\<rparr>)\<rparr> in
     bind_res (chunk_at s3 chunk) (\<lambda>a.
     bind_res (transport_at s3 t) (\<lambda>tr. bind_res (deref (rc_qp tr)) (\<lambda>qp.
       let (rc, s4) = post_recv E qp
             \<lparr>wr_id = w, sg_addr = a, sg_length = RDMA_CHUNK_SIZE,
              sg_lkey = lkey (mr_of s3 a), num_sge = 1\<rparr> s3 in
       if rc < 0 then Inr (- 1, s4) else Inr (0, s4))))))"

section \<open>Posting sends\<close>

definition rdma_transport_send ::
  "env \<Rightarrow> nat \<Rightarrow> nat \<Rightarrow> ('q, 'z) rt_scheme \<Rightarrow> (int \<times> ('q, 'z) rt_scheme) res" where
  "rdma_transport_send E t w s =
     bind_res (work_chunk_at s w) (\<lambda>send_wc.
     bind_res (chunk_at s (wc_chunk send_wc)) (\<lambda>a.
     bind_res (transport_at s t) (\<lambda>tr. bind_res (deref (rc_qp tr)) (\<lambda>qp.
       let wr = \<lparr>wr_id = w, sg_addr = a, sg_length = wc_len send_wc + RDMA_HEADER_SIZE,
                 sg_lkey = lkey (mr_of s a), num_sge = 1,
                 wr_opcode = IBV_WR_SEND, send_flags = [IBV_SEND_SIGNALED]\<rparr>;
           rc = ibv_post_send E (length (send_calls s)) qp wr;
           s1 = s\<lparr>send_calls := send_calls s @ [(qp, wr, rc)]\<rparr> in
       if rc < 0 then Inl Aborted else Inr (0, s1)))))"

section \<open>Lemmas on the state\<close>

lemma mem_fields_more [simp]:
  "pool_inv (s\<lparr>work_chunks := w\<rparr>) ns xs = pool_inv s ns xs"
  "pool_inv (s\<lparr>varrays := va\<rparr>) ns xs = pool_inv s ns xs"
  "pool_inv (s\<lparr>transports := ts\<rparr>) ns xs = pool_inv s ns xs"
  "pool_inv (s\<lparr>recv_calls := rs\<rparr>) ns xs = pool_inv s ns xs"
  "pool_inv (s\<lparr>send_calls := ss\<rparr>) ns xs = pool_inv s ns xs"
  "pool_inv (s\<lparr>pool_pushes := ps\<rparr>) ns xs = pool_inv s ns xs"
  "pool_inv (s\<lparr>deliveries := ds\<rparr>) ns xs = pool_inv s ns xs"
  by (auto elim!: pool_inv_cong)

lemma chunk_live_more [simp]:
  "chunk_live (s\<lparr>work_chunks := w\<rparr>) a = chunk_live s a"
  "chunk_live (s\<lparr>varrays := va\<rparr>) a = chunk_live s a"
  "chunk_live (s\<lparr>transports := ts\<rparr>) a = chunk_live s a"
  "chunk_live (s\<lparr>recv_calls := rs\<rparr>) a = chunk_live s a"
  "chunk_live (s\<lparr>send_calls := ss\<rparr>) a = chunk_live s a"
  "chunk_live (s\<lparr>pool_pushes := ps\<rparr>) a = chunk_live s a"
  "chunk_live (s\<lparr>deliveries := ds\<rparr>) a = chunk_live s a"
  "chunk_live (s\<lparr>fresh := n\<rparr>) a = chunk_live s a"
  by (simp_all add: chunk_live_def)

section \<open>The calls outside the program\<close>

text \<open>
  The environment in which a send goes through: every allocation and registration succeeds, and
  the verbs return no negative value. (They report errors as positive \<open>errno\<close> values, which the
  code takes for success.)
\<close>

definition calls_succeed :: "env \<Rightarrow> bool" where
  "calls_succeed E \<longleftrightarrow>
     (\<forall>n k. malloc_ok (env_os E) n k) \<and>
     (\<forall>pd b n f. ibv_reg_mr (env_os E) pd b n f \<noteq> None) \<and>
     (\<forall>k qp wr. 0 \<le> ibv_post_recv E k qp wr) \<and> (\<forall>k qp wr. 0 \<le> ibv_post_send E k qp wr)"

lemma calls_succeedD [simp]:
  assumes "calls_succeed E"
  shows "malloc_ok (env_os E) n k" "\<not> ibv_post_send E k qp sw < 0" "\<not> ibv_post_recv E k qp rw < 0"
    "ibv_reg_mr (env_os E) pd b n f \<noteq> None"
  using assms by (auto simp: calls_succeed_def not_less)

lemma malloc_succeeds [simp]:
  "calls_succeed E \<Longrightarrow> malloc (env_os E) n s = (Some (fresh s), s\<lparr>fresh := Suc (fresh s)\<rparr>)"
  by (simp add: malloc_def)


lemma append_succeeds:
  assumes E: "calls_succeed E" and sz: "0 < unat sz" "unat sz \<le> 2 ^ 30"
  shows "\<exists>s1. append_rdma_buffer_pool (env_os E) sz s = Inr (0, s1)"
proof -
  have "unat (append_size sz) = round_up (unat sz)"
    using sz by (simp add: append_size_eq)
  moreover have "round_up (unat sz) < 2 ^ 31" "0 < round_up (unat sz)"
    using round_up_bounds[of "unat sz"] sz by simp_all
  ultimately have "append_size sz \<noteq> 0" "\<not> 2 ^ 31 < unat (append_size sz)"
    by (auto simp: unat_gt_0)
  then show ?thesis
    using E calls_succeedD(4)[OF E] by (auto simp: append_rdma_buffer_pool_eq Let_def split: option.split)
qed

lemma get_list_succeeds:
  assumes inv: "pool_inv s ns xs" and E: "calls_succeed E" and "count \<noteq> 0"
    and bound: "unat (total_size s) + round_up (unat count - length xs) < 2 ^ 32"
    and small: "unat count \<le> 2 ^ 30"
  shows "\<exists>p s'. get_rdma_chunk_list_from_pool (env_os E) count s = Inr (Some p, s')"
proof (cases "unat count \<le> length xs")
  case True
  then have "\<not> free_size s < count" using pool_invD(6)[OF inv] by (simp add: word_less_nat_alt)
  moreover have "xs \<noteq> []" using True assms(3) by (auto simp: unat_0_iff)
  ultimately show ?thesis
    using True assms(3)
    by (cases xs) (simp_all add: get_rdma_chunk_list_from_pool_def take_chunks_eq[OF inv])
next
  case False
  then have lt: "free_size s < count" using pool_invD(6)[OF inv] by (simp add: word_less_nat_alt)
  then have sub: "unat (count - free_size s) = unat count - length xs"
    using pool_invD(6)[OF inv] by (simp add: unat_sub word_le_nat_alt word_less_nat_alt)
  obtain s1 where s1: "append_rdma_buffer_pool (env_os E) (count - free_size s) s = Inr (0, s1)"
  proof -
    have "unat count - length xs \<le> 2 ^ 30" using small by linarith
    then show thesis
      using append_succeeds[OF E, of "count - free_size s" s] False sub that by auto
  qed
  have "unat (total_size s) + round_up (unat (count - free_size s)) < 2 ^ 32"
    using bound sub by simp
  with s1 inv show ?thesis
  proof (cases rule: append_cases)
    case failed
    then show ?thesis by simp
  next
    case (ok mr)
    let ?k = "round_up (unat count - length xs)"
    have "0 < ?k" using round_up_bounds(1)[of "unat count - length xs"] False by simp
    moreover have "unat count \<le> ?k + length xs"
      using round_up_bounds(1)[of "unat count - length xs"] by simp
    moreover have "head_of (block_addrs (Suc (fresh s)) ?k @ xs) = Some (Suc (fresh s), 0)"
      using calculation(1) by (simp add: block_addrs_Cons)
    ultimately show ?thesis
      using lt assms(3)
      by (simp add: get_rdma_chunk_list_from_pool_def Let_def s1 take_chunks_eq[OF ok(4)] sub)
  qed
qed

lemma take_chunks_frame:
  "take_chunks count s = Inr (p, s') \<Longrightarrow> header_of s' = header_of s \<and> body_of s' = body_of s
    \<and> mr_of s' = mr_of s \<and> mem.more s' = mem.more s \<and> fresh s' = fresh s \<and> buffers s' = buffers s"
  by (auto simp: take_chunks_def Let_def bind_res_def split: sum.splits option.splits)

lemma append_frame:
  "append_rdma_buffer_pool os sz s = Inr (rc, s') \<Longrightarrow> header_of s' = header_of s
    \<and> body_of s' = body_of s \<and> mem.more s' = mem.more s \<and> fresh s \<le> fresh s'"
  by (drule append_outcomes) (auto simp: grown_def leaked_def Let_def)

lemma get_list_frame:
  assumes "get_rdma_chunk_list_from_pool os count s = Inr (p, s')"
  shows "header_of s' = header_of s" "body_of s' = body_of s" "mem.more s' = mem.more s"
    "fresh s \<le> fresh s'"
proof -
  have "header_of s' = header_of s \<and> body_of s' = body_of s \<and> mem.more s' = mem.more s \<and> fresh s \<le> fresh s'"
  proof (cases "count = 0")
    case True
    with assms show ?thesis by (simp add: get_rdma_chunk_list_from_pool_def)
  next
    case False
    then obtain rc s1 where s1: "(if free_size s < count then append_rdma_buffer_pool os (count - free_size s) s
          else Inr (0, s)) = Inr (rc, s1)"
        and r: "if rc < 0 then Inr (None, s1) = Inr (p, s') else take_chunks count s1 = Inr (p, s')"
      using assms by (auto simp: get_rdma_chunk_list_from_pool_def Let_def bind_res_Inr_iff split: if_splits)
    from s1 have "header_of s1 = header_of s \<and> body_of s1 = body_of s \<and> mem.more s1 = mem.more s
        \<and> fresh s \<le> fresh s1"
      by (auto split: if_splits dest: append_frame)
    with r show ?thesis by (auto split: if_splits dest: take_chunks_frame)
  qed
  then show "header_of s' = header_of s" "body_of s' = body_of s" "mem.more s' = mem.more s"
    "fresh s \<le> fresh s'" by simp_all
qed

lemma get_chunk_frame:
  assumes "get_rdma_chunk_from_pool os s = Inr (p, s')"
  shows "mem.more s' = mem.more s" "fresh s \<le> fresh s'" "header_of s' = header_of s" "body_of s' = body_of s"
proof -
  have "mem.more s' = mem.more s \<and> fresh s \<le> fresh s' \<and> header_of s' = header_of s \<and> body_of s' = body_of s"
    using assms
    by (auto simp: get_rdma_chunk_from_pool_def pop_chunk_def bind_res_Inr_iff Let_def
        split: if_splits prod.splits dest: append_frame)
  then show "mem.more s' = mem.more s" "fresh s \<le> fresh s'" "header_of s' = header_of s" "body_of s' = body_of s"
    by auto
qed

lemma rt_fields_cong:
  fixes s :: "('q, 'z) rt_scheme"
  assumes "mem.more s' = mem.more s"
  shows "work_chunks s' = work_chunks s" "varrays s' = varrays s" "transports s' = transports s"
    "recv_calls s' = recv_calls s" "send_calls s' = send_calls s" "pool_pushes s' = pool_pushes s"
    "deliveries s' = deliveries s" "rt.more s' = rt.more s"
  using assms by (cases s; cases s'; simp)+

section \<open>A process to evaluate on\<close>

text \<open>
  One transport at address 0 with an empty list for a queue, and the pool that
  \<open>init_rdma_buffer_pool\<close> builds; an environment where every call succeeds.
\<close>

definition demo_transport :: "nat list rdma_transport" where
  "demo_transport = \<lparr>is_ready = 1, local_qp_attr = \<lparr>lid = 1, qpn = 2, psn = 3\<rparr>,
     remote_qp_attr = \<lparr>lid = 4, qpn = 5, psn = 6\<rparr>, comp_channel = Some 3, tr_cq = Some 4,
     rc_qp = Some 5, local_ip = ''10.0.0.1'',
     remote_ip = ''10.0.0.2'', tr_data_id = 0, poll_pid = 1, handle_pid = 2,
     handle_queue = [], is_handle_running = 0,
     work_queue = [], is_work_running = 0\<rparr>"

definition demo_rt0 :: "nat list rt" where
  "demo_rt0 = \<lparr>link_head = None, free_list = None, total_size = 0, free_size = 0, pool_pd = 0,
     next_of = \<lambda>_. None, mr_of = \<lambda>_. \<lparr>mr_id = 0, lkey = 0\<rparr>, header_of = \<lambda>_. demo_header,
     body_of = \<lambda>_ _. 0, buffers = Map.empty, links = Map.empty, fresh = 0, registered = [],
     work_chunks = Map.empty, varrays = Map.empty, transports = [0 \<mapsto> demo_transport],
     recv_calls = [], send_calls = [], pool_pushes = [], deliveries = []\<rparr>"

definition demo_rt :: "nat list rt" where
  "demo_rt = grown \<lparr>mr_id = 1, lkey = 7\<rparr> 4096 demo_rt0"

definition demo_env :: env where
  "demo_env = \<lparr>env_os = demo_os, ibv_post_recv = \<lambda>_ _ _. 0, ibv_post_send = \<lambda>_ _ _. 0\<rparr>"

lemma demo_rt_inv: "pool_inv demo_rt [(0, 1, 4096)] (block_addrs 1 4096)"
  using pool_inv_grown[OF pool_inv_empty[of demo_rt0], of 4096 "\<lparr>mr_id = 1, lkey = 7\<rparr>"]
  by (simp add: demo_rt_def demo_rt0_def)

lemma demo_rt_fields [simp]:
  "total_size demo_rt = 4096" "free_size demo_rt = 4096" "fresh demo_rt = 2"
  "transports demo_rt 0 = Some demo_transport" "work_chunks demo_rt = Map.empty"
  "varrays demo_rt = Map.empty" "recv_calls demo_rt = []" "send_calls demo_rt = []"
  "pool_pushes demo_rt = []" "deliveries demo_rt = []" "buffers demo_rt = [1 \<mapsto> 4096]"
  "lkey (mr_of demo_rt (1, 0)) = 7" "lkey (mr_of demo_rt (1, 1)) = 7"
  by (simp_all add: demo_rt_def grown_def demo_rt0_def Let_def)

lemma demo_transport_fields [simp]:
  "rc_qp demo_transport = Some 5" "tr_data_id demo_transport = 0" "work_queue demo_transport = []"
  "is_work_running demo_transport = 0" "remote_ip demo_transport = ''10.0.0.2''"
  by (simp_all add: demo_transport_def)

lemma demo_env_fields [simp]:
  "env_os demo_env = demo_os" "ibv_post_recv demo_env k qp rw = 0" "ibv_post_send demo_env k qp sw = 0"
  "malloc_ok demo_os n k"
  by (simp_all add: demo_env_def demo_os_def)

lemma demo_rt_live: "k < 4096 \<Longrightarrow> chunk_live demo_rt (1, k)"
  by (simp add: chunk_live_def)

lemma demo_calls: "calls_succeed demo_env"
  by (simp add: calls_succeed_def) (simp add: demo_os_def)

lemma demo_room: "num \<le> 4096 \<Longrightarrow>
    unat (total_size demo_rt) + round_up (num - length (block_addrs 1 4096)) < 2 ^ 32"
  by (simp add: round_up_def)

end
