(* ===== verification/Rdma_Utils.thy ===== *)
theory Rdma_Utils
  imports Transport
begin

text \<open>
  The parts of \<open>src/rdma_utils.c\<close> that set up one connection: the exchange of the attributes of the
  two queue pairs over a TCP socket, the changes of state of a queue pair, and the lookup of the
  local address. Sockets, the verbs library and the resolver are code outside the repository: what
  their calls return is an argument.
\<close>

section \<open>Constants\<close>

definition IB_PORT_NUM :: u8 where "IB_PORT_NUM = 1"
definition MAX_CQE :: nat where "MAX_CQE = 2048"
definition MAX_PRE_RECV_QP :: u32 where "MAX_PRE_RECV_QP = 1024"
definition IB_SERVER_PORT :: u16 where "IB_SERVER_PORT = 6789"
definition IP_CHAR_SIZE :: nat where "IP_CHAR_SIZE = 20"

section \<open>The attributes on the wire\<close>

text \<open>
  \<open>struct qp_attr\<close> is sent as it lies in memory: \<open>lid\<close> at offset 0, two bytes of padding, \<open>qpn\<close> at
  4, \<open>psn\<close> at 8, on a little-endian host. A byte that was never written is \<open>None\<close>. \<open>htons\<close> and
  \<open>htonl\<close> reverse the bytes of a number there, and so do \<open>ntohs\<close> and \<open>ntohl\<close>.
\<close>

type_synonym raw_attr = "u8 option list"

definition sizeof_qp_attr :: nat where
  "sizeof_qp_attr = 12"

definition le16 :: "u16 \<Rightarrow> u8 list" where
  "le16 w = [ucast w, ucast (drop_bit 8 w)]"

fun of_le16 :: "u8 list \<Rightarrow> u16" where
  "of_le16 [b0, b1] = of_nat (unat b0 + 256 * unat b1)"
| "of_le16 _ = 0"

definition htons :: "u16 \<Rightarrow> u16" where
  "htons w = of_le16 (rev (le16 w))"

definition htonl :: "u32 \<Rightarrow> u32" where
  "htonl w = of_le32 (rev (le32 w))"

definition put_bytes :: "nat \<Rightarrow> u8 list \<Rightarrow> raw_attr \<Rightarrow> raw_attr" where
  "put_bytes at bs raw = take at raw @ map Some bs @ drop (at + length bs) raw"

definition get_bytes :: "nat \<Rightarrow> nat \<Rightarrow> raw_attr \<Rightarrow> u8 list res" where
  "get_bytes at n raw =
     (if None \<in> set (take n (drop at raw)) then Inl UninitRead
      else Inr (map the (take n (drop at raw))))"

text \<open>A local \<open>struct qp_attr tmp\<close>, not initialised; filling it; reading it back.\<close>

definition raw_uninit :: raw_attr where
  "raw_uninit = replicate sizeof_qp_attr None"

definition fill_tmp :: "qp_attr \<Rightarrow> raw_attr \<Rightarrow> raw_attr" where
  "fill_tmp a tmp =
     put_bytes 8 (le32 (htonl (psn a)))
       (put_bytes 4 (le32 (htonl (qpn a)))
         (put_bytes 0 (le16 (htons (lid a))) tmp))"

definition read_tmp :: "raw_attr \<Rightarrow> qp_attr res" where
  "read_tmp tmp =
     bind_res (get_bytes 0 2 tmp) (\<lambda>l. bind_res (get_bytes 4 4 tmp) (\<lambda>q. bind_res (get_bytes 8 4 tmp) (\<lambda>p.
       Inr \<lparr>lid = htons (of_le16 l), qpn = htonl (of_le32 q),
            psn = htonl (of_le32 p)\<rparr>)))"

text \<open>\<open>read\<close> stores what it got over the front of the buffer.\<close>

definition store_read :: "raw_attr \<Rightarrow> raw_attr \<Rightarrow> raw_attr" where
  "store_read got tmp = got @ drop (length got) tmp"

section \<open>Exchanging the attributes\<close>

text \<open>
  What the calls of one exchange return: \<open>ibv_query_port\<close> with the \<open>lid\<close> that it stored (\<open>None\<close>: it
  stored nothing), \<open>write\<close>, and \<open>read\<close> with the bytes it stored, at most as many as were asked for.
\<close>

record exchange_calls =
  query_rc :: int
  query_lid :: "u16 option"
  write_rc :: int
  read_rc :: int
  read_got :: raw_attr

definition get_local_lid :: "exchange_calls \<Rightarrow> u16 res" where
  "get_local_lid X =
     (if query_rc X < 0 then Inr 0
      else case query_lid X of None \<Rightarrow> Inl UninitRead | Some l \<Rightarrow> Inr l)"

text \<open>
  \<open>exchange_info\<close>: the result code, the local attributes, the remote attributes as they are
  afterwards, and what was written to the socket (\<open>None\<close>: nothing). \<open>qp_num\<close> is the number of the
  queue pair, \<open>remote\<close> what \<open>remote_qp_attr\<close> held before.
\<close>

definition exchange_info ::
  "exchange_calls \<Rightarrow> u32 \<Rightarrow> bool \<Rightarrow> qp_attr \<Rightarrow> (int \<times> qp_attr \<times> qp_attr \<times> raw_attr option) res" where
  "exchange_info X qp_num is_client remote =
     bind_res (get_local_lid X) (\<lambda>l.
      let local = \<lparr>lid = l, qpn = qp_num, psn = 0\<rparr>; tmp = raw_uninit in
      if is_client then
        let tmp = fill_tmp local tmp in
        if write_rc X < 0 then Inr (- 1, local, remote, None)
        else if read_rc X < 0 then Inr (- 1, local, remote, Some tmp)
        else bind_res (read_tmp (store_read (read_got X) tmp)) (\<lambda>remote.
          Inr (0, local, remote, Some tmp))
      else if read_rc X < 0 then Inr (- 1, local, remote, None)
      else
        let tmp = store_read (read_got X) tmp in
        bind_res (read_tmp tmp) (\<lambda>remote.
        let tmp = fill_tmp local tmp in
        if write_rc X < 0 then Inr (- 1, local, remote, None)
        else Inr (0, local, remote, Some tmp)))"

section \<open>The states of a queue pair\<close>

datatype ibv_qp_state = IBV_QPS_RESET | IBV_QPS_INIT | IBV_QPS_RTR | IBV_QPS_RTS

datatype ibv_mtu = IBV_MTU_NONE | IBV_MTU_4096

datatype ibv_qp_attr_mask = IBV_QP_STATE | IBV_QP_PKEY_INDEX | IBV_QP_PORT | IBV_QP_ACCESS_FLAGS
  | IBV_QP_SQ_PSN | IBV_QP_TIMEOUT | IBV_QP_RETRY_CNT | IBV_QP_RNR_RETRY | IBV_QP_MAX_QP_RD_ATOMIC
  | IBV_QP_AV | IBV_QP_PATH_MTU | IBV_QP_DEST_QPN | IBV_QP_RQ_PSN | IBV_QP_MIN_RNR_TIMER
  | IBV_QP_MAX_DEST_RD_ATOMIC

text \<open>The fields of \<open>struct ibv_qp_attr\<close> that the code sets; \<open>ah_\<close> are those of \<open>ah_attr\<close>.\<close>

record ibv_qp_attr =
  qp_state :: ibv_qp_state
  pkey_index :: u16
  qp_port_num :: u8
  qp_access_flags :: "ibv_access list"
  timeout :: u8
  retry_cnt :: u8
  rnr_retry :: u8
  max_rd_atomic :: u8
  sq_psn :: u32
  path_mtu :: ibv_mtu
  min_rnr_timer :: u8
  max_dest_rd_atomic :: u8
  dest_qp_num :: u32
  rq_psn :: u32
  ah_is_global :: u8
  ah_dlid :: u16
  ah_sl :: u8
  ah_src_path_bits :: u8
  ah_port_num :: u8

definition zero_qp_attr :: ibv_qp_attr where
  "zero_qp_attr = \<lparr>qp_state = IBV_QPS_RESET, pkey_index = 0, qp_port_num = 0, qp_access_flags = [],
     timeout = 0, retry_cnt = 0, rnr_retry = 0, max_rd_atomic = 0, sq_psn = 0, path_mtu = IBV_MTU_NONE,
     min_rnr_timer = 0, max_dest_rd_atomic = 0, dest_qp_num = 0, rq_psn = 0, ah_is_global = 0,
     ah_dlid = 0, ah_sl = 0, ah_src_path_bits = 0, ah_port_num = 0\<rparr>"

text \<open>
  A call of \<open>ibv_modify_qp\<close>, and the three functions that make one: the arguments they build, and
  their result, which reports negative values only.
\<close>

type_synonym modify_call = "ibv_qp_attr \<times> ibv_qp_attr_mask list"

definition init_call :: modify_call where
  "init_call = (zero_qp_attr\<lparr>qp_state := IBV_QPS_INIT, pkey_index := 0, qp_port_num := IB_PORT_NUM,
       qp_access_flags := RDMA_BUF_FLAG\<rparr>,
     [IBV_QP_STATE, IBV_QP_PKEY_INDEX, IBV_QP_PORT, IBV_QP_ACCESS_FLAGS])"

definition rts_call :: "qp_attr \<Rightarrow> modify_call" where
  "rts_call a = (zero_qp_attr\<lparr>qp_state := IBV_QPS_RTS, timeout := 0x14, retry_cnt := 0x07,
       rnr_retry := 0x07, max_rd_atomic := 0, sq_psn := psn a\<rparr>,
     [IBV_QP_STATE, IBV_QP_SQ_PSN, IBV_QP_TIMEOUT, IBV_QP_RETRY_CNT, IBV_QP_RNR_RETRY,
      IBV_QP_MAX_QP_RD_ATOMIC])"

definition rtr_call :: "qp_attr \<Rightarrow> modify_call" where
  "rtr_call a = (zero_qp_attr\<lparr>qp_state := IBV_QPS_RTR, path_mtu := IBV_MTU_4096,
       min_rnr_timer := 0x14, max_dest_rd_atomic := 0, dest_qp_num := qpn a,
       rq_psn := psn a, ah_is_global := 0, ah_dlid := lid a, ah_sl := 0,
       ah_src_path_bits := 0, ah_port_num := IB_PORT_NUM\<rparr>,
     [IBV_QP_STATE, IBV_QP_AV, IBV_QP_PATH_MTU, IBV_QP_DEST_QPN, IBV_QP_RQ_PSN, IBV_QP_MIN_RNR_TIMER,
      IBV_QP_MAX_DEST_RD_ATOMIC])"

definition modify_result :: "int \<Rightarrow> int" where
  "modify_result rc = (if rc < 0 then - 1 else 0)"

section \<open>Byte orders\<close>

lemma unat_u8_less: "unat (b :: u8) < 256"
  using unsigned_less[of b] by simp

lemma unat_byte_of_16: "unat (ucast (w :: u16) :: u8) = unat w mod 256"
  by (simp add: unsigned_ucast_eq take_bit_eq_mod)

lemma unat_shift_byte_16: "unat (drop_bit k (w :: u16)) = unat w div 2 ^ k"
  by (simp add: unat_drop_bit_eq flip: drop_bit_eq_div)

lemma bytes_4: "length bs = 4 \<longleftrightarrow> (\<exists>a b c d. bs = [a, b, c, d])"
  by (auto simp: numeral_eq_Suc length_Suc_conv)

lemma bytes_2: "length bs = 2 \<longleftrightarrow> (\<exists>a b. bs = [a, b])"
  by (auto simp: numeral_eq_Suc length_Suc_conv)

lemma low_digit: "x < 256 \<Longrightarrow> (x + 256 * m) mod 256 = x" "x < 256 \<Longrightarrow> (x + 256 * m) div 256 = (m :: nat)"
  by simp_all

lemma le32_of_le32: "length bs = 4 \<Longrightarrow> le32 (of_le32 bs) = bs"
proof -
  assume "length bs = 4"
  then obtain a b c d where bs: "bs = [a, b, c, d]" by (auto simp: bytes_4)
  let ?n = "unat a + 256 * unat b + 65536 * unat c + 16777216 * unat d"
  note l = unat_u8_less[of a] unat_u8_less[of b] unat_u8_less[of c] unat_u8_less[of d]
  have n: "unat (of_nat ?n :: u32) = ?n" using l by (subst unat_of_nat) simp
  have p: "(2::nat) ^ 8 = 256" "(2::nat) ^ 16 = 65536" "(2::nat) ^ 24 = 16777216" by simp_all
  have e: "?n = unat a + 256 * (unat b + 256 * (unat c + 256 * unat d))" by simp
  have "x div 65536 = x div 256 div 256" "x div 16777216 = x div 256 div 256 div 256" for x :: nat
    by (simp_all flip: div_mult2_eq)
  then have "?n mod 256 = unat a" "?n div 256 mod 256 = unat b" "?n div 65536 mod 256 = unat c"
    "?n div 16777216 mod 256 = unat d"
    unfolding e using l by (simp_all only: low_digit) simp_all
  then show ?thesis
    by (simp only: bs le32_def of_le32.simps list.inject word_unat_eq_iff unat_byte_of unat_shift_byte n p simp_thms)
qed

lemma le16_of_le16: "length bs = 2 \<Longrightarrow> le16 (of_le16 bs) = bs"
proof -
  assume "length bs = 2"
  then obtain a b where bs: "bs = [a, b]" by (auto simp: bytes_2)
  let ?n = "unat a + 256 * unat b"
  note l = unat_u8_less[of a] unat_u8_less[of b]
  have n: "unat (of_nat ?n :: u16) = ?n" using l by (subst unat_of_nat) simp
  have "?n mod 256 = unat a" "?n div 2 ^ 8 mod 256 = unat b"
    using l low_digit[of "unat a" "unat b"] by simp_all
  then show ?thesis
    by (simp only: bs le16_def of_le16.simps list.inject word_unat_eq_iff unat_byte_of_16 unat_shift_byte_16 n simp_thms)
qed

lemma of_le16_le16 [simp]: "of_le16 (le16 w) = w"
proof -
  have "unat w < 65536" using unsigned_less[of w] by simp
  then have "unat w mod 256 + 256 * (unat w div 2 ^ 8 mod 256) = unat w" by simp
  then show ?thesis
    by (simp only: le16_def of_le16.simps unat_byte_of_16 unat_shift_byte_16) simp
qed

lemma length_le16 [simp]: "length (le16 w) = 2"
  by (simp add: le16_def)

lemma htonl_htonl [simp]: "htonl (htonl w) = w"
  by (simp add: htonl_def le32_of_le32)

lemma htons_htons [simp]: "htons (htons w) = w"
  by (simp add: htons_def le16_of_le16)

section \<open>The exchange\<close>

lemma length_fill_tmp: "length tmp = sizeof_qp_attr \<Longrightarrow> length (fill_tmp a tmp) = sizeof_qp_attr"
  by (simp add: fill_tmp_def put_bytes_def sizeof_qp_attr_def)

lemma fill_tmp_eq:
  assumes "length tmp = sizeof_qp_attr"
  shows "fill_tmp a tmp = map Some (le16 (htons (lid a))) @ take 2 (drop 2 tmp)
    @ map Some (le32 (htonl (qpn a))) @ map Some (le32 (htonl (psn a)))"
proof -
  from assms have "length tmp = 12" by (simp add: sizeof_qp_attr_def)
  then obtain b0 b1 b2 b3 b4 b5 b6 b7 b8 b9 b10 b11 where "tmp = [b0, b1, b2, b3, b4, b5, b6, b7, b8, b9, b10, b11]"
    by (auto simp: numeral_eq_Suc length_Suc_conv)
  then show ?thesis
    by (simp add: fill_tmp_def put_bytes_def le16_def le32_def)
qed

lemma read_fill_tmp:
  assumes "length tmp = sizeof_qp_attr"
  shows "read_tmp (fill_tmp a tmp) = Inr a"
proof -
  have "length (take 2 (drop 2 tmp)) = 2" using assms by (simp add: sizeof_qp_attr_def)
  then obtain u v where "take 2 (drop 2 tmp) = [u, v]"
    by (metis (no_types) One_nat_def Suc_1 length_0_conv length_Suc_conv)
  then have f: "fill_tmp a tmp = map Some (le16 (htons (lid a))) @ [u, v] @ map Some (le32 (htonl (qpn a)))
      @ map Some (le32 (htonl (psn a)))"
    using fill_tmp_eq[OF assms] by simp
  have "get_bytes 0 2 (fill_tmp a tmp) = Inr (le16 (htons (lid a)))"
    "get_bytes 4 4 (fill_tmp a tmp) = Inr (le32 (htonl (qpn a)))"
    "get_bytes 8 4 (fill_tmp a tmp) = Inr (le32 (htonl (psn a)))"
    unfolding f by (simp_all add: get_bytes_def le16_def le32_def)
  then show ?thesis by (simp add: read_tmp_def)
qed

definition local_attr :: "u16 \<Rightarrow> u32 \<Rightarrow> qp_attr" where
  "local_attr l q = \<lparr>lid = l, qpn = q, psn = 0\<rparr>"

lemma store_read_full: "length got = length tmp \<Longrightarrow> store_read got tmp = got"
  by (simp add: store_read_def)

text \<open>
  C28: When the two ends of a socket run \<open>exchange_info\<close>, one as the client and one as the server,
  and each reads in full what the other wrote, both return 0 and each holds the attributes of the
  other: the byte order conversions cancel out and the padding does no harm.
\<close>

theorem exchange_info_roundtrip:
  assumes "get_local_lid X = Inr lc" and "get_local_lid Y = Inr ls"
    and "0 \<le> write_rc X" "0 \<le> read_rc X" "0 \<le> write_rc Y" "0 \<le> read_rc Y"
    and Y: "read_got Y = fill_tmp (local_attr lc nc) raw_uninit"
    and X: "read_got X = fill_tmp (local_attr ls ns) (read_got Y)"
  shows "exchange_info X nc True r = Inr (0, local_attr lc nc, local_attr ls ns, Some (read_got Y)) \<and>
    exchange_info Y ns False r' = Inr (0, local_attr ls ns, local_attr lc nc, Some (read_got X))"
proof -
  have u: "length raw_uninit = sizeof_qp_attr" by (simp add: raw_uninit_def)
  have s: "length (read_got Y) = sizeof_qp_attr" by (simp add: Y length_fill_tmp u)
  have a: "length (read_got X) = sizeof_qp_attr" by (simp add: X length_fill_tmp s)
  have r: "read_tmp (read_got Y) = Inr (local_attr lc nc)" "read_tmp (read_got X) = Inr (local_attr ls ns)"
    by (simp_all add: Y read_fill_tmp u) (simp add: X read_fill_tmp s)
  have "exchange_info X nc True r = Inr (0, local_attr lc nc, local_attr ls ns, Some (read_got Y))"
    using assms(1,3,4) a s r(2)
    by (simp add: exchange_info_def Let_def store_read_full Y[symmetric] flip: local_attr_def)
  moreover have "exchange_info Y ns False r' = Inr (0, local_attr ls ns, local_attr lc nc, Some (read_got X))"
    using assms(2,5,6) s u r(1)
    by (simp add: exchange_info_def Let_def store_read_full X[symmetric] flip: local_attr_def)
  ultimately show ?thesis ..
qed

text \<open>
  The end of the stream passes for an answer: when the peer closes the socket without sending
  anything, \<open>read\<close> returns 0, and the client returns success with its own attributes as those of the
  peer, left in \<open>tmp\<close> by what it wrote; the server converts bytes that were never written.
\<close>

lemma exchange_info_takes_eof_for_answer:
  assumes "get_local_lid X = Inr l" and "0 \<le> write_rc X" and "read_rc X = 0" "read_got X = []"
  shows "(\<exists>sent. exchange_info X n True r = Inr (0, local_attr l n, local_attr l n, Some sent)) \<and>
    exchange_info X n False r = Inl UninitRead"
proof -
  have u: "length raw_uninit = sizeof_qp_attr" by (simp add: raw_uninit_def)
  have "read_tmp raw_uninit = Inl UninitRead"
    by (simp add: read_tmp_def get_bytes_def raw_uninit_def sizeof_qp_attr_def)
  with assms read_fill_tmp[OF u] show ?thesis
    by (simp add: exchange_info_def Let_def store_read_def flip: local_attr_def)
qed

section \<open>Exchanges to evaluate\<close>

definition demo_exchange :: "u16 \<Rightarrow> int \<Rightarrow> raw_attr \<Rightarrow> exchange_calls" where
  "demo_exchange l rc got =
     \<lparr>query_rc = 0, query_lid = Some l, write_rc = 12, read_rc = rc, read_got = got\<rparr>"

theorem exchange_info_roundtrip_witness:
  "\<exists>sent answered. exchange_info (demo_exchange 7 12 answered) 300 True \<lparr>lid = 0, qpn = 0, psn = 0\<rparr>
     = Inr (0, local_attr 7 300, local_attr 9 511, Some sent)"
proof -
  let ?Y = "demo_exchange 9 12 (fill_tmp (local_attr 7 300) raw_uninit)"
  let ?X = "demo_exchange 7 12 (fill_tmp (local_attr 9 511) (read_got ?Y))"
  have "get_local_lid ?X = Inr 7" "get_local_lid ?Y = Inr 9" "0 \<le> write_rc ?X" "0 \<le> read_rc ?X"
    "0 \<le> write_rc ?Y" "0 \<le> read_rc ?Y" "read_got ?Y = fill_tmp (local_attr 7 300) raw_uninit"
    "read_got ?X = fill_tmp (local_attr 9 511) (read_got ?Y)"
    by (simp_all add: demo_exchange_def get_local_lid_def)
  from exchange_info_roundtrip[OF this] show ?thesis by blast
qed

lemma exchange_info_takes_eof_for_answer_example:
  "exchange_info (demo_exchange 7 0 []) 300 False \<lparr>lid = 0, qpn = 0, psn = 0\<rparr> = Inl UninitRead"
  using exchange_info_takes_eof_for_answer[of "demo_exchange 7 0 []" 7]
  by (simp add: demo_exchange_def get_local_lid_def)

end
