(* ===== verification/Transport_Recv.thy ===== *)
theory Transport_Recv
  imports Transport
begin

text \<open>
  Correctness of the functions of \<open>src/rdma_transport.c\<close> that post receives.
\<close>

section \<open>What posting leaves alone\<close>

text \<open>
  Posting receives changes the pool, the work chunks and the record of the calls, nothing else,
  on every branch on which it returns.
\<close>

definition calm :: "('q, 'z) rt_scheme \<Rightarrow> ('q, 'z) rt_scheme \<Rightarrow> bool" where
  "calm s s' \<longleftrightarrow> rt.more s' = rt.more s \<and> fresh s \<le> fresh s' \<and> transports s' = transports s"

lemma calm_refl [simp]: "calm s s"
  by (simp add: calm_def)

lemma calm_trans: "calm s s' \<Longrightarrow> calm s' s'' \<Longrightarrow> calm s s''"
  by (simp add: calm_def)

lemma calm_more:
  fixes s s' :: "('q, 'z) rt_scheme"
  assumes "mem.more s' = mem.more s" and "fresh s \<le> fresh s'"
  shows "calm s s'"
  using rt_fields_cong(3)[OF assms(1)] assms by (cases s; cases s') (simp add: calm_def)

lemma get_chunk_calm: "get_rdma_chunk_from_pool os s = Inr (p, s') \<Longrightarrow> calm s s'"
  by (rule calm_more[OF get_chunk_frame(1,2)])

lemma get_list_calm: "get_rdma_chunk_list_from_pool os count s = Inr (p, s') \<Longrightarrow> calm s s'"
  by (rule calm_more[OF get_list_frame(3,4)])

lemma new_work_chunk_calm: "new_work_chunk E t c len s = Inr (w, s') \<Longrightarrow> calm s s'"
  by (auto simp: new_work_chunk_def malloc_def bind_res_Inr_iff Let_def calm_def)

lemma recv_with_num_calm:
  assumes "rdma_transport_recv_with_num E t num s = Inr s'"
  shows "calm s s'"
proof -
  obtain p s1 k s4 rest wrs where get: "get_rdma_chunk_list_from_pool (env_os E) num s = Inr (p, s1)"
    and loop1: "for_loop 0 (unat num) (build_recv E t) (s1\<lparr>fresh := k\<rparr>, p, []) = Inr (s4, rest, wrs)"
    and k: "fresh s1 \<le> k"
    and loop2: "for_loop 0 (unat num) (post_built E t wrs) s4 = Inr s'"
    using assms
    by (fastforce simp: rdma_transport_recv_with_num_def malloc_def bind_res_Inr_iff Let_def)
  have "calm (fst (s1\<lparr>fresh := k\<rparr>, p, [] :: recv_wr list)) (fst (s4, rest, wrs))"
    by (rule for_loop_relates[OF loop1, where R = "\<lambda>a b. calm (fst a) (fst b)"])
      (auto simp: build_recv_def bind_res_Inr_iff split: prod.splits dest: new_work_chunk_calm intro: calm_trans)
  then have "calm (s1\<lparr>fresh := k\<rparr>) s4" by simp
  moreover have "calm s1 (s1\<lparr>fresh := k\<rparr>)" using k by (simp add: calm_def)
  moreover have "calm s4 s'"
    by (rule for_loop_relates[OF loop2])
      (auto simp: post_built_def post_recv_def bind_res_Inr_iff Let_def calm_def split: if_splits)
  ultimately show ?thesis using get_list_calm[OF get] calm_trans by blast
qed

lemma recv_calm:
  assumes "rdma_transport_recv E t s = Inr (rc, s')"
  shows "calm s s'"
proof -
  obtain w s1 where n: "new_work_chunk E t None RDMA_CHUNK_SIZE s = Inr (w, s1)"
    using assms by (auto simp: rdma_transport_recv_def bind_res_Inr_iff)
  then obtain c s2 where g: "get_rdma_chunk_from_pool (env_os E) s1 = Inr (c, s2)" and r: "calm s2 s'"
    using assms
    by (auto simp: rdma_transport_recv_def bind_res_Inr_iff post_recv_def Let_def calm_def split: if_splits)
  show ?thesis using new_work_chunk_calm[OF n] get_chunk_calm[OF g] r calm_trans by blast
qed

section \<open>What a posted receive looks like\<close>

definition receive_wr :: "('q, 'z) rt_scheme \<Rightarrow> caddr list \<Rightarrow> nat \<Rightarrow> recv_wr" where
  "receive_wr s cs i =
     \<lparr>wr_id = fresh s + i, sg_addr = cs ! i, sg_length = RDMA_CHUNK_SIZE,
      sg_lkey = lkey (mr_of s (cs ! i)), num_sge = 1\<rparr>"

definition receive_wc :: "nat \<Rightarrow> caddr list \<Rightarrow> nat \<Rightarrow> rdma_work_chunk" where
  "receive_wc t cs i = \<lparr>wc_transport = t, wc_chunk = Some (cs ! i), wc_len = RDMA_CHUNK_SIZE\<rparr>"

text \<open>The state after \<open>k\<close> turns of the first loop, and after \<open>k\<close> turns of the second.\<close>

definition built :: "nat \<Rightarrow> caddr list \<Rightarrow> nat \<Rightarrow> ('q, 'z) rt_scheme \<Rightarrow> ('q, 'z) rt_scheme" where
  "built t cs k s =
     s\<lparr>fresh := fresh s + k,
       work_chunks := (\<lambda>w. if fresh s \<le> w \<and> w < fresh s + k then Some (receive_wc t cs (w - fresh s))
                           else work_chunks s w)\<rparr>"

definition posted :: "env \<Rightarrow> nat \<Rightarrow> recv_wr list \<Rightarrow> nat \<Rightarrow> ('q, 'z) rt_scheme \<Rightarrow> ('q, 'z) rt_scheme" where
  "posted E qp wrs k s =
     s\<lparr>recv_calls := recv_calls s @ map (\<lambda>i. (qp, wrs ! i,
         ibv_post_recv E (length (recv_calls s) + i) qp (wrs ! i))) [0..<k]\<rparr>"

lemma built_0: "built t cs 0 s = s"
proof -
  have "(\<lambda>w. if fresh s \<le> w \<and> w < fresh s + 0 then Some (receive_wc t cs (w - fresh s))
      else work_chunks s w) = work_chunks s" by (auto simp: fun_eq_iff)
  then show ?thesis unfolding built_def by simp
qed

lemma build_loop:
  fixes s :: "('q, 'z) rt_scheme"
  assumes E: "calls_succeed E" and c: "chain (next_of s) p cs" "list_all (chunk_live s) cs"
  shows "for_loop 0 (length cs) (build_recv E t) (s, p, [])
    = Inr (built t cs (length cs) s, None, map (receive_wr s cs) [0..<length cs])"
proof -
  let ?P = "\<lambda>i (s', p', wrs). s' = built t cs i s \<and> p' = head_of (drop i cs)
    \<and> chain (next_of s) p' (drop i cs) \<and> wrs = map (receive_wr s cs) [0..<i]"
  have "\<exists>s'. for_loop 0 (length cs) (build_recv E t) (s, p, []) = Inr s' \<and> ?P (0 + length cs) s'"
  proof (rule for_loop_rule)
    show "?P 0 (s, p, [])" using c(1) chain_head[OF c(1)] by (simp add: built_0)
  next
    fix i st assume i: "i < 0 + length cs" and P: "?P i st"
    obtain s1 p1 wrs where st: "st = (s1, p1, wrs)" by (cases st)
    have d: "drop i cs = cs ! i # drop (Suc i) cs" using i by (simp add: Cons_nth_drop_Suc)
    from P st d have p1: "p1 = Some (cs ! i)" "s1 = built t cs i s" "wrs = map (receive_wr s cs) [0..<i]"
      and n: "chain (next_of s) (next_of s (cs ! i)) (drop (Suc i) cs)" by auto
    have live: "chunk_live s (cs ! i)" using c(2) i by (simp add: list_all_length)
    show "\<exists>st'. build_recv E t i st = Inr st' \<and> ?P (Suc i) st'"
      using i n live chain_head[OF n] E
      by (simp add: build_recv_def st p1 new_work_chunk_def chunk_at_def chunk_live_def built_def
          receive_wr_def receive_wc_def fun_eq_iff less_Suc_eq)
  qed
  then show ?thesis by auto
qed

lemma post_loop:
  fixes s :: "('q, 'z) rt_scheme"
  assumes E: "calls_succeed E" and tr: "transports s t = Some tr" "rc_qp tr = Some qp"
  shows "for_loop 0 n (post_built E t wrs) s = Inr (posted E qp wrs n s)"
proof -
  have "\<exists>s'. for_loop 0 n (post_built E t wrs) s = Inr s' \<and> s' = posted E qp wrs (0 + n) s"
    by (rule for_loop_rule)
      (simp_all add: posted_def post_built_def post_recv_def transport_at_def tr E Let_def)
  then show ?thesis by simp
qed

section \<open>The posting functions\<close>

text \<open>The run of \<open>rdma_transport_recv_with_num\<close> when the calls outside the program succeed.\<close>

lemma recv_with_num_run:
  assumes inv: "pool_inv s ns xs" and E: "calls_succeed E"
    and tr: "transports s t = Some tr" "rc_qp tr = Some qp"
    and num: "num \<noteq> 0" "unat num \<le> 2 ^ 30"
    and room: "unat (total_size s) + round_up (unat num - length xs) < 2 ^ 32"
  obtains p s1 ns' xs' cs s2 wrs where
    "get_rdma_chunk_list_from_pool (env_os E) num s = Inr (Some p, s1)"
    "pool_inv s1 ns' xs'" "chain (next_of s1) (Some p) cs" "length cs = unat num"
    "set cs \<subseteq> set (chunk_addrs ns') - set xs'"
    "set (chunk_addrs ns) \<subseteq> set (chunk_addrs ns')" "set (chunk_addrs ns) - set xs = set (chunk_addrs ns') - set xs' - set cs"
    "s2 = s1\<lparr>fresh := Suc (Suc (fresh s1))\<rparr>" "wrs = map (receive_wr s2 cs) [0..<length cs]"
    "rdma_transport_recv_with_num E t num s = Inr (posted E qp wrs (length cs) (built t cs (length cs) s2))"
proof -
  obtain p s1 where get: "get_rdma_chunk_list_from_pool (env_os E) num s = Inr (Some p, s1)"
    using get_list_succeeds[OF inv E num(1) room num(2)] by blast
  from taken_from_pool[OF inv room get] obtain ns' xs' cs where c: "pool_inv s1 ns' xs'" "chain (next_of s1) (Some p) cs"
      "length cs = unat num" "set cs \<subseteq> set (chunk_addrs ns') - set xs'"
      "set (chunk_addrs ns) \<subseteq> set (chunk_addrs ns')" "set (chunk_addrs ns) - set xs = set (chunk_addrs ns') - set xs' - set cs"
    by blast
  note frame = get_list_frame[OF get] rt_fields_cong[OF get_list_frame(3)[OF get]]
  let ?s2 = "s1\<lparr>fresh := Suc (Suc (fresh s1))\<rparr>"
  have live: "list_all (chunk_live ?s2) cs"
    using c(4) pool_invD(9)[OF c(1)] by (auto simp: list_all_iff)
  let ?wrs = "map (receive_wr ?s2 cs) [0..<length cs]"
  let ?s3 = "built t cs (length cs) ?s2"
  have b: "for_loop 0 (length cs) (build_recv E t) (?s2, Some p, []) = Inr (?s3, None, ?wrs)"
    using c(2) live E by (intro build_loop) simp_all
  have l: "for_loop 0 (length cs) (post_built E t ?wrs) ?s3 = Inr (posted E qp ?wrs (length cs) ?s3)"
    using E tr frame by (intro post_loop) (simp_all add: built_def)
  have "rdma_transport_recv_with_num E t num s = Inr (posted E qp ?wrs (length cs) ?s3)"
    using b l E by (simp add: rdma_transport_recv_with_num_def get c(3))
  with that get c show thesis by blast
qed

text \<open>
  Receives for a list of chunks: every chunk has one posted receive of the size of a chunk, on the
  queue pair of the transport, whose \<open>wr_id\<close> leads back to it; the pool grows by no more than is
  needed.
\<close>

definition receives_posted ::
  "nat \<Rightarrow> nat \<Rightarrow> nat \<Rightarrow> node list \<Rightarrow> caddr list \<Rightarrow> ('q, 'z) rt_scheme \<Rightarrow> ('q, 'z) rt_scheme \<Rightarrow> bool" where
  "receives_posted t qp n ns xs s s' \<longleftrightarrow>
     (\<exists>ns' xs' cs new.
        pool_inv s' ns' xs' \<and> length cs = n \<and> distinct cs \<and>
        set cs \<subseteq> set (chunk_addrs ns') - set xs' \<and>
        set (chunk_addrs ns) - set xs = set (chunk_addrs ns') - set xs' - set cs \<and>
        recv_calls s' = recv_calls s @ new \<and>
        map (\<lambda>(q, wr, rc). (q, sg_addr wr, sg_length wr, work_chunks s' (wr_id wr))) new
          = map (\<lambda>a. (qp, a, RDMA_CHUNK_SIZE,
              Some \<lparr>wc_transport = t, wc_chunk = Some a, wc_len = RDMA_CHUNK_SIZE\<rparr>)) cs \<and>
        transports s' = transports s \<and> varrays s' = varrays s \<and> send_calls s' = send_calls s \<and>
        unat (total_size s') \<le> unat (total_size s) + round_up (n - length xs))"

lemma recv_with_num_ok:
  assumes "pool_inv s ns xs" and "calls_succeed E"
    and "transports s t = Some tr" and "rc_qp tr = Some qp"
    and "num \<noteq> 0" and "unat num \<le> 2 ^ 30"
    and "unat (total_size s) + round_up (unat num - length xs) < 2 ^ 32"
  shows "\<exists>s'. rdma_transport_recv_with_num E t num s = Inr s' \<and> receives_posted t qp (unat num) ns xs s s'"
proof -
  obtain p s1 ns' xs' cs s2 wrs where get: "get_rdma_chunk_list_from_pool (env_os E) num s = Inr (Some p, s1)"
    and c: "pool_inv s1 ns' xs'" "chain (next_of s1) (Some p) cs" "length cs = unat num"
      "set cs \<subseteq> set (chunk_addrs ns') - set xs'"
      "set (chunk_addrs ns) \<subseteq> set (chunk_addrs ns')" "set (chunk_addrs ns) - set xs = set (chunk_addrs ns') - set xs' - set cs"
    and s2: "s2 = s1\<lparr>fresh := Suc (Suc (fresh s1))\<rparr>" and wrs: "wrs = map (receive_wr s2 cs) [0..<length cs]"
    and run: "rdma_transport_recv_with_num E t num s = Inr (posted E qp wrs (length cs) (built t cs (length cs) s2))"
    by (rule recv_with_num_run[OF assms, of thesis]) blast
  note frame = get_list_frame[OF get] rt_fields_cong[OF get_list_frame(3)[OF get]]
  let ?s3 = "built t cs (length cs) s2"
  let ?s4 = "posted E qp wrs (length cs) ?s3"
  let ?new = "map (\<lambda>i. (qp, wrs ! i,
    ibv_post_recv E (length (recv_calls ?s3) + i) qp (wrs ! i))) [0..<length cs]"
  have "pool_inv ?s4 ns' xs'"
    by (rule pool_inv_cong[OF c(1)]) (simp_all add: posted_def built_def s2)
  moreover have "map (\<lambda>(q, wr, rc). (q, sg_addr wr, sg_length wr, work_chunks ?s4 (wr_id wr))) ?new
        = map (\<lambda>a. (qp, a, RDMA_CHUNK_SIZE,
            Some \<lparr>wc_transport = t, wc_chunk = Some a, wc_len = RDMA_CHUNK_SIZE\<rparr>)) cs"
    by (rule nth_equalityI)
      (simp_all add: posted_def built_def receive_wr_def receive_wc_def wrs)
  moreover have "recv_calls ?s4 = recv_calls s @ ?new"
    using frame by (simp add: posted_def built_def s2)
  moreover have "unat (total_size ?s4) \<le> unat (total_size s) + round_up (unat num - length xs)"
    using get_list_total[OF assms(1,7) get] by (simp add: posted_def built_def s2)
  ultimately have "receives_posted t qp (unat num) ns xs s ?s4"
    using c frame chain_distinct[OF c(2)] unfolding receives_posted_def
    by (intro exI[of _ ns'] exI[of _ xs'] exI[of _ cs] exI[of _ ?new])
      (simp add: posted_def built_def s2)
  with run show ?thesis by blast
qed

text \<open>
  \<open>rdma_transport_recv_with_num\<close> posts exactly \<open>num\<close> receives, each with a chunk of its own
  that nobody else holds, and never faults, when the calls outside the program do not report a
  negative value.
\<close>

lemma recv_with_num_posts_receives:
  assumes "pool_inv s ns xs" and "calls_succeed E"
    and "transports s t = Some tr" and "rc_qp tr = Some qp"
    and "num \<noteq> 0" and "unat num \<le> 2 ^ 30"
    and "unat (total_size s) + round_up (unat num - length xs) < 2 ^ 32"
  shows "\<exists>s'. rdma_transport_recv_with_num E t num s = Inr s' \<and> receives_posted t qp (unat num) ns xs s s'"
  using assms by (rule recv_with_num_ok)

text \<open>
  \<open>rdma_transport_recv\<close> with a chunk in the pool: the head of the free list is posted, and the
  result is the sign of what the verbs return; a refusal with a negative value gives -1 and keeps
  neither the chunk nor the work chunk reachable, both are out for good.
\<close>

lemma recv_posts_one:
  assumes "pool_inv s ns (a # xs)" and "malloc_ok (env_os E) (fresh s) sizeof_rdma_work_chunk"
    and "transports s t = Some tr" and "rc_qp tr = Some qp"
  defines "wr \<equiv> \<lparr>wr_id = fresh s, sg_addr = a, sg_length = RDMA_CHUNK_SIZE,
                  sg_lkey = lkey (mr_of s a), num_sge = 1\<rparr>"
  shows "\<exists>s'. rdma_transport_recv E t s =
      Inr (if ibv_post_recv E (length (recv_calls s)) qp wr < 0 then - 1 else 0, s') \<and>
    pool_inv s' ns xs \<and> a \<notin> set xs \<and>
    recv_calls s' = recv_calls s @ [(qp, wr, ibv_post_recv E (length (recv_calls s)) qp wr)] \<and>
    work_chunks s' = (work_chunks s)(fresh s \<mapsto>
      \<lparr>wc_transport = t, wc_chunk = Some a, wc_len = RDMA_CHUNK_SIZE\<rparr>)"
  using assms(2-4)
proof -
  let ?wc = "\<lambda>c. (work_chunks s)(fresh s \<mapsto> \<lparr>wc_transport = t, wc_chunk = c, wc_len = RDMA_CHUNK_SIZE\<rparr>)"
  let ?s1 = "s\<lparr>fresh := Suc (fresh s), work_chunks := ?wc None\<rparr>"
  have inv1: "pool_inv ?s1 ns (a # xs)"
    by (rule pool_inv_cong[OF assms(1)]) simp_all
  let ?s2 = "popped a ?s1"
  have inv2: "pool_inv ?s2 ns xs" by (rule pop_chunk_Cons(2)[OF inv1])
  have live: "chunk_live ?s2 a"
    using pool_invD(10)[OF assms(1), of a] by (simp add: popped_def chunk_live_def)
  have f: "transports ?s2 = transports s" "recv_calls ?s2 = recv_calls s" "work_chunks ?s2 = ?wc None"
      "mr_of ?s2 = mr_of s"
    by (simp_all add: popped_def)
  let ?rc = "ibv_post_recv E (length (recv_calls s)) qp wr"
  let ?s4 = "?s2\<lparr>work_chunks := ?wc (Some a), recv_calls := recv_calls s @ [(qp, wr, ?rc)]\<rparr>"
  have "rdma_transport_recv E t s = Inr (if ?rc < 0 then - 1 else 0, ?s4)"
    using assms(2-4) live
    by (simp add: rdma_transport_recv_def new_work_chunk_def malloc_def get_chunk_Cons[OF inv1]
        chunk_at_def transport_at_def f post_recv_def Let_def wr_def)
  moreover have "pool_inv ?s4 ns xs" using inv2 by simp
  ultimately show ?thesis
    using pool_invD(8)[OF assms(1)] by simp
qed

text \<open>
  When the pool is empty and the block for more chunks cannot be allocated,
  \<open>rdma_transport_recv\<close> returns -1 and posts nothing, but leaves behind the work chunk it has
  allocated: no posted receive refers to it, and it is not freed.
\<close>

lemma recv_failure_leaks_work_chunk:
  assumes "pool_inv s ns []" and "\<And>n k. malloc_ok (env_os E) n k = (k \<noteq> 4096 * sizeof_rdma_chunk)"
  shows "\<exists>s'. rdma_transport_recv E t s = Inr (- 1, s') \<and> recv_calls s' = recv_calls s \<and>
    pool_inv s' ns [] \<and> work_chunks s' = (work_chunks s)(fresh s \<mapsto>
      \<lparr>wc_transport = t, wc_chunk = None, wc_len = RDMA_CHUNK_SIZE\<rparr>)"
proof -
  let ?s1 = "s\<lparr>fresh := Suc (fresh s), work_chunks := (work_chunks s)(fresh s \<mapsto>
      \<lparr>wc_transport = t, wc_chunk = None, wc_len = RDMA_CHUNK_SIZE\<rparr>)\<rparr>"
  let ?s2 = "?s1\<lparr>fresh := Suc (Suc (fresh ?s1))\<rparr>"
  have inv1: "pool_inv ?s1 ns []"
    by (rule pool_inv_cong[OF assms(1)]) simp_all
  have n: "sizeof_rdma_work_chunk \<noteq> 4096 * sizeof_rdma_chunk" "sizeof_link_node \<noteq> 4096 * sizeof_rdma_chunk"
    by (simp_all add: sizeof_rdma_work_chunk_def sizeof_rdma_chunk_def sizeof_link_node_def)
  have "append_rdma_buffer_pool (env_os E) RDMA_BUFFER_SIZE ?s1 = Inr (- 1, ?s2)"
    using n by (simp add: append_rdma_buffer_pool_eq sizes assms(2))
  then have "get_rdma_chunk_from_pool (env_os E) ?s1 = Inr (None, ?s2)"
    by (simp add: get_chunk_Nil[OF inv1])
  then have "rdma_transport_recv E t s = Inr (- 1, ?s2)"
    using n by (simp add: rdma_transport_recv_def new_work_chunk_def malloc_def assms(2))
  moreover have "pool_inv ?s2 ns []" by (rule append_failed_inv(1)[OF inv1])
  ultimately show ?thesis by simp
qed

text \<open>
  Receives for a message that claims to have no chunks abort the process.
\<close>

lemma recv_with_zero_aborts: "rdma_transport_recv_with_num E t 0 s = Inl Aborted"
  by (simp add: rdma_transport_recv_with_num_def get_rdma_chunk_list_from_pool_def)

section \<open>Receiving on the demo process\<close>

lemma recv_with_num_posts_receives_example:
  "\<exists>s'. rdma_transport_recv_with_num demo_env 0 1023 demo_rt = Inr s' \<and>
     receives_posted 0 5 1023 [(0, 1, 4096)] (block_addrs 1 4096) demo_rt s'"
  using recv_with_num_posts_receives[OF demo_rt_inv demo_calls, of 0 demo_transport 5 1023] demo_room[of 1023]
  by simp

lemma demo_rt_Cons: "pool_inv demo_rt [(0, 1, 4096)] ((1, 0) # block_tail 1 4096)"
  using demo_rt_inv by (simp add: block_addrs_Cons)

lemma recv_posts_one_example:
  "\<exists>s'. rdma_transport_recv demo_env 0 demo_rt = Inr (0, s') \<and>
     pool_inv s' [(0, 1, 4096)] (block_tail 1 4096)"
  using recv_posts_one[OF demo_rt_Cons, of demo_env 0 demo_transport 5] by auto

definition full_env :: env where
  "full_env = demo_env\<lparr>env_os := demo_os\<lparr>malloc_ok := \<lambda>_ k. k \<noteq> 4096 * sizeof_rdma_chunk\<rparr>\<rparr>"

lemma demo_rt0_inv: "pool_inv demo_rt0 [] []"
  by (rule pool_inv_empty) (simp_all add: demo_rt0_def)

lemma recv_failure_leaks_work_chunk_example:
  "\<exists>s'. rdma_transport_recv full_env 0 demo_rt0 = Inr (- 1, s') \<and>
     work_chunks s' 0 = Some \<lparr>wc_transport = 0, wc_chunk = None, wc_len = RDMA_CHUNK_SIZE\<rparr>"
  using recv_failure_leaks_work_chunk[OF demo_rt0_inv, of full_env 0]
  by (simp add: full_env_def) (auto simp: demo_rt0_def)

end
