(* ===== verification/Connection.thy ===== *)
theory Connection
  imports Rdma_Utils Transport_Recv
begin

text \<open>
  How two hosts are connected: \<open>rdma_create_connect\<close>, \<open>rdma_complete_connect\<close> and
  \<open>rdma_shutdown_connect\<close> of \<open>src/rdma_transport.c\<close>, \<open>create_thread\<close> of \<open>src/thread.c\<close>,
  \<open>get_transport_from_ip\<close> and \<open>connect_server\<close> of \<open>src/rdma_transport_client.c\<close>, and the loop of
  \<open>accept_thread\<close> of \<open>src/rdma_transport_server.c\<close>, cut at their locked sections.
  \<open>Connection_Threads\<close> interleaves the sections.
\<close>

section \<open>The state of the connections\<close>

text \<open>
  \<open>hash_table\<close> and \<open>host2ipstr\<close> of \<open>struct rdma_context\<close> as lists of entries. A value of
  \<open>hash_table\<close> is a \<open>struct ip_hash_value\<close>; its transport never changes, so the entry holds the
  address of the transport, and the lock is left out. \<open>qp_calls\<close> are the calls of
  \<open>ibv_modify_qp\<close>, with the queue pair; \<open>killed\<close> are the threads that got \<open>SIGQUIT\<close>.
\<close>

record 'q conn_rt = "'q rt" +
  hash_table :: "(string \<times> nat) list"
  host2ipstr :: "(string \<times> string) list"
  qp_calls :: "(nat \<times> modify_call \<times> int) list"
  killed :: "nat list"

text \<open>
  The calls outside the program: the verbs by the transport they serve (\<open>None\<close> is NULL),
  \<open>pthread_create\<close> with the id it stored, \<open>ibv_modify_qp\<close> by the number of the call; the hash
  function of strings in GLib, the resolver and the name of this host; the sizes of the structs with
  fields of system types, and what a queue pointer of a zeroed transport stands for, which nothing
  reads.
\<close>

record 'q net =
  v_comp_channel :: "nat \<Rightarrow> nat option"
  v_cq :: "nat \<Rightarrow> nat option"
  v_notify :: "nat \<Rightarrow> int"
  v_poll_thread :: "nat \<Rightarrow> int \<times> nat option"
  v_handle_thread :: "nat \<Rightarrow> int \<times> nat option"
  v_qp :: "nat \<Rightarrow> nat option"
  v_modify :: "nat \<Rightarrow> nat \<Rightarrow> modify_call \<Rightarrow> int"
  v_destroy_qp :: "nat \<Rightarrow> int"
  g_str_hash :: "string \<Rightarrow> u32"
  resolve :: "string \<Rightarrow> string option"
  host_name :: "string option"
  sizeof_transport :: nat
  sizeof_hash_value :: nat
  null_queue :: 'q

section \<open>Setting up and taking down\<close>

text \<open>\<open>create_thread\<close>: a positive error of \<open>pthread_create\<close> passes, and leaves no thread id.\<close>

definition create_thread :: "int \<times> nat option \<Rightarrow> nat res" where
  "create_thread call = (case call of (ret, thread) \<Rightarrow>
     if ret < 0 then Inl Aborted
     else case thread of None \<Rightarrow> Inl UninitRead | Some pid \<Rightarrow> Inr pid)"

text \<open>The call of \<open>ibv_modify_qp\<close> and the result of the three functions that make one.\<close>

definition modify_qp ::
  "'q net \<Rightarrow> nat \<Rightarrow> modify_call \<Rightarrow> ('q, 'z) conn_rt_scheme \<Rightarrow> int \<times> ('q, 'z) conn_rt_scheme" where
  "modify_qp V qp call s =
     (let rc = v_modify V (length (qp_calls s)) qp call
      in (modify_result rc, s\<lparr>qp_calls := qp_calls s @ [(qp, call, rc)]\<rparr>))"

definition modify_qp_to_init :: "'q net \<Rightarrow> nat \<Rightarrow> ('q, 'z) conn_rt_scheme \<Rightarrow> int \<times> ('q, 'z) conn_rt_scheme" where
  "modify_qp_to_init V qp = modify_qp V qp init_call"

definition modify_qp_to_rts ::
  "'q net \<Rightarrow> nat \<Rightarrow> qp_attr \<Rightarrow> ('q, 'z) conn_rt_scheme \<Rightarrow> int \<times> ('q, 'z) conn_rt_scheme" where
  "modify_qp_to_rts V qp attr = modify_qp V qp (rts_call attr)"

definition modify_qp_to_rtr ::
  "'q net \<Rightarrow> nat \<Rightarrow> qp_attr \<Rightarrow> ('q, 'z) conn_rt_scheme \<Rightarrow> int \<times> ('q, 'z) conn_rt_scheme" where
  "modify_qp_to_rtr V qp attr = modify_qp V qp (rtr_call attr)"

lemmas modify_qp_defs = modify_qp_def modify_qp_to_init_def modify_qp_to_rts_def modify_qp_to_rtr_def

definition rdma_create_connect ::
  "'q gqueue_ops \<Rightarrow> env \<Rightarrow> 'q net \<Rightarrow> nat \<Rightarrow> ('q, 'z) conn_rt_scheme \<Rightarrow> ('q, 'z) conn_rt_scheme res" where
  "rdma_create_connect Q E V t s =
     bind_res (transport_at s t) (\<lambda>transport.
     bind_res (GPR_ASSERT (v_comp_channel V t \<noteq> None)) (\<lambda>_.
     bind_res (GPR_ASSERT (v_cq V t \<noteq> None)) (\<lambda>_.
     if v_notify V t < 0 then Inl Aborted
     else bind_res (create_thread (v_poll_thread V t)) (\<lambda>poll.
     bind_res (create_thread (v_handle_thread V t)) (\<lambda>handle.
     bind_res (GPR_ASSERT (v_qp V t \<noteq> None)) (\<lambda>_. bind_res (deref (v_qp V t)) (\<lambda>qp.
       let s1 = s\<lparr>transports := (transports s)(t \<mapsto> transport\<lparr>
             work_queue := g_queue_new Q, is_work_running := 0,
             handle_queue := g_queue_new Q, is_handle_running := 0,
             comp_channel := v_comp_channel V t, tr_cq := v_cq V t,
             poll_pid := poll, handle_pid := handle, rc_qp := Some qp\<rparr>)\<rparr>;
           (rc, s2) = modify_qp_to_init V qp s1 in
       if rc < 0 then Inl Aborted
       else rdma_transport_recv_with_num E t MAX_PRE_RECV_QP s2)))))))"

definition rdma_complete_connect ::
  "'q net \<Rightarrow> nat \<Rightarrow> ('q, 'z) conn_rt_scheme \<Rightarrow> ('q, 'z) conn_rt_scheme res" where
  "rdma_complete_connect V t s =
     bind_res (transport_at s t) (\<lambda>transport. bind_res (deref (rc_qp transport)) (\<lambda>qp.
       let (rc, s1) = modify_qp_to_rtr V qp (remote_qp_attr transport) s in
       bind_res (GPR_ASSERT (rc = 0)) (\<lambda>_.
       let (rc, s2) = modify_qp_to_rts V qp (local_qp_attr transport) s1 in
       bind_res (GPR_ASSERT (rc = 0)) (\<lambda>_. Inr s2))))"

text \<open>
  \<open>rdma_shutdown_connect\<close>. The struct is freed while the signalled threads may still run; the
  queue of the handle thread and the lock of its queue are not destroyed.
\<close>

definition rdma_shutdown_connect ::
  "'q net \<Rightarrow> nat \<Rightarrow> ('q, 'z) conn_rt_scheme \<Rightarrow> ('q, 'z) conn_rt_scheme res" where
  "rdma_shutdown_connect V t s =
     bind_res (transport_at s t) (\<lambda>transport.
     let s1 = s\<lparr>killed := killed s @ (if poll_pid transport > 0 then [poll_pid transport] else []) @
           (if handle_pid transport > 0 then [handle_pid transport] else [])\<rparr> in
     bind_res (GPR_ASSERT (rc_qp transport \<noteq> None)) (\<lambda>_. bind_res (deref (rc_qp transport)) (\<lambda>qp.
     if v_destroy_qp V qp < 0 then Inl Aborted
     else bind_res (GPR_ASSERT (tr_cq transport \<noteq> None)) (\<lambda>_.
     bind_res (GPR_ASSERT (comp_channel transport \<noteq> None)) (\<lambda>_.
       Inr (s1\<lparr>transports := (transports s1)(t := None)\<rparr>))))))"

section \<open>Names and addresses\<close>

text \<open>\<open>strcpy(dest, src)\<close> into a buffer of \<open>n\<close> bytes.\<close>

definition strcpy_buf :: "nat \<Rightarrow> string \<Rightarrow> string res" where
  "strcpy_buf n src = (if length src < n then Inr src else Inl OutOfBounds)"

text \<open>
  \<open>set_ip_from_host\<close>: the buffer afterwards; \<open>inet_ntop\<close> leaves it as it is when the address does
  not fit. \<open>set_local_ip\<close> on a buffer that was never written.
\<close>

definition set_ip_from_host :: "'q net \<Rightarrow> string \<Rightarrow> string option \<Rightarrow> string option res" where
  "set_ip_from_host V host ip_str =
     (case resolve V host of None \<Rightarrow> Inl Aborted
      | Some ip \<Rightarrow> Inr (if length ip < IP_CHAR_SIZE then Some ip else ip_str))"

definition set_local_ip :: "'q net \<Rightarrow> string option \<Rightarrow> string option res" where
  "set_local_ip V ip_str =
     (case host_name V of None \<Rightarrow> Inl Aborted | Some h \<Rightarrow> set_ip_from_host V h ip_str)"

definition read_str :: "string option \<Rightarrow> string res" where
  "read_str p = (case p of None \<Rightarrow> Inl UninitRead | Some x \<Rightarrow> Inr x)"

text \<open>
  The lookup in \<open>hash_table\<close>: GLib compares the hashes first, then the keys with
  \<open>g_int64_equal\<close>, which looks at the first eight bytes of the two strings only.
\<close>

definition first_bytes :: "string \<Rightarrow> string" where
  "first_bytes k = take 8 (k @ replicate 8 (CHR 0x00))"

definition same_key :: "'q net \<Rightarrow> string \<Rightarrow> string \<Rightarrow> bool" where
  "same_key V k k' \<longleftrightarrow> g_str_hash V k = g_str_hash V k' \<and> first_bytes k = first_bytes k'"

definition lookup_ip :: "'q net \<Rightarrow> (string \<times> nat) list \<Rightarrow> string \<Rightarrow> nat option" where
  "lookup_ip V ht ip = map_option snd (find (\<lambda>(k, t). same_key V k ip) ht)"

definition calloc_ip :: "env \<Rightarrow> ('q, 'z) conn_rt_scheme \<Rightarrow> ('q, 'z) conn_rt_scheme res" where
  "calloc_ip E s = (let (p, s1) = malloc (env_os E) IP_CHAR_SIZE s in
     bind_res (deref p) (\<lambda>_. Inr s1))"

text \<open>A zeroed transport.\<close>

definition zero_transport :: "'q net \<Rightarrow> 'q rdma_transport" where
  "zero_transport V = \<lparr>is_ready = 0, local_qp_attr = \<lparr>lid = 0, qpn = 0, psn = 0\<rparr>,
     remote_qp_attr = \<lparr>lid = 0, qpn = 0, psn = 0\<rparr>, comp_channel = None, tr_cq = None, rc_qp = None,
     local_ip = [], remote_ip = [], tr_data_id = 0, poll_pid = 0, handle_pid = 0,
     handle_queue = null_queue V, is_handle_running = 0, work_queue = null_queue V,
     is_work_running = 0\<rparr>"

text \<open>
  The new entry for an address: key, value and transport are allocated without a check; the
  first write to each is the one that would fault. The local address is an argument.
\<close>

definition new_transport ::
  "env \<Rightarrow> 'q net \<Rightarrow> string \<Rightarrow> ('q, 'z) conn_rt_scheme \<Rightarrow> (nat \<times> ('q, 'z) conn_rt_scheme) res" where
  "new_transport E V ip s =
     bind_res (calloc_ip E s) (\<lambda>s1. bind_res (strcpy_buf IP_CHAR_SIZE ip) (\<lambda>_.
     let (value, s2) = malloc (env_os E) (sizeof_hash_value V) s1;
         (client, s3) = malloc (env_os E) (sizeof_transport V) s2 in
     bind_res (deref value) (\<lambda>_. bind_res (deref client) (\<lambda>t.
       Inr (t, s3\<lparr>transports := (transports s3)(t \<mapsto> (zero_transport V)\<lparr>remote_ip := ip\<rparr>)\<rparr>)))))"

definition insert_entry ::
  "string \<Rightarrow> nat \<Rightarrow> string \<Rightarrow> ('q, 'z) conn_rt_scheme \<Rightarrow> ('q, 'z) conn_rt_scheme res" where
  "insert_entry ip t local s =
     bind_res (transport_at s t) (\<lambda>tr. bind_res (strcpy_buf IP_CHAR_SIZE local) (\<lambda>local.
       Inr (s\<lparr>transports := (transports s)(t \<mapsto> tr\<lparr>local_ip := local\<rparr>),
              hash_table := hash_table s @ [(ip, t)]\<rparr>)))"

section \<open>The client side\<close>

text \<open>The first part of the section under \<open>hash_lock\<close>: from the host to the address.\<close>

definition remote_ip_of ::
  "env \<Rightarrow> 'q net \<Rightarrow> string \<Rightarrow> ('q, 'z) conn_rt_scheme \<Rightarrow> (string \<times> ('q, 'z) conn_rt_scheme) res" where
  "remote_ip_of E V host s =
     (case map_of (host2ipstr s) host of
        Some ip \<Rightarrow> Inr (ip, s)
      | None \<Rightarrow>
          bind_res (calloc_ip E s) (\<lambda>s1. bind_res (strcpy_buf IP_CHAR_SIZE host) (\<lambda>key.
          bind_res (calloc_ip E s1) (\<lambda>s2. bind_res (set_ip_from_host V host (Some [])) (\<lambda>ip.
          bind_res (read_str ip) (\<lambda>ip.
            Inr (ip, s2\<lparr>host2ipstr := host2ipstr s2 @ [(key, ip)]\<rparr>)))))))"

text \<open>
  The whole section: the transport, and what the caller does next: set up the connection, wait
  for another thread to do so, or use it.
\<close>

datatype next_move = Set_up | Wait_ready | Use

definition find_transport ::
  "env \<Rightarrow> 'q net \<Rightarrow> string \<Rightarrow> ('q, 'z) conn_rt_scheme
    \<Rightarrow> (next_move \<times> nat \<times> string \<times> ('q, 'z) conn_rt_scheme) res" where
  "find_transport E V host s =
     bind_res (remote_ip_of E V host s) (\<lambda>(ip, s1).
     case lookup_ip V (hash_table s1) ip of
       None \<Rightarrow>
         bind_res (new_transport E V ip s1) (\<lambda>(t, s2).
         bind_res (set_local_ip V None) (\<lambda>local. bind_res (read_str local) (\<lambda>local.
         bind_res (insert_entry ip t local s2) (\<lambda>s3. Inr (Set_up, t, ip, s3)))))
     | Some t \<Rightarrow>
         bind_res (transport_at s1 t) (\<lambda>tr.
           Inr (if is_ready tr = 0 then Wait_ready else Use, t, ip, s1)))"

text \<open>The two sections under \<open>connect_lock\<close>, which both sides share.\<close>

definition create_once ::
  "'q gqueue_ops \<Rightarrow> env \<Rightarrow> 'q net \<Rightarrow> nat \<Rightarrow> ('q, 'z) conn_rt_scheme \<Rightarrow> ('q, 'z) conn_rt_scheme res" where
  "create_once Q E V t s =
     bind_res (transport_at s t) (\<lambda>tr.
       if rc_qp tr = None then rdma_create_connect Q E V t s else Inr s)"

definition complete_once ::
  "'q net \<Rightarrow> nat \<Rightarrow> ('q, 'z) conn_rt_scheme \<Rightarrow> ('q, 'z) conn_rt_scheme res" where
  "complete_once V t s =
     bind_res (transport_at s t) (\<lambda>tr.
       if is_ready tr \<noteq> 0 then Inr s
       else bind_res (rdma_complete_connect V t s) (\<lambda>s1. bind_res (transport_at s1 t) (\<lambda>tr.
         Inr (s1\<lparr>transports := (transports s1)(t \<mapsto> tr\<lparr>is_ready := 1\<rparr>)\<rparr>))))"

text \<open>
  The exchange of attributes over a connected socket, which both sides do without a lock. The
  number of a queue pair is a field of the verbs object, a function of its address here.
\<close>

definition exchange_on ::
  "exchange_calls \<Rightarrow> (nat \<Rightarrow> u32) \<Rightarrow> bool \<Rightarrow> nat \<Rightarrow> ('q, 'z) conn_rt_scheme
    \<Rightarrow> (int \<times> ('q, 'z) conn_rt_scheme) res" where
  "exchange_on X qp_num is_client t s =
     bind_res (transport_at s t) (\<lambda>tr. bind_res (deref (rc_qp tr)) (\<lambda>qp.
     bind_res (exchange_info X (qp_num qp) is_client (remote_qp_attr tr)) (\<lambda>(rc, local, remote, sent).
       Inr (rc, s\<lparr>transports := (transports s)(t \<mapsto>
         tr\<lparr>local_qp_attr := local, remote_qp_attr := remote\<rparr>)\<rparr>))))"

text \<open>
  \<open>connect_server\<close>: \<open>socket\<close> returns \<open>fd\<close>, and \<open>conn\<close> is what \<open>connect\<close> returns for a port and an
  address. On an error the transport is freed, while its entry stays in the table. The socket itself
  is not part of the state.
\<close>

definition connect_server ::
  "'q net \<Rightarrow> exchange_calls \<Rightarrow> (nat \<Rightarrow> u32) \<Rightarrow> int \<Rightarrow> (u16 \<Rightarrow> string \<Rightarrow> int) \<Rightarrow> string \<Rightarrow> u16
    \<Rightarrow> ('q, 'z) conn_rt_scheme \<Rightarrow> (int \<times> ('q, 'z) conn_rt_scheme) res" where
  "connect_server V X qp_num fd conn ip_str port s =
     (let port = (if port = 0 then IB_SERVER_PORT else port);
          value = lookup_ip V (hash_table s) ip_str in
      bind_res (GPR_ASSERT (value \<noteq> None)) (\<lambda>_. bind_res (deref value) (\<lambda>t.
      bind_res (transport_at s t) (\<lambda>client.
      let drop_client = (\<lambda>s. Inr (- 1, s\<lparr>transports := (transports s)(t := None)\<rparr>)) in
      if rc_qp client = None then Inr (- 1, s)
      else if fd < 0 then drop_client s
      else if conn port ip_str < 0 then drop_client s
      else bind_res (exchange_on X qp_num True t s) (\<lambda>(rc, s1).
        if rc < 0 then drop_client s1 else Inr (0, s1))))))"

section \<open>The server side\<close>

text \<open>The section under \<open>hash_lock\<close> of one turn of \<open>accept_thread\<close>.\<close>

definition accept_transport ::
  "env \<Rightarrow> 'q net \<Rightarrow> string \<Rightarrow> string \<Rightarrow> ('q, 'z) conn_rt_scheme \<Rightarrow> (nat \<times> ('q, 'z) conn_rt_scheme) res" where
  "accept_transport E V local remote s =
     bind_res (strcpy_buf IP_CHAR_SIZE remote) (\<lambda>ip.
     case lookup_ip V (hash_table s) ip of
       None \<Rightarrow>
         bind_res (new_transport E V ip s) (\<lambda>(t, s1).
         bind_res (insert_entry ip t local s1) (\<lambda>s2. Inr (t, s2)))
     | Some t \<Rightarrow> Inr (t, s))"

end
