(* ===== verification/Client_Send.thy ===== *)
theory Client_Send
  imports Transport
begin

text \<open>
  The sending half of \<open>src/rdma_transport_client.c\<close>: a message becomes a data id, a list of pool
  chunks, their headers and bodies, and one posted send per chunk. The message buffers are byte
  lists (the memory the caller's pointer may be read from), and every \<open>memcpy\<close> checks both of
  its ranges: reading or writing past an end is the fault \<open>OutOfBounds\<close>.
\<close>

section \<open>Memory copies and arrays of chunk pointers\<close>

text \<open>\<open>memcpy(chunk->body + at, src + from, n)\<close>.\<close>

definition memcpy_to_body ::
  "caddr \<Rightarrow> nat \<Rightarrow> u8 list \<Rightarrow> nat \<Rightarrow> nat \<Rightarrow> 'z mem_scheme \<Rightarrow> 'z mem_scheme res" where
  "memcpy_to_body a at src from n s =
     (if unat RDMA_BODY_SIZE < at + n \<or> length src < from + n then Inl OutOfBounds
      else Inr (s\<lparr>body_of := (body_of s)(a := (\<lambda>j.
             if at \<le> j \<and> j < at + n then src ! (from + (j - at)) else body_of s a j))\<rparr>))"

definition load_data :: "varray_t \<Rightarrow> nat \<Rightarrow> caddr option res" where
  "load_data va i = (if i < length (va_data va) then Inr (va_data va ! i) else Inl OutOfBounds)"

definition store_data :: "varray_t \<Rightarrow> nat \<Rightarrow> caddr option \<Rightarrow> varray_t res" where
  "store_data va i p =
     (if i < length (va_data va) then Inr (va\<lparr>va_data := (va_data va)[i := p]\<rparr>)
      else Inl OutOfBounds)"

text \<open>\<open>VARRY_MALLOC0(len)\<close>: a zeroed struct with room for \<open>len\<close> pointers.\<close>

definition VARRY_MALLOC0 :: "os \<Rightarrow> u32 \<Rightarrow> ('q, 'z) rt_scheme \<Rightarrow> nat option \<times> ('q, 'z) rt_scheme" where
  "VARRY_MALLOC0 os len s =
     (case malloc os (sizeof_varray_t + 8 * unat len) s of
        (None, s1) \<Rightarrow> (None, s1)
      | (Some v, s1) \<Rightarrow> (Some v, s1\<lparr>varrays := (varrays s1)(v \<mapsto>
          \<lparr>va_transport = None, va_data_id = 0, va_len = 0, va_size = 0,
           va_data = replicate (unat len) None\<rparr>)\<rparr>))"

section \<open>Filling the chunks\<close>

text \<open>The two length computations that both senders share.\<close>

definition chunk_count :: "u32 \<Rightarrow> u32" where
  "chunk_count len = len div RDMA_BODY_SIZE + (if len mod RDMA_BODY_SIZE = 0 then 0 else 1)"

definition chunk_copy_len :: "u32 \<Rightarrow> u32" where
  "chunk_copy_len now_len = (if now_len > RDMA_BODY_SIZE then RDMA_BODY_SIZE else now_len)"

definition set_header ::
  "caddr \<Rightarrow> u32 \<Rightarrow> u32 \<Rightarrow> u32 \<Rightarrow> u32 \<Rightarrow> u32 \<Rightarrow> 'z mem_scheme \<Rightarrow> 'z mem_scheme" where
  "set_header a did num clen dlen cid s =
     s\<lparr>header_of := (header_of s)(a := \<lparr>flags = 0, chunk_id = cid, chunk_len = clen,
         chunk_num = num, data_id = did, data_len = dlen\<rparr>)\<rparr>"

text \<open>
  One turn of \<open>copy_msg_to_rdma\<close>; the state of the loop is the heap, the offset of \<open>now\<close> in the
  message and \<open>now_len\<close>, which wraps below zero in the last turn.
\<close>

definition copy_msg_turn ::
  "varray_t \<Rightarrow> u8 list \<Rightarrow> u32 \<Rightarrow> nat \<Rightarrow> 'z mem_scheme \<times> nat \<times> u32
     \<Rightarrow> ('z mem_scheme \<times> nat \<times> u32) res" where
  "copy_msg_turn va msg len i st =
     (let (s, now, now_len) = st in
      bind_res (load_data va i) (\<lambda>p. bind_res (chunk_at s p) (\<lambda>chunk.
        let copy_len = chunk_copy_len now_len;
            s1 = set_header chunk (va_data_id va) (va_size va) copy_len len (of_nat i) s in
        bind_res (memcpy_to_body chunk 0 msg now (unat copy_len) s1) (\<lambda>s2.
          Inr (s2, now + unat copy_len, now_len - RDMA_BODY_SIZE)))))"

definition copy_msg_to_rdma ::
  "nat \<Rightarrow> u8 list \<Rightarrow> u32 \<Rightarrow> ('q, 'z) rt_scheme \<Rightarrow> ('q, 'z) rt_scheme res" where
  "copy_msg_to_rdma v msg len s =
     bind_res (varray_at s v) (\<lambda>va.
     bind_res (for_loop 0 (unat (va_size va)) (copy_msg_turn va msg len) (s, 0, len))
       (\<lambda>(s1, _). Inr s1))"

text \<open>
  One turn of \<open>copy_header_and_body_to_rdma\<close>: \<open>now\<close> is a buffer and an offset into it. The length
  of the second copy of the turn that ends the header is a \<open>uint32_t\<close> difference.
\<close>

definition copy_both_turn ::
  "varray_t \<Rightarrow> u8 list \<Rightarrow> u32 \<Rightarrow> nat
     \<Rightarrow> 'z mem_scheme \<times> bool \<times> u32 \<times> (u8 list \<times> nat) \<times> u32
     \<Rightarrow> ('z mem_scheme \<times> bool \<times> u32 \<times> (u8 list \<times> nat) \<times> u32) res" where
  "copy_both_turn va body len i st =
     (let (s, is_header, head_len, now, now_len) = st in
      bind_res (load_data va i) (\<lambda>p. bind_res (chunk_at s p) (\<lambda>chunk.
        let copy_len = chunk_copy_len now_len;
            s1 = set_header chunk (va_data_id va) (va_size va) copy_len len (of_nat i) s in
        if is_header then
          if head_len < RDMA_BODY_SIZE then
            bind_res (memcpy_to_body chunk 0 (fst now) (snd now) (unat head_len) s1) (\<lambda>s2.
            bind_res (memcpy_to_body chunk (unat head_len) body 0 (unat (copy_len - head_len)) s2)
              (\<lambda>s3. Inr (s3, False, head_len, (body, unat (copy_len - head_len)), now_len - copy_len)))
          else
            bind_res (memcpy_to_body chunk 0 (fst now) (snd now) (unat RDMA_BODY_SIZE) s1) (\<lambda>s2.
              Inr (s2, True, head_len - RDMA_BODY_SIZE, (fst now, snd now + unat RDMA_BODY_SIZE),
                   now_len - copy_len))
        else
          bind_res (memcpy_to_body chunk 0 (fst now) (snd now) (unat copy_len) s1) (\<lambda>s2.
            Inr (s2, False, head_len, (fst now, snd now + unat copy_len), now_len - copy_len)))))"

definition copy_header_and_body_to_rdma ::
  "nat \<Rightarrow> u8 list \<Rightarrow> u32 \<Rightarrow> u8 list \<Rightarrow> u32 \<Rightarrow> ('q, 'z) rt_scheme \<Rightarrow> ('q, 'z) rt_scheme res" where
  "copy_header_and_body_to_rdma v header head_len body body_len s =
     (let len = head_len + body_len in
      bind_res (varray_at s v) (\<lambda>va.
      bind_res (for_loop 0 (unat (va_size va)) (copy_both_turn va body len)
          (s, True, head_len, (header, 0), len)) (\<lambda>(s1, _). Inr s1)))"

section \<open>Sending the chunks\<close>

text \<open>One turn of \<open>rdma_send_msg\<close>: the \<open>malloc\<close> of the work chunk is not checked.\<close>

definition send_turn ::
  "env \<Rightarrow> nat \<Rightarrow> varray_t \<Rightarrow> nat \<Rightarrow> ('q, 'z) rt_scheme \<times> u32 \<Rightarrow> (('q, 'z) rt_scheme \<times> u32) res" where
  "send_turn E t va i st =
     (let (s, len) = st in
      bind_res (load_data va i) (\<lambda>p.
        let (w, s1) = malloc (env_os E) sizeof_rdma_work_chunk s in
        bind_res (deref w) (\<lambda>w.
          let s2 = s1\<lparr>work_chunks := (work_chunks s1)(w \<mapsto>
                \<lparr>wc_transport = t, wc_chunk = p, wc_len = chunk_copy_len len\<rparr>)\<rparr> in
          bind_res (rdma_transport_send E t w s2) (\<lambda>(_, s3). Inr (s3, len - RDMA_BODY_SIZE)))))"

definition rdma_send_msg ::
  "env \<Rightarrow> nat \<Rightarrow> u32 \<Rightarrow> ('q, 'z) rt_scheme \<Rightarrow> ('q, 'z) rt_scheme res" where
  "rdma_send_msg E v len s =
     bind_res (varray_at s v) (\<lambda>va. bind_res (deref (va_transport va)) (\<lambda>t.
     bind_res (for_loop 0 (unat (va_size va)) (send_turn E t va) (s, len)) (\<lambda>(s1, _). Inr s1)))"

section \<open>A whole message\<close>

text \<open>The section of both senders under \<open>id_lock\<close>: the data id of the message.\<close>

definition take_data_id :: "nat \<Rightarrow> ('q, 'z) rt_scheme \<Rightarrow> (u32 \<times> ('q, 'z) rt_scheme) res" where
  "take_data_id t s =
     bind_res (transport_at s t) (\<lambda>tr.
       Inr (tr_data_id tr,
            s\<lparr>transports := (transports s)(t \<mapsto> tr\<lparr>tr_data_id := tr_data_id tr + 1\<rparr>)\<rparr>))"

text \<open>One turn of the loop that stores the chunks of the list in the array.\<close>

definition fill_turn ::
  "nat \<Rightarrow> nat \<Rightarrow> ('q, 'z) rt_scheme \<times> caddr option \<Rightarrow> (('q, 'z) rt_scheme \<times> caddr option) res" where
  "fill_turn v i st =
     (let (s, chunk) = st in
      bind_res (varray_at s v) (\<lambda>va. bind_res (store_data va i chunk) (\<lambda>va1.
      bind_res (chunk_at s chunk) (\<lambda>a.
        Inr (s\<lparr>varrays := (varrays s)(v \<mapsto> va1)\<rparr>, next_of s a)))))"

text \<open>
  The array of chunks of a message: \<open>get_rdma_chunk_list_from_pool\<close>, \<open>VARRY_MALLOC0\<close> (not checked)
  and the loop, up to the assertion that the list is used up.
\<close>

definition alloc_chunk_array ::
  "env \<Rightarrow> nat \<Rightarrow> u32 \<Rightarrow> u32 \<Rightarrow> ('q, 'z) rt_scheme \<Rightarrow> (nat \<times> ('q, 'z) rt_scheme) res" where
  "alloc_chunk_array E t did num s =
     bind_res (get_rdma_chunk_list_from_pool (env_os E) num s) (\<lambda>(chunk_list, s1).
     if chunk_list = None then Inl Aborted
     else let (v, s2) = VARRY_MALLOC0 (env_os E) num s1 in
     bind_res (deref v) (\<lambda>v. bind_res (varray_at s2 v) (\<lambda>va.
     let s3 = s2\<lparr>varrays := (varrays s2)(v \<mapsto>
           va\<lparr>va_size := num, va_data_id := did, va_transport := Some t\<rparr>)\<rparr> in
     bind_res (for_loop 0 (unat num) (fill_turn v) (s3, chunk_list)) (\<lambda>(s4, chunk).
     bind_res (GPR_ASSERT (chunk = None)) (\<lambda>_. Inr (v, s4))))))"

text \<open>
  \<open>send_msg\<close> and \<open>send_msg_with_header\<close> after \<open>get_transport_from_ip\<close> has found the transport.
\<close>

definition send_msg_on ::
  "env \<Rightarrow> nat \<Rightarrow> u8 list \<Rightarrow> u32 \<Rightarrow> ('q, 'z) rt_scheme \<Rightarrow> (int \<times> ('q, 'z) rt_scheme) res" where
  "send_msg_on E t msg len s =
     bind_res (take_data_id t s) (\<lambda>(did, s1).
     bind_res (alloc_chunk_array E t did (chunk_count len) s1) (\<lambda>(v, s2).
     bind_res (copy_msg_to_rdma v msg len s2) (\<lambda>s3.
     bind_res (rdma_send_msg E v len s3) (\<lambda>s4.
       Inr (0, s4\<lparr>varrays := (varrays s4)(v := None)\<rparr>)))))"

definition send_msg_with_header_on ::
  "env \<Rightarrow> nat \<Rightarrow> u8 list \<Rightarrow> u32 \<Rightarrow> u8 list \<Rightarrow> u32 \<Rightarrow> ('q, 'z) rt_scheme
     \<Rightarrow> (int \<times> ('q, 'z) rt_scheme) res" where
  "send_msg_with_header_on E t header head_len body body_len s =
     bind_res (take_data_id t s) (\<lambda>(did, s1).
     let len = head_len + body_len in
     bind_res (alloc_chunk_array E t did (chunk_count len) s1) (\<lambda>(v, s2).
     bind_res (copy_header_and_body_to_rdma v header head_len body body_len s2) (\<lambda>s3.
     bind_res (rdma_send_msg E v len s3) (\<lambda>s4.
       Inr (0, s4\<lparr>varrays := (varrays s4)(v := None)\<rparr>)))))"

end
