(* ===== verification/Receive.thy ===== *)
theory Receive
  imports Client_Send
begin

text \<open>
  The receiving half of \<open>src/rdma_transport.c\<close>: what \<open>handle_thread\<close> does with a completion, and
  \<open>work_thread\<close>, which hands whole messages to Java. The functions are cut at their locked
  sections, so that \<open>Receive_Threads\<close> can interleave them; here they are composed as the code
  composes them. Logging is left out.
\<close>

section \<open>Completions\<close>

datatype ibv_wc_status = IBV_WC_SUCCESS | IBV_WC_ERROR nat

datatype ibv_wc_opcode = IBV_WC_SEND | IBV_WC_RECV | IBV_WC_OTHER nat

record ibv_wc =
  wc_wr_id :: nat
  status :: ibv_wc_status
  opcode :: ibv_wc_opcode
  byte_len :: u32

section \<open>The contract of the queues\<close>

lemma find_snoc: "\<not> P x \<Longrightarrow> find P (xs @ [x]) = find P xs"
  by (induction xs) simp_all

text \<open>
  What GLib documents of \<open>GQueue\<close>, over the list of the queued pointers from head to tail.
\<close>

locale gqueue =
  fixes Q :: "'q gqueue_ops"
    and items :: "'q \<Rightarrow> nat list"
  assumes items_new: "items (g_queue_new Q) = []"
    and items_push_tail: "items (g_queue_push_tail Q q x) = items q @ [x]"
    and peek_head: "g_queue_peek_head Q q = head_of (items q)"
    and items_pop_head: "items (g_queue_pop_head Q q) = tl (items q)"
    and find_custom: "g_queue_find_custom Q q f = find (\<lambda>x. f x = 0) (items q)"
begin

lemma find_member: "(g_queue_find_custom Q q (\<lambda>x. if x = v then 0 else 1) \<noteq> None) = (v \<in> set (items q))"
  by (simp add: find_custom find_None_iff)

lemma find_push_other:
  "f x \<noteq> 0 \<Longrightarrow> g_queue_find_custom Q (g_queue_push_tail Q q x) f = g_queue_find_custom Q q f"
  by (simp add: find_custom items_push_tail find_snoc)

lemma peek_push:
  "g_queue_peek_head Q (g_queue_push_tail Q q x)
    = (case g_queue_peek_head Q q of None \<Rightarrow> Some x | Some y \<Rightarrow> Some y)"
  by (cases "items q") (simp_all add: peek_head items_push_tail)

end

text \<open>A queue as the list of its elements.\<close>

definition list_gqueue :: "nat list gqueue_ops" where
  "list_gqueue = \<lparr>g_queue_new = [], g_queue_push_tail = \<lambda>q x. q @ [x],
     g_queue_peek_head = head_of, g_queue_pop_head = tl,
     g_queue_find_custom = \<lambda>q f. find (\<lambda>x. f x = 0) q\<rparr>"

interpretation list_queue: gqueue list_gqueue "\<lambda>q. q"
  by unfold_locales (simp_all add: list_gqueue_def)

section \<open>Completed sends\<close>

definition free_work_chunk :: "nat \<Rightarrow> ('q, 'z) rt_scheme \<Rightarrow> ('q, 'z) rt_scheme" where
  "free_work_chunk w s = s\<lparr>work_chunks := (work_chunks s)(w := None)\<rparr>"

definition handle_send_event :: "ibv_wc \<Rightarrow> ('q, 'z) rt_scheme \<Rightarrow> ('q, 'z) rt_scheme res" where
  "handle_send_event wc s =
     bind_res (work_chunk_at s (wc_wr_id wc)) (\<lambda>work_chunk.
     bind_res (release_rdma_chunk_to_pool (wc_chunk work_chunk) s) (\<lambda>s1.
       Inr (free_work_chunk (wc_wr_id wc) s1)))"

section \<open>Completed receives\<close>

text \<open>
  \<open>compare_func\<close>. A pointer to a freed array is no match here; the queue never holds one.
\<close>

definition compare_func :: "('q, 'z) rt_scheme \<Rightarrow> u32 \<Rightarrow> nat \<Rightarrow> int" where
  "compare_func s y v = (case varrays s v of None \<Rightarrow> 1
     | Some x \<Rightarrow> if va_data_id x = y then 0 else 1)"

text \<open>The first part of \<open>handle_recv_event\<close>: the length check and the search under the lock.\<close>

definition recv_find ::
  "'q gqueue_ops \<Rightarrow> ibv_wc \<Rightarrow> ('q, 'z) rt_scheme \<Rightarrow> nat option res" where
  "recv_find Q wc s =
     bind_res (work_chunk_at s (wc_wr_id wc)) (\<lambda>work_chunk.
     bind_res (chunk_at s (wc_chunk work_chunk)) (\<lambda>chunk.
     let h = header_of s chunk in
     if chunk_len h + RDMA_HEADER_SIZE \<noteq> byte_len wc then Inl Aborted
     else bind_res (transport_at s (wc_transport work_chunk)) (\<lambda>server.
       Inr (g_queue_find_custom Q (work_queue server) (compare_func s (data_id h))))))"

text \<open>
  \<open>now->data[now->len++] = chunk\<close>, and the second part of \<open>handle_recv_event\<close>. \<open>found\<close> is a node of
  the queue, which \<open>g_queue_pop_head\<close> frees: reading \<open>found->data\<close> needs it to be still there.
\<close>

definition push_chunk :: "varray_t \<Rightarrow> caddr \<Rightarrow> varray_t res" where
  "push_chunk va chunk =
     bind_res (store_data va (unat (va_len va)) (Some chunk)) (\<lambda>va1.
       Inr (va1\<lparr>va_len := va_len va + 1\<rparr>))"

definition recv_store ::
  "'q gqueue_ops \<Rightarrow> env \<Rightarrow> ibv_wc \<Rightarrow> nat option \<Rightarrow> ('q, 'z) rt_scheme \<Rightarrow> ('q, 'z) rt_scheme res" where
  "recv_store Q E wc found s =
     bind_res (work_chunk_at s (wc_wr_id wc)) (\<lambda>work_chunk.
     bind_res (chunk_at s (wc_chunk work_chunk)) (\<lambda>chunk.
     let t = wc_transport work_chunk; h = header_of s chunk in
     bind_res (transport_at s t) (\<lambda>server.
     case found of
       None \<Rightarrow>
         let (now, s1) = VARRY_MALLOC0 (env_os E) (chunk_num h) s in
         bind_res (GPR_ASSERT (now \<noteq> None)) (\<lambda>_. bind_res (deref now) (\<lambda>now.
         bind_res (varray_at s1 now) (\<lambda>va.
         bind_res (push_chunk (va\<lparr>va_transport := Some t, va_data_id := data_id h,
             va_size := chunk_num h\<rparr>) chunk) (\<lambda>va1.
           Inr (s1\<lparr>varrays := (varrays s1)(now \<mapsto> va1),
             transports := (transports s1)(t \<mapsto>
               server\<lparr>work_queue := g_queue_push_tail Q (work_queue server) now\<rparr>)\<rparr>)))))
     | Some now \<Rightarrow>
         if g_queue_find_custom Q (work_queue server) (\<lambda>x. if x = now then 0 else 1) = None
         then Inl BadAddress
         else bind_res (varray_at s now) (\<lambda>va.
           if va_len va \<ge> va_size va then Inl Aborted
           else if va_data_id va \<noteq> data_id h then Inl Aborted
           else bind_res (push_chunk va chunk) (\<lambda>va1.
             Inr (s\<lparr>varrays := (varrays s)(now \<mapsto> va1)\<rparr>))))))"

text \<open>The last part, under the lock: wake a worker when the head of the queue is complete.\<close>

definition recv_wake ::
  "'q gqueue_ops \<Rightarrow> nat \<Rightarrow> ('q, 'z) rt_scheme \<Rightarrow> ('q, 'z) rt_scheme res" where
  "recv_wake Q t s =
     bind_res (transport_at s t) (\<lambda>server.
     case g_queue_peek_head Q (work_queue server) of
       None \<Rightarrow> Inr s
     | Some head \<Rightarrow>
         if is_work_running server \<noteq> 0 then Inr s
         else bind_res (varray_at s head) (\<lambda>va.
           if va_len va = va_size va
           then Inr (s\<lparr>transports := (transports s)(t \<mapsto> server\<lparr>is_work_running := 1\<rparr>),
                       pool_pushes := pool_pushes s @ [t]\<rparr>)
           else Inr s))"

definition handle_recv_event ::
  "'q gqueue_ops \<Rightarrow> env \<Rightarrow> ibv_wc \<Rightarrow> ('q, 'z) rt_scheme \<Rightarrow> ('q, 'z) rt_scheme res" where
  "handle_recv_event Q E wc s =
     bind_res (work_chunk_at s (wc_wr_id wc)) (\<lambda>work_chunk.
     bind_res (recv_find Q wc s) (\<lambda>found.
     bind_res (recv_store Q E wc found s) (\<lambda>s1.
     bind_res (recv_wake Q (wc_transport work_chunk) s1) (\<lambda>s2.
       Inr (free_work_chunk (wc_wr_id wc) s2)))))"

text \<open>The body of the loop of \<open>handle_thread\<close> over the completions of one poll.\<close>

definition handle_event ::
  "'q gqueue_ops \<Rightarrow> env \<Rightarrow> ibv_wc \<Rightarrow> ('q, 'z) rt_scheme \<Rightarrow> ('q, 'z) rt_scheme res" where
  "handle_event Q E wc s =
     (if status wc \<noteq> IBV_WC_SUCCESS then Inl Aborted
      else if opcode wc = IBV_WC_SEND then handle_send_event wc s
      else if opcode wc = IBV_WC_RECV then handle_recv_event Q E wc s
      else Inl Aborted)"

section \<open>Delivering messages\<close>

text \<open>
  The locked section at the top of the loop of \<open>work_thread\<close>: \<open>None\<close> is the \<open>break\<close>.
\<close>

definition work_take ::
  "'q gqueue_ops \<Rightarrow> nat \<Rightarrow> ('q, 'z) rt_scheme \<Rightarrow> (nat option \<times> ('q, 'z) rt_scheme) res" where
  "work_take Q t s =
     bind_res (transport_at s t) (\<lambda>server.
     let stop = Inr (None, s\<lparr>transports := (transports s)(t \<mapsto> server\<lparr>is_work_running := 0\<rparr>)\<rparr>) in
     case g_queue_peek_head Q (work_queue server) of
       None \<Rightarrow> stop
     | Some head \<Rightarrow>
         bind_res (varray_at s head) (\<lambda>va.
           if va_len va \<noteq> va_size va then stop
           else Inr (Some head, s\<lparr>transports := (transports s)(t \<mapsto>
               server\<lparr>work_queue := g_queue_pop_head Q (work_queue server)\<rparr>)\<rparr>)))"

text \<open>
  The rest of the loop body. Its three loops: the sum of the lengths, the copies into the Java
  array (\<open>pos\<close> is an \<open>int\<close>, to which a \<open>uint32_t\<close> is added), and the release of the chunks.
\<close>

definition sum_turn ::
  "varray_t \<Rightarrow> ('q, 'z) rt_scheme \<Rightarrow> nat \<Rightarrow> u32 \<Rightarrow> u32 res" where
  "sum_turn va s i dlen =
     bind_res (load_data va i) (\<lambda>p. bind_res (chunk_at s p) (\<lambda>a.
     bind_res (GPR_ASSERT (va_data_id va = data_id (header_of s a))) (\<lambda>_.
       Inr (dlen + chunk_len (header_of s a)))))"

definition region_turn ::
  "varray_t \<Rightarrow> ('q, 'z) rt_scheme \<Rightarrow> nat \<Rightarrow> u32 \<times> (int \<times> int \<times> u8 list) list
     \<Rightarrow> (u32 \<times> (int \<times> int \<times> u8 list) list) res" where
  "region_turn va s i st =
     (let (pos, regions) = st in
      bind_res (load_data va i) (\<lambda>p. bind_res (chunk_at s p) (\<lambda>a.
      let n = chunk_len (header_of s a) in
      if unat RDMA_BODY_SIZE < unat n then Inl OutOfBounds
      else Inr (pos + n, regions @ [(sint pos, sint n, map (body_of s a) [0..<unat n])]))))"

definition release_turn ::
  "varray_t \<Rightarrow> nat \<Rightarrow> ('q, 'z) rt_scheme \<Rightarrow> ('q, 'z) rt_scheme res" where
  "release_turn va i s = bind_res (load_data va i) (\<lambda>p. release_rdma_chunk_to_pool p s)"

definition work_message ::
  "nat \<Rightarrow> nat \<Rightarrow> ('q, 'z) rt_scheme \<Rightarrow> ('q, 'z) rt_scheme res" where
  "work_message t head s =
     bind_res (transport_at s t) (\<lambda>server.
     bind_res (GPR_ASSERT (is_work_running server = 1)) (\<lambda>_.
     bind_res (varray_at s head) (\<lambda>va.
     if va_len va \<noteq> va_size va then Inl Aborted
     else bind_res (load_data va 0) (\<lambda>p. bind_res (chunk_at s p) (\<lambda>a.
     bind_res (for_loop 0 (unat (va_size va)) (sum_turn va s) 0) (\<lambda>dlen.
     bind_res (GPR_ASSERT (data_len (header_of s a) = dlen)) (\<lambda>_.
     bind_res (for_loop 0 (unat (va_size va)) (region_turn va s) (0, [])) (\<lambda>(_, regions).
     let s1 = s\<lparr>deliveries := deliveries s @ [\<lparr>dv_remote = remote_ip server,
           dv_alloc = sint dlen, dv_regions = regions, dv_len = sint dlen\<rparr>]\<rparr> in
     bind_res (for_loop 0 (unat (va_size va)) (release_turn va) s1) (\<lambda>s2.
       Inr (s2\<lparr>varrays := (varrays s2)(head := None)\<rparr>))))))))))"

text \<open>
  \<open>work_thread\<close>, whose loop ends when the head of the queue is not complete: with fuel, \<open>None\<close> is
  "still running".
\<close>

fun work_thread ::
  "'q gqueue_ops \<Rightarrow> nat \<Rightarrow> nat \<Rightarrow> ('q, 'z) rt_scheme \<Rightarrow> ('q, 'z) rt_scheme res option" where
  "work_thread Q t 0 s = None"
| "work_thread Q t (Suc fuel) s =
     (case work_take Q t s of
        Inl e \<Rightarrow> Some (Inl e)
      | Inr (None, s1) \<Rightarrow> Some (Inr s1)
      | Inr (Some head, s1) \<Rightarrow>
          (case work_message t head s1 of Inl e \<Rightarrow> Some (Inl e) | Inr s2 \<Rightarrow> work_thread Q t fuel s2))"

end
