(* ===== verification/Connection_Threads.thy ===== *)
theory Connection_Threads
  imports Connection Receive
begin

text \<open>
  Threads that send to other hosts and the thread that accepts connections, as a step relation
  over the locked sections of \<open>Connection\<close>: every queue pair is created and brought to its final
  state once, and senders get connections that are ready.
\<close>

section \<open>The threads\<close>

text \<open>
  A thread serves one host at a time: a caller of \<open>get_transport_from_ip\<close> (\<open>client\<close> is True), or
  one turn of \<open>accept_thread\<close>. \<open>Connected t\<close> is the return of \<open>get_transport_from_ip\<close>.
\<close>

datatype conn_pc = Idle | Creating bool nat string | Exchanging bool nat string
  | Completing bool nat | Waiting_ready nat | Checking nat | Connected nat

record 'q conn_sys = "'q conn_rt" +
  conn_at :: "nat \<Rightarrow> conn_pc"
  conn_died :: "fault option"

abbreviation set_conn :: "nat \<Rightarrow> conn_pc \<Rightarrow> 'q conn_sys \<Rightarrow> 'q conn_sys" where
  "set_conn k p s \<equiv> s\<lparr>conn_at := (conn_at s)(k := p)\<rparr>"

text \<open>
  One step of thread \<open>k\<close>. Sockets and the exchange may go any way; a fault or \<open>abort()\<close> of any thread
  ends the process.
\<close>

inductive conn_step ::
  "'q gqueue_ops \<Rightarrow> env \<Rightarrow> 'q net \<Rightarrow> (nat \<Rightarrow> u32) \<Rightarrow> 'q conn_sys \<Rightarrow> 'q conn_sys \<Rightarrow> bool"
  for Q E V qp_num where
  find: "conn_died s = None \<Longrightarrow> conn_at s k = Idle \<Longrightarrow>
     find_transport E V host s = Inr (move, t, ip, s1) \<Longrightarrow>
     conn_step Q E V qp_num s (set_conn k (case move of Set_up \<Rightarrow> Creating True t ip
       | Wait_ready \<Rightarrow> Waiting_ready t | Use \<Rightarrow> Checking t) s1)"
| find_crash: "conn_died s = None \<Longrightarrow> conn_at s k = Idle \<Longrightarrow> find_transport E V host s = Inl e \<Longrightarrow>
     conn_step Q E V qp_num s (s\<lparr>conn_died := Some e\<rparr>)"
| accept: "conn_died s = None \<Longrightarrow> conn_at s k = Idle \<Longrightarrow>
     accept_transport E V local remote s = Inr (t, s1) \<Longrightarrow>
     conn_step Q E V qp_num s (set_conn k (Creating False t remote) s1)"
| accept_crash: "conn_died s = None \<Longrightarrow> conn_at s k = Idle \<Longrightarrow>
     accept_transport E V local remote s = Inl e \<Longrightarrow>
     conn_step Q E V qp_num s (s\<lparr>conn_died := Some e\<rparr>)"
| create: "conn_died s = None \<Longrightarrow> conn_at s k = Creating client t ip \<Longrightarrow>
     create_once Q E V t s = Inr s1 \<Longrightarrow>
     conn_step Q E V qp_num s (set_conn k (Exchanging client t ip) s1)"
| create_crash: "conn_died s = None \<Longrightarrow> conn_at s k = Creating client t ip \<Longrightarrow>
     create_once Q E V t s = Inl e \<Longrightarrow>
     conn_step Q E V qp_num s (s\<lparr>conn_died := Some e\<rparr>)"
| connect: "conn_died s = None \<Longrightarrow> conn_at s k = Exchanging True t ip \<Longrightarrow>
     connect_server V X qp_num fd conn ip port s = Inr (r, s1) \<Longrightarrow>
     conn_step Q E V qp_num s
       (if r < 0 then s\<lparr>conn_died := Some Aborted\<rparr> else set_conn k (Completing True t) s1)"
| connect_crash: "conn_died s = None \<Longrightarrow> conn_at s k = Exchanging True t ip \<Longrightarrow>
     connect_server V X qp_num fd conn ip port s = Inl e \<Longrightarrow>
     conn_step Q E V qp_num s (s\<lparr>conn_died := Some e\<rparr>)"
| answer: "conn_died s = None \<Longrightarrow> conn_at s k = Exchanging False t ip \<Longrightarrow>
     exchange_on X qp_num False t s = Inr (r, s1) \<Longrightarrow>
     conn_step Q E V qp_num s
       (if r < 0 then s\<lparr>conn_died := Some Aborted\<rparr> else set_conn k (Completing False t) s1)"
| answer_crash: "conn_died s = None \<Longrightarrow> conn_at s k = Exchanging False t ip \<Longrightarrow>
     exchange_on X qp_num False t s = Inl e \<Longrightarrow>
     conn_step Q E V qp_num s (s\<lparr>conn_died := Some e\<rparr>)"
| complete: "conn_died s = None \<Longrightarrow> conn_at s k = Completing client t \<Longrightarrow>
     complete_once V t s = Inr s1 \<Longrightarrow>
     conn_step Q E V qp_num s (set_conn k (if client then Checking t else Idle) s1)"
| complete_crash: "conn_died s = None \<Longrightarrow> conn_at s k = Completing client t \<Longrightarrow>
     complete_once V t s = Inl e \<Longrightarrow>
     conn_step Q E V qp_num s (s\<lparr>conn_died := Some e\<rparr>)"
| wait: "conn_died s = None \<Longrightarrow> conn_at s k = Waiting_ready t \<Longrightarrow> transport_at s t = Inr tr \<Longrightarrow>
     conn_step Q E V qp_num s (if is_ready tr = 0 then s else set_conn k (Checking t) s)"
| check: "conn_died s = None \<Longrightarrow> conn_at s k = Checking t \<Longrightarrow> transport_at s t = Inr tr \<Longrightarrow>
     conn_step Q E V qp_num s (if is_ready tr = 1 then set_conn k (Connected t) s
       else s\<lparr>conn_died := Some Aborted\<rparr>)"

section \<open>The invariant\<close>

text \<open>What was done to a queue pair, and how far it therefore is.\<close>

definition calls_of :: "nat \<Rightarrow> ('q, 'z) conn_rt_scheme \<Rightarrow> modify_call list" where
  "calls_of qp s = map (fst \<circ> snd) (filter (\<lambda>c. fst c = qp) (qp_calls s))"

definition progress_ok ::
  "'q net \<Rightarrow> nat \<Rightarrow> 'q rdma_transport \<Rightarrow> (nat \<Rightarrow> modify_call list) \<Rightarrow> bool" where
  "progress_ok V t tr calls \<longleftrightarrow>
     (case rc_qp tr of
        None \<Rightarrow> is_ready tr = 0 \<and> (\<forall>qp. v_qp V t = Some qp \<longrightarrow> calls qp = [])
      | Some qp \<Rightarrow> v_qp V t = Some qp \<and>
          (is_ready tr = 0 \<and> calls qp = [init_call] \<or>
           is_ready tr = 1 \<and> (\<exists>remote local. calls qp = [init_call, rtr_call remote, rts_call local])))"

definition qp_progress :: "'q net \<Rightarrow> nat \<Rightarrow> ('q, 'z) conn_rt_scheme \<Rightarrow> bool" where
  "qp_progress V t s \<longleftrightarrow>
     (\<exists>tr. transports s t = Some tr \<and> progress_ok V t tr (\<lambda>qp. calls_of qp s))"

text \<open>No two entries of the table match, and each has a transport of its own.\<close>

definition table_ok :: "'q net \<Rightarrow> ('q, 'z) conn_rt_scheme \<Rightarrow> bool" where
  "table_ok V s \<longleftrightarrow> sorted_wrt (\<lambda>e e'. \<not> same_key V (fst e) (fst e')) (hash_table s) \<and>
     distinct (map snd (hash_table s)) \<and> list_all (\<lambda>(ip, t). t < fresh s \<and> qp_progress V t s) (hash_table s)"

definition has_qp :: "nat \<Rightarrow> ('q, 'z) rt_scheme \<Rightarrow> bool" where
  "has_qp t s \<longleftrightarrow> (\<exists>tr. transports s t = Some tr \<and> rc_qp tr \<noteq> None)"

definition ready :: "nat \<Rightarrow> ('q, 'z) rt_scheme \<Rightarrow> bool" where
  "ready t s \<longleftrightarrow> (\<exists>tr. transports s t = Some tr \<and> is_ready tr = 1)"

definition pc_ok :: "'q net \<Rightarrow> 'q conn_sys \<Rightarrow> conn_pc \<Rightarrow> bool" where
  "pc_ok V s p = (case p of
     Idle \<Rightarrow> True
   | Creating client t ip \<Rightarrow> lookup_ip V (hash_table s) ip = Some t
   | Exchanging client t ip \<Rightarrow> lookup_ip V (hash_table s) ip = Some t \<and> has_qp t s
   | Completing client t \<Rightarrow> t \<in> snd ` set (hash_table s) \<and> has_qp t s
   | Waiting_ready t \<Rightarrow> t \<in> snd ` set (hash_table s)
   | Checking t \<Rightarrow> t \<in> snd ` set (hash_table s) \<and> ready t s
   | Connected t \<Rightarrow> t \<in> snd ` set (hash_table s) \<and> ready t s)"

definition conn_inv :: "'q net \<Rightarrow> 'q conn_sys \<Rightarrow> bool" where
  "conn_inv V s \<longleftrightarrow> inj_on (v_qp V) {t. v_qp V t \<noteq> None} \<and> table_ok V s \<and> (\<forall>k. pc_ok V s (conn_at s k)) \<and>
     (\<forall>t \<ge> fresh s. \<forall>qp. v_qp V t = Some qp \<longrightarrow> calls_of qp s = [])"

text \<open>A process that has no connection yet; the verbs return a new queue pair for each transport.\<close>

definition conn_start :: "'q net \<Rightarrow> 'q conn_sys \<Rightarrow> bool" where
  "conn_start V s \<longleftrightarrow> inj_on (v_qp V) {t. v_qp V t \<noteq> None} \<and> hash_table s = [] \<and> qp_calls s = [] \<and>
     conn_at s = (\<lambda>_. Idle) \<and> conn_died s = None"

lemma conn_start_inv: "conn_start V s \<Longrightarrow> conn_inv V s"
  by (simp add: conn_start_def conn_inv_def table_ok_def pc_ok_def calls_of_def)

section \<open>What a step leaves of the invariant\<close>

text \<open>
  The table only grows, transports of the table keep their queue pair and stay ready.
\<close>

definition grows :: "'q net \<Rightarrow> 'q conn_sys \<Rightarrow> 'q conn_sys \<Rightarrow> bool" where
  "grows V s s' \<longleftrightarrow>
     (\<exists>new. hash_table s' = hash_table s @ new) \<and>
     (\<forall>t \<in> snd ` set (hash_table s). (has_qp t s \<longrightarrow> has_qp t s') \<and> (ready t s \<longrightarrow> ready t s'))"

lemma lookup_append: "lookup_ip V ht ip = Some t \<Longrightarrow> lookup_ip V (ht @ new) ip = Some t"
  by (induction ht) (auto simp: lookup_ip_def)

lemma lookup_member: "lookup_ip V ht ip = Some t \<Longrightarrow> t \<in> snd ` set ht"
  by (induction ht) (auto simp: lookup_ip_def split: if_splits)

lemma pc_ok_grows:
  assumes "pc_ok V s p" and "grows V s s'"
  shows "pc_ok V s' p"
proof -
  obtain new where new: "hash_table s' = hash_table s @ new" using assms(2) by (auto simp: grows_def)
  have "\<forall>t \<in> snd ` set (hash_table s). (has_qp t s \<longrightarrow> has_qp t s') \<and> (ready t s \<longrightarrow> ready t s')"
    using assms(2) by (simp add: grows_def)
  with assms(1) show ?thesis
    by (auto simp: pc_ok_def new image_Un dest: lookup_member intro: lookup_append split: conn_pc.splits)
qed


lemma calls_of_fields [simp]:
  "calls_of qp (s\<lparr>conn_at := f\<rparr>) = calls_of qp s" "calls_of qp (s\<lparr>conn_died := d\<rparr>) = calls_of qp s"
  by (simp_all add: calls_of_def)

lemma conn_fields [simp]:
  "qp_progress V t (s\<lparr>conn_at := f\<rparr>) = qp_progress V t s"
  "qp_progress V t (s\<lparr>conn_died := d\<rparr>) = qp_progress V t s"
  "has_qp t (s\<lparr>conn_at := f\<rparr>) = has_qp t s" "ready t (s\<lparr>conn_at := f\<rparr>) = ready t s"
  "has_qp t (s\<lparr>conn_died := d\<rparr>) = has_qp t s" "ready t (s\<lparr>conn_died := d\<rparr>) = ready t s"
  by (simp_all add: qp_progress_def has_qp_def ready_def)

lemma conn_sys_fields [simp]:
  "table_ok V (s\<lparr>conn_at := f\<rparr>) = table_ok V s" "grows V s0 (s\<lparr>conn_at := f\<rparr>) = grows V s0 s"
  "pc_ok V (s\<lparr>conn_at := f\<rparr>) = pc_ok V s" "table_ok V (s\<lparr>conn_died := d\<rparr>) = table_ok V s"
  "pc_ok V (s\<lparr>conn_died := d\<rparr>) = pc_ok V s"
  by (simp_all add: table_ok_def grows_def pc_ok_def fun_eq_iff split: conn_pc.split)

lemma conn_inv_next:
  assumes "conn_inv V s" and "conn_at s1 = conn_at s" and "table_ok V s1" and "grows V s s1"
    and "\<And>t qp. fresh s1 \<le> t \<Longrightarrow> v_qp V t = Some qp \<Longrightarrow> calls_of qp s1 = []" and "pc_ok V s1 p"
  shows "conn_inv V (set_conn k p s1)"
  using assms pc_ok_grows[OF _ assms(4)] by (auto simp: conn_inv_def)

lemma conn_inv_died: "conn_inv V s \<Longrightarrow> conn_inv V (s\<lparr>conn_died := d\<rparr>)"
  by (auto simp: conn_inv_def)

lemma unused_qp: "conn_inv V s \<Longrightarrow> fresh s \<le> t \<Longrightarrow> v_qp V t = Some qp \<Longrightarrow> calls_of qp s = []"
  by (auto simp: conn_inv_def)

lemma progress_ok_cong:
  "(\<And>qp. v_qp V t = Some qp \<Longrightarrow> calls' qp = calls qp) \<Longrightarrow> progress_ok V t tr calls' = progress_ok V t tr calls"
  by (cases "rc_qp tr") (auto simp: progress_ok_def cong: conj_cong)

text \<open>A section that touches no more than one transport and its queue pair.\<close>

lemma touch_one:
  assumes inv: "conn_inv V s" and "conn_at s1 = conn_at s" "hash_table s1 = hash_table s" "fresh s \<le> fresh s1"
    and tr: "transports s1 = (transports s)(t \<mapsto> tr')"
    and calls: "qp_calls s1 = qp_calls s @ map (\<lambda>(c, rc). (qp, c, rc)) new" "new \<noteq> [] \<Longrightarrow> v_qp V t = Some qp"
    and t: "t \<in> snd ` set (hash_table s)" and prog: "qp_progress V t s1"
    and keep: "has_qp t s \<longrightarrow> has_qp t s1" "ready t s \<longrightarrow> ready t s1"
    and pc: "pc_ok V s1 p"
  shows "conn_inv V (set_conn k p s1)"
proof (rule conn_inv_next[OF inv assms(2)])
  note i = inv[unfolded conn_inv_def]
  have other: "calls_of q s1 = calls_of q s" if "v_qp V t' = Some q" "t' \<noteq> t" for t' q
  proof -
    have "new \<noteq> [] \<Longrightarrow> q \<noteq> qp" using i calls(2) that
      by (metis (mono_tags, lifting) inj_onD mem_Collect_eq option.distinct(1))
    then show ?thesis by (cases "new = []") (auto simp: calls_of_def calls(1) filter_empty_conv)
  qed
  have "qp_progress V t' s1" if "qp_progress V t' s" for t'
  proof (cases "t' = t")
    case True
    then show ?thesis using prog by simp
  next
    case False
    then have "progress_ok V t' tr2 (\<lambda>qp. calls_of qp s1) = progress_ok V t' tr2 (\<lambda>qp. calls_of qp s)" for tr2
      using other by (intro progress_ok_cong) simp
    with that tr False show ?thesis by (simp add: qp_progress_def)
  qed
  then show "table_ok V s1"
    using i assms(3,4) by (auto simp: table_ok_def list_all_iff)
  show "grows V s s1"
    using assms(3) keep tr by (auto simp: grows_def has_qp_def ready_def split: if_splits)
  have "t < fresh s" using i t by (auto simp: table_ok_def list_all_iff)
  then show "calls_of q s1 = []" if "fresh s1 \<le> t'" "v_qp V t' = Some q" for t' q
    using other[OF that(2)] unused_qp[OF inv _ that(2)] assms(4) that(1) by simp
qed (rule pc)

text \<open>The two lookups.\<close>

lemma calloc_ip_eq: "calloc_ip E s = Inr s1 \<Longrightarrow> s1 = s\<lparr>fresh := Suc (fresh s)\<rparr>"
  by (auto simp: calloc_ip_def malloc_def bind_res_Inr_iff split: if_splits)

definition added_entry ::
  "'q net \<Rightarrow> string \<Rightarrow> nat \<Rightarrow> ('q, 'z) conn_rt_scheme \<Rightarrow> ('q, 'z) conn_rt_scheme \<Rightarrow> bool" where
  "added_entry V ip t s s1 \<longleftrightarrow> lookup_ip V (hash_table s) ip = None \<and> fresh s \<le> t \<and> t < fresh s1 \<and>
     hash_table s1 = hash_table s @ [(ip, t)] \<and> qp_calls s1 = qp_calls s \<and> conn_rt.more s1 = conn_rt.more s \<and>
     (\<exists>loc. transports s1 = (transports s)(t \<mapsto> (zero_transport V)\<lparr>remote_ip := ip, local_ip := loc\<rparr>))"

lemma new_entry_added:
  assumes "new_transport E V ip s = Inr (t, s1)" "insert_entry ip t loc s1 = Inr s2"
    and "lookup_ip V (hash_table s) ip = None"
  shows "added_entry V ip t s s2"
  using assms
  by (auto simp: new_transport_def insert_entry_def bind_res_Inr_iff malloc_def added_entry_def transport_at_def
      Let_def dest!: calloc_ip_eq split: if_splits)

lemma remote_ip_effect:
  "remote_ip_of E V host s = Inr (ip, s1) \<Longrightarrow> transports s1 = transports s \<and> fresh s \<le> fresh s1 \<and>
    hash_table s1 = hash_table s \<and> qp_calls s1 = qp_calls s \<and> conn_rt.more s1 = conn_rt.more s"
  by (auto simp: remote_ip_of_def bind_res_Inr_iff dest!: calloc_ip_eq split: option.splits)

lemma added_before:
  assumes "added_entry V ip t s1 s2" and "transports s1 = transports s" "fresh s \<le> fresh s1"
    "hash_table s1 = hash_table s" "qp_calls s1 = qp_calls s" "conn_rt.more s1 = conn_rt.more s"
  shows "added_entry V ip t s s2"
  using assms by (simp add: added_entry_def)

lemma find_transport_cases:
  assumes "find_transport E V host s = Inr (move, t, ip, s1)"
  obtains (added) "move = Set_up" "added_entry V ip t s s1"
  | (found) tr where "move = (if is_ready tr = 0 then Wait_ready else Use)" "transports s t = Some tr"
      "lookup_ip V (hash_table s) ip = Some t" "transports s1 = transports s" "fresh s \<le> fresh s1"
      "hash_table s1 = hash_table s" "qp_calls s1 = qp_calls s" "conn_rt.more s1 = conn_rt.more s"
proof -
  obtain s0 where r: "remote_ip_of E V host s = Inr (ip, s0)"
    using assms by (auto simp: find_transport_def bind_res_Inr_iff split: option.splits)
  note e = remote_ip_effect[OF r]
  show thesis
  proof (cases "lookup_ip V (hash_table s0) ip")
    case None
    then obtain s2 loc where "new_transport E V ip s0 = Inr (t, s2)" "insert_entry ip t loc s2 = Inr s1" "move = Set_up"
      using assms r by (auto simp: find_transport_def bind_res_Inr_iff)
    with new_entry_added[OF this(1,2) None] e show thesis using added added_before by blast
  next
    case (Some t')
    then have "t' = t" and "s1 = s0" and tr: "\<exists>tr. transports s0 t = Some tr \<and> move = (if is_ready tr = 0 then Wait_ready else Use)"
      using assms r by (auto simp: find_transport_def bind_res_Inr_iff transport_at_def split: option.splits)
    with Some e found show thesis by auto
  qed
qed

lemma accept_transport_cases:
  assumes "accept_transport E V local remote s = Inr (t, s1)"
  obtains (added) "added_entry V remote t s s1"
  | (found) "lookup_ip V (hash_table s) remote = Some t" "s1 = s"
proof (cases "lookup_ip V (hash_table s) remote")
  case None
  then obtain s2 where "new_transport E V remote s = Inr (t, s2)" "insert_entry remote t local s2 = Inr s1"
    using assms by (auto simp: accept_transport_def bind_res_Inr_iff strcpy_buf_def split: if_splits)
  from added[OF new_entry_added[OF this None]] show thesis .
next
  case (Some t')
  then show thesis
    using assms found by (auto simp: accept_transport_def bind_res_Inr_iff strcpy_buf_def split: if_splits)
qed

lemma conn_more:
  fixes s s1 :: "'q conn_sys"
  assumes "conn_rt.more s1 = conn_rt.more s"
  shows "conn_at s1 = conn_at s" "conn_died s1 = conn_died s"
  using assms by (cases s; cases s1; simp)+

lemma sorted_wrt_snoc: "sorted_wrt P (xs @ [x]) \<longleftrightarrow> sorted_wrt P xs \<and> (\<forall>y \<in> set xs. P y x)"
  by (auto simp: sorted_wrt_append)

lemma lookup_None: "lookup_ip V ht ip = None \<longleftrightarrow> (\<forall>e \<in> set ht. \<not> same_key V (fst e) ip)"
  by (auto simp: lookup_ip_def find_None_iff)

lemma lookup_added: "lookup_ip V ht ip = None \<Longrightarrow> lookup_ip V (ht @ [(ip, t)]) ip = Some t"
  by (induction ht) (auto simp: lookup_ip_def same_key_def split: if_splits)

lemma added_inv:
  assumes inv: "conn_inv V s" and add: "added_entry V ip t s s1"
  shows "conn_inv V (set_conn k (Creating client t ip) s1)"
proof (rule conn_inv_next[OF inv])
  note i = inv[unfolded conn_inv_def] and a = add[unfolded added_entry_def]
  show "conn_at s1 = conn_at s" using a conn_more by blast
  have c: "calls_of q s1 = calls_of q s" for q using a by (simp add: calls_of_def)
  have old: "t' < fresh s1 \<and> qp_progress V t' s1" if "t' < fresh s" "qp_progress V t' s" for t'
    using that a c by (auto simp: qp_progress_def)
  have lt: "t' < fresh s" if "t' \<in> snd ` set (hash_table s)" for t'
    using i that by (auto simp: table_ok_def list_all_iff)
  have new: "qp_progress V t s1"
    using a c i by (auto simp: qp_progress_def progress_ok_def zero_transport_def)
  show "table_ok V s1"
    using i a old new lt by (fastforce simp: table_ok_def list_all_iff sorted_wrt_snoc lookup_None)
  show "grows V s s1"
    using a lt by (fastforce simp: grows_def has_qp_def ready_def)
  show "calls_of q s1 = []" if "fresh s1 \<le> t'" "v_qp V t' = Some q" for t' q
    using that a c unused_qp[OF inv _ that(2)] by simp
  show "pc_ok V s1 (Creating client t ip)" using a by (simp add: pc_ok_def lookup_added)
qed

lemma same_inv:
  assumes inv: "conn_inv V s" and "transports s1 = transports s" "fresh s \<le> fresh s1"
    "hash_table s1 = hash_table s" "qp_calls s1 = qp_calls s" "conn_at s1 = conn_at s" and pc: "pc_ok V s p"
  shows "conn_inv V (set_conn k p s1)"
proof -
  have p: "qp_progress V t s1 = qp_progress V t s" for t
    using assms(2,5) by (simp add: qp_progress_def calls_of_def)
  have q: "has_qp t s1 = has_qp t s" "ready t s1 = ready t s" for t
    using assms(2) by (simp_all add: has_qp_def ready_def)
  show ?thesis
  proof (rule conn_inv_next[OF inv assms(6)])
    show "table_ok V s1" using inv assms(3,4) p by (auto simp: conn_inv_def table_ok_def list_all_iff)
    show g: "grows V s s1" using assms(4) q by (simp add: grows_def)
    show "pc_ok V s1 p" by (rule pc_ok_grows[OF pc g])
    show "calls_of q s1 = []" if "fresh s1 \<le> t'" "v_qp V t' = Some q" for t' q
      using unused_qp[OF inv _ that(2)] that(1) assms(3,5) by (simp add: calls_of_def)
  qed
qed


text \<open>The sections under \<open>connect_lock\<close>, and the exchange between them.\<close>

lemma conn_calm:
  fixes s s1 :: "'q conn_sys"
  assumes "calm s s1"
  shows "hash_table s1 = hash_table s" "qp_calls s1 = qp_calls s" "conn_at s1 = conn_at s"
    "conn_died s1 = conn_died s" "transports s1 = transports s" "fresh s \<le> fresh s1"
  using assms by (cases s; cases s1; simp add: calm_def)+

lemma qp_progressD:
  assumes "conn_inv V s" "t \<in> snd ` set (hash_table s)"
  obtains tr where "transports s t = Some tr" "progress_ok V t tr (\<lambda>qp. calls_of qp s)"
  using assms by (auto simp: conn_inv_def table_ok_def list_all_iff qp_progress_def)

lemma progress_ok_attrs [simp]:
  "progress_ok V t (tr\<lparr>local_qp_attr := a, remote_qp_attr := b\<rparr>) calls = progress_ok V t tr calls"
  by (cases "rc_qp tr") (simp_all add: progress_ok_def)

lemma rdma_create_connect_run:
  assumes "rdma_create_connect Q E V t s = Inr s1" and "transports s t = Some tr"
  shows "\<exists>qp tr' rc. v_qp V t = Some qp \<and> rc_qp tr' = Some qp \<and> is_ready tr' = is_ready tr \<and>
    rdma_transport_recv_with_num E t MAX_PRE_RECV_QP
      (s\<lparr>transports := (transports s)(t \<mapsto> tr'), qp_calls := qp_calls s @ [(qp, init_call, rc)]\<rparr>) = Inr s1"
proof -
  obtain poll handle qp where qp: "v_qp V t = Some qp" and
    r: "rdma_transport_recv_with_num E t MAX_PRE_RECV_QP
      (s\<lparr>transports := (transports s)(t \<mapsto> tr\<lparr>work_queue := g_queue_new Q, is_work_running := 0,
             handle_queue := g_queue_new Q, is_handle_running := 0,
             comp_channel := v_comp_channel V t, tr_cq := v_cq V t,
             poll_pid := poll, handle_pid := handle, rc_qp := Some qp\<rparr>),
          qp_calls := qp_calls s @ [(qp, init_call, v_modify V (length (qp_calls s)) qp init_call)]\<rparr>) = Inr s1"
    using assms
    by (auto simp: rdma_create_connect_def transport_at_def bind_res_Inr_iff deref_def Let_def modify_qp_defs
        split: if_splits option.splits)
  let ?tr = "tr\<lparr>work_queue := g_queue_new Q, is_work_running := 0,
             handle_queue := g_queue_new Q, is_handle_running := 0,
             comp_channel := v_comp_channel V t, tr_cq := v_cq V t,
             poll_pid := poll, handle_pid := handle, rc_qp := Some qp\<rparr>"
  show ?thesis
    by (rule exI[of _ qp], rule exI[of _ ?tr], rule exI[of _ "v_modify V (length (qp_calls s)) qp init_call"])
      (use qp r in simp)
qed

lemma create_once_inv:
  fixes s :: "'q conn_sys"
  assumes inv: "conn_inv V s" and look: "lookup_ip V (hash_table s) ip = Some t"
    and c: "create_once Q E V t s = Inr s1"
  shows "conn_inv V (set_conn k (Exchanging client t ip) s1)"
proof -
  have t: "t \<in> snd ` set (hash_table s)" by (rule lookup_member[OF look])
  obtain tr where tr: "transports s t = Some tr" and prog: "progress_ok V t tr (\<lambda>qp. calls_of qp s)"
    by (rule qp_progressD[OF inv t])
  show ?thesis
  proof (cases "rc_qp tr")
    case (Some qp)
    then have "s1 = s" using c tr by (simp add: create_once_def transport_at_def)
    then show ?thesis
      using look tr Some by (auto intro!: same_inv[OF inv] simp: pc_ok_def has_qp_def)
  next
    case None
    then have "rdma_create_connect Q E V t s = Inr s1"
      using c tr by (simp add: create_once_def transport_at_def)
    from rdma_create_connect_run[OF this tr] obtain qp tr' rc s2 where
      qp: "v_qp V t = Some qp" and tr': "rc_qp tr' = Some qp" "is_ready tr' = is_ready tr"
      and s2: "rdma_transport_recv_with_num E t MAX_PRE_RECV_QP s2 = Inr s1"
        "s2 = s\<lparr>transports := (transports s)(t \<mapsto> tr'), qp_calls := qp_calls s @ [(qp, init_call, rc)]\<rparr>"
      by blast
    note e = conn_calm[OF recv_with_num_calm[OF s2(1)]]
    have "calls_of qp s1 = [init_call]"
      using prog None qp e(2) by (simp add: progress_ok_def calls_of_def s2(2))
    then have prog1: "qp_progress V t s1"
      using prog None e(5) qp tr' by (simp add: qp_progress_def progress_ok_def s2(2))
    show ?thesis
    proof (rule touch_one[OF inv, where tr' = tr' and qp = qp and t = t and new = "[(init_call, rc)]"])
      show "ready t s \<longrightarrow> ready t s1" using tr tr' e(5) by (auto simp: ready_def s2(2))
      show "pc_ok V s1 (Exchanging client t ip)"
        using look tr' e by (simp add: pc_ok_def has_qp_def s2(2))
      then show "has_qp t s \<longrightarrow> has_qp t s1" by (simp add: pc_ok_def)
    qed (use e t qp prog1 in \<open>simp_all add: s2(2)\<close>)
  qed
qed

lemma exchange_on_inv:
  fixes s :: "'q conn_sys"
  assumes inv: "conn_inv V s" and t: "t \<in> snd ` set (hash_table s)"
    and x: "exchange_on X qp_num client t s = Inr (r, s1)"
  shows "conn_inv V (set_conn k (Completing client' t) s1)"
proof -
  obtain tr local remote where tr: "transports s t = Some tr" "rc_qp tr \<noteq> None"
      and s1: "s1 = s\<lparr>transports := (transports s)(t \<mapsto> tr\<lparr>local_qp_attr := local, remote_qp_attr := remote\<rparr>)\<rparr>"
    using x by (auto simp: exchange_on_def transport_at_def bind_res_Inr_iff deref_def split: option.splits)
  obtain tr2 where "transports s t = Some tr2" "progress_ok V t tr2 (\<lambda>qp. calls_of qp s)"
    by (rule qp_progressD[OF inv t])
  moreover have "calls_of qp s1 = calls_of qp s" for qp by (simp add: s1 calls_of_def)
  ultimately have "qp_progress V t s1" using tr(1) by (simp add: qp_progress_def) (simp add: s1)
  then show ?thesis
    using t tr
    by (intro touch_one[OF inv, where t = t and new = "[]"
          and tr' = "tr\<lparr>local_qp_attr := local, remote_qp_attr := remote\<rparr>"])
      (auto simp: s1 has_qp_def ready_def pc_ok_def)
qed

lemma connect_server_exchange:
  assumes "connect_server V X qp_num fd conn ip port s = Inr (r, s1)" "0 \<le> r" "lookup_ip V (hash_table s) ip = Some t"
  shows "\<exists>r. exchange_on X qp_num True t s = Inr (r, s1)"
  using assms
  by (auto simp: connect_server_def bind_res_Inr_iff Let_def split: if_splits)

lemma complete_once_inv:
  fixes s :: "'q conn_sys"
  assumes inv: "conn_inv V s" and t: "t \<in> snd ` set (hash_table s)" "has_qp t s"
    and c: "complete_once V t s = Inr s1"
  shows "conn_inv V (set_conn k (if client then Checking t else Idle) s1)"
proof -
  obtain tr where tr: "transports s t = Some tr" and prog: "progress_ok V t tr (\<lambda>qp. calls_of qp s)"
    by (rule qp_progressD[OF inv t(1)])
  then obtain qp where qp: "rc_qp tr = Some qp" "v_qp V t = Some qp"
    using t(2) by (auto simp: has_qp_def progress_ok_def)
  show ?thesis
  proof (cases "is_ready tr = 0")
    case False
    then have "s1 = s" "is_ready tr = 1"
      using c tr prog qp by (auto simp: complete_once_def transport_at_def progress_ok_def)
    moreover from this have "pc_ok V s (if client then Checking t else Idle)"
      using t tr by (simp add: pc_ok_def ready_def)
    ultimately show ?thesis by (intro same_inv[OF inv]) simp_all
  next
    case True
    let ?tr = "tr\<lparr>is_ready := 1\<rparr>"
    obtain rc1 rc2 where s1: "s1 = s\<lparr>qp_calls := qp_calls s @
        [(qp, rtr_call (remote_qp_attr tr), rc1), (qp, rts_call (local_qp_attr tr), rc2)],
        transports := (transports s)(t \<mapsto> ?tr)\<rparr>"
      using c tr qp True
      by (auto simp: complete_once_def rdma_complete_connect_def transport_at_def bind_res_Inr_iff modify_qp_defs
          Let_def GPR_ASSERT_def split: if_splits)
    have "calls_of qp s1 = [init_call, rtr_call (remote_qp_attr tr), rts_call (local_qp_attr tr)]"
      using prog qp True by (simp add: progress_ok_def calls_of_def s1)
    then have "qp_progress V t s1" using qp by (auto simp: qp_progress_def progress_ok_def s1)
    then show ?thesis
      using t tr qp
      by (intro touch_one[OF inv, where t = t and tr' = ?tr and qp = qp
            and new = "[(rtr_call (remote_qp_attr tr), rc1), (rts_call (local_qp_attr tr), rc2)]"])
        (auto simp: s1 has_qp_def ready_def pc_ok_def)
  qed
qed

lemma conn_step_inv:
  assumes inv: "conn_inv V s" and step: "conn_step Q E V qp_num s s'"
  shows "conn_inv V s'"
proof -
  have pc: "pc_ok V s (conn_at s k)" for k using inv by (simp add: conn_inv_def)
  from step show ?thesis
  proof cases
    case (find k host move t ip s1)
    from find(4) show ?thesis
    proof (cases rule: find_transport_cases)
      case added
      with added_inv[OF inv] show ?thesis by (simp add: find(1))
    next
      case (found tr)
      have t: "t \<in> snd ` set (hash_table s)" by (rule lookup_member[OF found(3)])
      then obtain tr2 where "transports s t = Some tr2" "progress_ok V t tr2 (\<lambda>qp. calls_of qp s)"
        by (rule qp_progressD[OF inv])
      then have "is_ready tr = 0 \<or> is_ready tr = 1"
        using found(2) by (auto simp: progress_ok_def split: option.splits)
      then have "pc_ok V s (case move of Set_up \<Rightarrow> Creating True t ip | Wait_ready \<Rightarrow> Waiting_ready t | Use \<Rightarrow> Checking t)"
        using found(1,2) t by (auto simp: pc_ok_def ready_def)
      then show ?thesis
        unfolding find(1) using found(4-7) conn_more(1)[OF found(8)] by (intro same_inv[OF inv])
    qed
  next
    case (accept k local remote t s1)
    from accept(4) show ?thesis
    proof (cases rule: accept_transport_cases)
      case added
      with added_inv[OF inv] show ?thesis by (simp add: accept(1))
    next
      case found
      then show ?thesis by (auto intro!: same_inv[OF inv] simp: accept(1) pc_ok_def)
    qed
  next
    case (create k client t ip s1)
    with pc[of k] create_once_inv[OF inv] show ?thesis by (simp add: pc_ok_def)
  next
    case (connect k t ip X fd conn port r s1)
    with pc[of k] have "lookup_ip V (hash_table s) ip = Some t" by (simp add: pc_ok_def)
    note look = this
    show ?thesis
    proof (cases "r < 0")
      case True
      with inv connect show ?thesis by (simp add: conn_inv_died)
    next
      case False
      with connect_server_exchange[OF connect(4) _ look] obtain r' where
        "exchange_on X qp_num True t s = Inr (r', s1)" by auto
      from exchange_on_inv[OF inv lookup_member[OF look] this] False connect show ?thesis by simp
    qed
  next
    case (answer k t ip X r s1)
    with pc[of k] have "lookup_ip V (hash_table s) ip = Some t" by (simp add: pc_ok_def)
    with answer exchange_on_inv[OF inv lookup_member] inv show ?thesis
      by (auto intro: conn_inv_died)
  next
    case (complete k client t s1)
    with pc[of k] complete_once_inv[OF inv] show ?thesis by (simp add: pc_ok_def)
  next
    case (wait k t tr)
    with pc[of k] have t: "t \<in> snd ` set (hash_table s)" by (simp add: pc_ok_def)
    show ?thesis
    proof (cases "is_ready tr = 0")
      case True
      with inv wait show ?thesis by simp
    next
      case False
      obtain tr2 where "transports s t = Some tr2" "progress_ok V t tr2 (\<lambda>qp. calls_of qp s)"
        by (rule qp_progressD[OF inv t])
      then have "ready t s" using False wait(4)
        by (auto simp: ready_def transport_at_def progress_ok_def split: option.splits)
      with t have "pc_ok V s (Checking t)" by (simp add: pc_ok_def)
      then show ?thesis using False by (auto intro!: same_inv[OF inv] simp: wait(1))
    qed
  next
    case (check k t tr)
    with pc[of k] have "pc_ok V s (Connected t)" by (simp add: pc_ok_def)
    with check inv show ?thesis
      by (auto intro!: same_inv[OF inv] conn_inv_died[OF inv])
  qed (use inv in \<open>simp_all add: conn_inv_died\<close>)
qed

interpretation connections: step_system "conn_start V" "conn_step Q E V qp_num" "conn_inv V"
  for V Q E qp_num
  by unfold_locales (rule conn_start_inv, assumption, rule conn_step_inv)


section \<open>What every connection goes through\<close>

abbreviation "conn_reach V E Q qp_num \<equiv> reach (conn_start V) (conn_step Q E V qp_num)"

text \<open>
  C17: Whatever number of senders and accepted connections race for a host, the queue pair of a
  transport goes through its states once and in order: it is brought to INIT when it is created and to
  RTR and RTS when \<open>is_ready\<close> is set, and no other call of \<open>ibv_modify_qp\<close> is made on it. Every
  entry of the table has a transport of its own, and no two entries match the same address.
\<close>

theorem queue_pairs_set_up_once:
  assumes "conn_reach V E Q qp_num s" and "(ip, t) \<in> set (hash_table s)"
  shows "\<exists>tr. transports s t = Some tr \<and> is_ready tr \<in> {0, 1} \<and>
      (rc_qp tr = None \<longrightarrow> is_ready tr = 0) \<and>
      (\<forall>qp. rc_qp tr = Some qp \<longrightarrow> (\<exists>remote local. calls_of qp s =
         (if is_ready tr = 0 then [init_call] else [init_call, rtr_call remote, rts_call local]))) \<and>
      (\<forall>ip' t'. (ip', t') \<in> set (hash_table s) \<and> (t' = t \<or> same_key V ip' ip) \<longrightarrow>
         (ip', t') = (ip, t))"
proof -
  note i = connections.reach_inv[OF assms(1), unfolded conn_inv_def]
  obtain tr where tr: "transports s t = Some tr" "progress_ok V t tr (\<lambda>qp. calls_of qp s)"
    using i assms(2) by (auto simp: table_ok_def list_all_iff qp_progress_def)
  have "(ip', t') = (ip, t)"
    if e: "(ip', t') \<in> set (hash_table s)" and m: "t' = t \<or> same_key V ip' ip" for ip' t'
  proof -
    from e assms(2) obtain a b where a: "a < length (hash_table s)" "hash_table s ! a = (ip', t')"
      and b: "b < length (hash_table s)" "hash_table s ! b = (ip, t)"
      by (metis in_set_conv_nth)
    have "map snd (hash_table s) ! a = t'" "map snd (hash_table s) ! b = t" using a b by simp_all
    moreover have "distinct (map snd (hash_table s))" using i by (simp add: table_ok_def)
    ultimately have "t' = t \<Longrightarrow> a = b" using a(1) b(1) by (metis length_map nth_eq_iff_index_eq)
    moreover have "sorted_wrt (\<lambda>e e'. \<not> same_key V (fst e) (fst e')) (hash_table s)"
      using i by (simp add: table_ok_def)
    then have "a < b \<Longrightarrow> \<not> same_key V ip' ip" "b < a \<Longrightarrow> \<not> same_key V ip ip'"
      using a b by (metis fst_conv sorted_wrt_iff_nth_less)+
    moreover have "same_key V ip' ip = same_key V ip ip'" by (auto simp: same_key_def)
    ultimately have "a = b" using m by (meson linorder_less_linear)
    with a(2) b(2) show ?thesis by simp
  qed
  with tr show ?thesis by (auto simp: progress_ok_def split: option.splits)
qed

text \<open>
  C18: \<open>get_transport_from_ip\<close> returns only transports that are ready: the queue pair is in state
  RTS, so the caller may send; and its assertion on \<open>is_ready\<close> never fails, whoever set the
  connection up.
\<close>

theorem returned_transport_is_ready:
  assumes "conn_reach V E Q qp_num s" and "conn_at s k = Connected t \<or> conn_at s k = Checking t"
  shows "\<exists>tr qp remote local. transports s t = Some tr \<and> is_ready tr = 1 \<and> rc_qp tr = Some qp \<and>
    calls_of qp s = [init_call, rtr_call remote, rts_call local]"
proof -
  note inv = connections.reach_inv[OF assms(1)]
  have "pc_ok V s (conn_at s k)" using inv by (simp add: conn_inv_def)
  then have t: "t \<in> snd ` set (hash_table s)" "ready t s" using assms(2) by (auto simp: pc_ok_def)
  obtain tr where tr: "transports s t = Some tr" "progress_ok V t tr (\<lambda>qp. calls_of qp s)"
    by (rule qp_progressD[OF inv t(1)])
  with t(2) show ?thesis by (auto simp: ready_def progress_ok_def split: option.splits)
qed


section \<open>A connection to evaluate on\<close>

definition demo_net :: "nat list net" where
  "demo_net = \<lparr>v_comp_channel = \<lambda>t. Some 3, v_cq = \<lambda>t. Some 4, v_notify = \<lambda>t. 0,
     v_poll_thread = \<lambda>t. (0, Some 11), v_handle_thread = \<lambda>t. (0, Some 12), v_qp = \<lambda>t. Some t,
     v_modify = \<lambda>_ _ _. 0, v_destroy_qp = \<lambda>_. 0, g_str_hash = \<lambda>_. 0, resolve = \<lambda>_. Some ''10.0.0.2'',
     host_name = Some ''node1'', sizeof_transport = 400, sizeof_hash_value = 48, null_queue = []\<rparr>"

definition demo_conn :: "nat list conn_sys" where
  "demo_conn = \<lparr>link_head = None, free_list = None, total_size = 0, free_size = 0, pool_pd = 0,
     next_of = \<lambda>_. None, mr_of = \<lambda>_. \<lparr>mr_id = 0, lkey = 0\<rparr>, header_of = \<lambda>_. demo_header,
     body_of = \<lambda>_ _. 0, buffers = Map.empty, links = Map.empty, fresh = 0, registered = [],
     work_chunks = Map.empty, varrays = Map.empty, transports = Map.empty, recv_calls = [],
     send_calls = [], pool_pushes = [], deliveries = [], hash_table = [], host2ipstr = [],
     qp_calls = [], killed = [], conn_at = \<lambda>_. Idle, conn_died = None\<rparr>"

lemma demo_net_fields [simp]:
  "v_comp_channel demo_net t = Some 3" "v_cq demo_net t = Some 4" "v_notify demo_net t = 0"
  "v_poll_thread demo_net t = (0, Some 11)" "v_handle_thread demo_net t = (0, Some 12)"
  "v_qp demo_net t = Some t" "v_modify demo_net n q c = 0" "resolve demo_net h = Some ''10.0.0.2''"
  "host_name demo_net = Some ''node1''"
  by (simp_all add: demo_net_def)

lemma demo_conn_start: "conn_start demo_net demo_conn"
  by (simp add: conn_start_def demo_conn_def inj_on_def)

lemma demo_conn_inv: "pool_inv demo_conn [] []"
  by (rule pool_inv_empty) (simp_all add: demo_conn_def)

text \<open>The state after the lookup: the transport is at address 3.\<close>

definition demo_found :: "nat list conn_sys" where
  "demo_found = demo_conn\<lparr>fresh := 5, host2ipstr := [(''node2'', ''10.0.0.2'')],
     transports := [4 \<mapsto> (zero_transport demo_net)\<lparr>remote_ip := ''10.0.0.2'', local_ip := ''10.0.0.2''\<rparr>],
     hash_table := [(''10.0.0.2'', 4)], conn_at := (\<lambda>_. Idle)(0 := Creating True 4 ''10.0.0.2'')\<rparr>"

lemma demo_find:
  "conn_step list_gqueue demo_env demo_net (\<lambda>q. 300) demo_conn demo_found"
proof -
  have "find_transport demo_env demo_net ''node2'' demo_conn = Inr (Set_up, 4, ''10.0.0.2'', demo_found\<lparr>conn_at := \<lambda>_. Idle\<rparr>)"
    by (simp add: malloc_def demo_env_def demo_os_def find_transport_def remote_ip_of_def demo_conn_def calloc_ip_def strcpy_buf_def IP_CHAR_SIZE_def
        set_ip_from_host_def read_str_def lookup_ip_def new_transport_def set_local_ip_def insert_entry_def
        transport_at_def demo_found_def numeral_eq_Suc)
  from find[OF _ _ this, of 0 list_gqueue "\<lambda>q. 300"] show ?thesis
    by (simp add: demo_conn_def demo_found_def)
qed

lemma demo_found_reach: "conn_reach demo_net demo_env list_gqueue (\<lambda>q. 300) demo_found"
  using demo_conn_start demo_find by (blast intro: reach_step reach_init)

definition demo_answer :: exchange_calls where
  "demo_answer = demo_exchange 7 12 (fill_tmp (local_attr 9 511) raw_uninit)"

lemma demo_connected:
  "\<exists>s. conn_reach demo_net demo_env list_gqueue (\<lambda>q. 300) s \<and> conn_at s 0 = Connected 4"
proof -
  let ?R = "conn_step list_gqueue demo_env demo_net (\<lambda>q. 300)"
  let ?ip = "''10.0.0.2''"
  obtain tr where tr: "transports demo_found 4 = Some tr" "rc_qp tr = None" "is_ready tr = 0"
    by (simp add: demo_found_def zero_transport_def)
  let ?tr = "tr\<lparr>work_queue := [], is_work_running := 0, handle_queue := [], is_handle_running := 0,
    comp_channel := Some 3, tr_cq := Some 4, poll_pid := 11, handle_pid := 12, rc_qp := Some 4\<rparr>"
  let ?s1 = "demo_found\<lparr>transports := (transports demo_found)(4 \<mapsto> ?tr), qp_calls := [(4, init_call, 0)]\<rparr>"
  have "pool_inv ?s1 [] []" by (rule pool_inv_empty) (simp_all add: demo_found_def demo_conn_def)
  from recv_with_num_run[OF this demo_calls, of 4 ?tr 4 MAX_PRE_RECV_QP] obtain s2 where
    s2: "rdma_transport_recv_with_num demo_env 4 MAX_PRE_RECV_QP ?s1 = Inr s2"
    by (fastforce simp: MAX_PRE_RECV_QP_def demo_found_def demo_conn_def round_up_def)
  note c = conn_calm[OF recv_with_num_calm[OF s2]]
  have "create_once list_gqueue demo_env demo_net 4 demo_found = Inr s2"
    using tr s2
    by (simp add: create_once_def rdma_create_connect_def transport_at_def create_thread_def modify_qp_defs
        modify_result_def list_gqueue_def Let_def) (simp add: demo_found_def demo_conn_def)
  from create[OF _ _ this, of 0 True ?ip "\<lambda>q. 300"]
  have r2: "?R demo_found (set_conn 0 (Exchanging True 4 ?ip) s2)"
    by (simp add: demo_found_def demo_conn_def)
  let ?s2 = "set_conn 0 (Exchanging True 4 ?ip) s2"
  have "\<exists>tr3 s3. connect_server demo_net demo_answer (\<lambda>q. 300) 5 (\<lambda>_ _. 0) ?ip 0 ?s2 = Inr (0, s3) \<and>
      s3 = ?s2\<lparr>transports := (transports ?s2)(4 \<mapsto> tr3)\<rparr> \<and> rc_qp tr3 = Some 4 \<and> is_ready tr3 = 0"
  proof -
    have "store_read (fill_tmp (local_attr 9 511) raw_uninit) (fill_tmp a raw_uninit)
        = fill_tmp (local_attr 9 511) raw_uninit" for a
      by (rule store_read_full) (simp add: length_fill_tmp raw_uninit_def)
    moreover have "hash_table s2 = [(?ip, 4)]" "transports s2 4 = Some ?tr"
      using c by (simp_all add: demo_found_def)
    ultimately show ?thesis
      using tr
      by (simp add: connect_server_def lookup_ip_def same_key_def transport_at_def exchange_on_def
          exchange_info_def demo_answer_def demo_exchange_def get_local_lid_def read_fill_tmp raw_uninit_def Let_def)
        (rule exI, rule conjI, rule refl, simp)
  qed
  then obtain tr3 s3 where x: "connect_server demo_net demo_answer (\<lambda>q. 300) 5 (\<lambda>_ _. 0) ?ip 0 ?s2 = Inr (0, s3)"
      and s3: "s3 = ?s2\<lparr>transports := (transports ?s2)(4 \<mapsto> tr3)\<rparr>" "rc_qp tr3 = Some 4" "is_ready tr3 = 0"
    by blast
  have alive: "conn_died s2 = None" using c(4) by (simp add: demo_found_def demo_conn_def)
  let ?s3 = "set_conn 0 (Completing True 4) s3"
  have r3: "?R ?s2 ?s3"
    using connect[OF _ _ x, of 0 4 list_gqueue demo_env] alive by simp
  have "\<exists>s4 tr4. complete_once demo_net 4 ?s3 = Inr s4 \<and> transports s4 4 = Some tr4 \<and> is_ready tr4 = 1 \<and>
      conn_at s4 = conn_at ?s3 \<and> conn_died s4 = None"
    using s3 alive
    by (simp add: complete_once_def rdma_complete_connect_def transport_at_def modify_qp_defs modify_result_def Let_def)
  then obtain s4 tr4 where s4: "complete_once demo_net 4 ?s3 = Inr s4" "transports s4 4 = Some tr4"
      "is_ready tr4 = 1" "conn_died s4 = None"
    by blast
  let ?s4 = "set_conn 0 (Checking 4) s4"
  have r4: "?R ?s3 ?s4"
    using complete[OF _ _ s4(1), of 0 True list_gqueue demo_env "\<lambda>q. 300"] alive s3 by simp
  have "?R ?s4 (set_conn 0 (Connected 4) ?s4)"
    using check[of ?s4 0 4 tr4 list_gqueue demo_env demo_net "\<lambda>q. 300"] s4 by (simp add: transport_at_def)
  with r2 r3 r4 demo_found_reach have "conn_reach demo_net demo_env list_gqueue (\<lambda>q. 300) (set_conn 0 (Connected 4) ?s4)"
    by (blast intro: reach_step)
  then show ?thesis by (intro exI[of _ "set_conn 0 (Connected 4) ?s4"]) simp
qed

theorem queue_pairs_set_up_once_witness:
  "\<exists>tr. transports demo_found 4 = Some tr \<and> is_ready tr = 0"
  using queue_pairs_set_up_once[OF demo_found_reach, of "''10.0.0.2''" 4]
  by (auto simp: demo_found_def zero_transport_def)

theorem returned_transport_is_ready_witness:
  "\<exists>(s :: nat list conn_sys) tr. conn_at s 0 = Connected 4 \<and> transports s 4 = Some tr \<and> is_ready tr = 1 \<and> length (calls_of 4 s) = 3"
proof -
  obtain s where s: "conn_reach demo_net demo_env list_gqueue (\<lambda>q. 300) s" "conn_at s 0 = Connected 4"
    using demo_connected by blast
  from returned_transport_is_ready[OF s(1), of 0 4] s obtain tr qp where
    "transports s 4 = Some tr" "is_ready tr = 1" "rc_qp tr = Some qp" "length (calls_of qp s) = 3" by auto
  moreover have "qp = 4"
  proof -
    note inv = connections.reach_inv[OF s(1)]
    then have "pc_ok demo_net s (Connected 4)" using s(2) by (metis conn_inv_def)
    then have "4 \<in> snd ` set (hash_table s)" by (simp add: pc_ok_def)
    from qp_progressD[OF inv this] calculation show ?thesis by (auto simp: progress_ok_def)
  qed
  ultimately show ?thesis using s(2) by (intro exI[of _ s] exI[of _ tr]) simp
qed

end
