(* ===== verification/Client_Framing.thy ===== *)
theory Client_Framing
  imports Client_Send
begin

text \<open>
  Correctness of the two copy loops of \<open>src/rdma_transport_client.c\<close>: what a payload looks like
  when it is cut into frames, and that both loops write exactly these frames, so that the bodies
  of the chunks put together are the payload.
\<close>

section \<open>The frames of a message\<close>

text \<open>
  What the copy loops are to produce, with unbounded integers: a payload of \<open>n\<close> bytes takes
  \<open>frame_count n\<close> chunks; chunk \<open>i\<close> carries the slice \<open>frame_bytes payload i\<close>.
\<close>

definition body_size :: nat where
  "body_size = 65515"

definition frame_count :: "nat \<Rightarrow> nat" where
  "frame_count n = (n + (body_size - 1)) div body_size"

definition frame_bytes :: "u8 list \<Rightarrow> nat \<Rightarrow> u8 list" where
  "frame_bytes payload i = take body_size (drop (i * body_size) payload)"

definition frame_header :: "u32 \<Rightarrow> u8 list \<Rightarrow> nat \<Rightarrow> rdma_chunk_header" where
  "frame_header did payload i =
     \<lparr>flags = 0, chunk_id = of_nat i, chunk_len = of_nat (length (frame_bytes payload i)),
      chunk_num = of_nat (frame_count (length payload)), data_id = did,
      data_len = of_nat (length payload)\<rparr>"

lemma unat_body_size: "unat RDMA_BODY_SIZE = body_size"
  by (simp add: body_size_def)

lemma body_size_pos [simp]: "0 < body_size"
  by (simp add: body_size_def)

lemma frame_count_eq:
  "frame_count n = n div body_size + (if n mod body_size = 0 then 0 else 1)"
proof -
  define q r where "q = n div body_size" and "r = n mod body_size"
  have n: "n = q * body_size + r" "r < body_size"
    by (simp_all add: q_def r_def)
  have "frame_count n = q + (r + (body_size - 1)) div body_size"
    unfolding frame_count_def n(1) by (simp add: add.assoc)
  moreover have "(r + (body_size - 1)) div body_size = (if r = 0 then 0 else 1)"
    using n(2) by (cases r) (auto simp: body_size_def intro!: div_nat_eqI)
  ultimately show ?thesis by (simp add: q_def r_def)
qed

lemma frame_count_bounds: "n \<le> frame_count n * body_size" "frame_count n * body_size < n + body_size"
proof -
  define q r where "q = (n + (body_size - 1)) div body_size" and "r = (n + (body_size - 1)) mod body_size"
  have "n + (body_size - 1) = q * body_size + r" "r < body_size"
    by (simp_all add: q_def r_def)
  then show "n \<le> frame_count n * body_size" "frame_count n * body_size < n + body_size"
    unfolding frame_count_def q_def[symmetric] by linarith+
qed

lemma frame_count_0 [simp]: "frame_count 0 = 0"
  by (simp add: frame_count_eq)

lemma frame_count_pos: "0 < n \<Longrightarrow> 0 < frame_count n"
  using frame_count_bounds(1)[of n] by (cases "frame_count n") auto

lemma frame_start_less: "i < frame_count n \<Longrightarrow> i * body_size < n"
proof -
  assume "i < frame_count n"
  then have "Suc i * body_size \<le> frame_count n * body_size" by (intro mult_le_mono1) simp
  with frame_count_bounds(2)[of n] show ?thesis by simp
qed

lemma chunk_count_eq: "unat (chunk_count len) = frame_count (unat len)"
proof -
  have lt: "unat len < 4294967296" by (rule unat_u32_less)
  have z: "len mod RDMA_BODY_SIZE = 0 \<longleftrightarrow> unat len mod body_size = 0"
    by (simp flip: unat_0_iff add: unat_mod_distrib body_size_def)
  have "unat len div body_size \<le> 65557"
    using lt by (simp add: body_size_def less_mult_imp_div_less flip: less_Suc_eq_le)
  then show ?thesis
    unfolding chunk_count_def frame_count_eq
    by (simp add: z unat_plus_if' unat_div_distrib body_size_def)
qed

lemma unat_chunk_copy_len: "unat (chunk_copy_len n) = min body_size (unat n)"
  by (auto simp: chunk_copy_len_def word_less_nat_alt unat_body_size body_size_def min_def)

lemma length_frame_bytes:
  "length (frame_bytes p i) = min body_size (length p - i * body_size)"
  by (simp add: frame_bytes_def min_def)

lemma frame_bytes_nth:
  assumes "j < length (frame_bytes p i)"
  shows "i * body_size + j < length p" "frame_bytes p i ! j = p ! (i * body_size + j)"
proof -
  from assms show lt: "i * body_size + j < length p"
    by (auto simp: length_frame_bytes)
  from assms have "j < body_size" by (simp add: length_frame_bytes)
  with lt show "frame_bytes p i ! j = p ! (i * body_size + j)"
    by (simp add: frame_bytes_def)
qed

lemma concat_frame_bytes:
  "concat (map (frame_bytes p) [0..<k]) = take (k * body_size) p"
proof (induction k)
  case 0
  then show ?case by simp
next
  case (Suc k)
  have "take (k * body_size) p @ take body_size (drop (k * body_size) p) = take (Suc k * body_size) p"
    by (metis add.commute mult_Suc take_add)
  with Suc show ?case by (simp add: frame_bytes_def)
qed

text \<open>The frames of a payload are a partition of it, in order.\<close>

lemma frames_complete: "concat (map (frame_bytes p) [0..<frame_count (length p)]) = p"
  using frame_count_bounds(1)[of "length p"] by (simp add: concat_frame_bytes)

text \<open>Writing bytes over the start of a body, and the heap after the first \<open>k\<close> frames.\<close>

definition overlay :: "u8 list \<Rightarrow> chunk_body \<Rightarrow> chunk_body" where
  "overlay bs b = (\<lambda>j. if j < length bs then bs ! j else b j)"

definition put_frame ::
  "caddr \<Rightarrow> rdma_chunk_header \<Rightarrow> u8 list \<Rightarrow> 'z mem_scheme \<Rightarrow> 'z mem_scheme" where
  "put_frame a h bs s =
     s\<lparr>header_of := (header_of s)(a := h), body_of := (body_of s)(a := overlay bs (body_of s a))\<rparr>"

primrec framed :: "u32 \<Rightarrow> u8 list \<Rightarrow> caddr list \<Rightarrow> nat \<Rightarrow> 'z mem_scheme \<Rightarrow> 'z mem_scheme" where
  "framed did p cs 0 s = s"
| "framed did p cs (Suc k) s =
     put_frame (cs ! k) (frame_header did p k) (frame_bytes p k) (framed did p cs k s)"

lemma chunk_live_framed [simp]: "chunk_live (framed did p cs k s) a = chunk_live s a"
  by (induction k) (simp_all add: put_frame_def chunk_live_def)

lemma header_of_framed:
  assumes "distinct cs" "k \<le> length cs"
  shows "i < k \<Longrightarrow> header_of (framed did p cs k s) (cs ! i) = frame_header did p i"
    and "a \<notin> set cs \<Longrightarrow> header_of (framed did p cs k s) a = header_of s a"
  using assms by (induction k) (auto simp: put_frame_def less_Suc_eq nth_eq_iff_index_eq)

lemma body_of_framed:
  assumes "distinct cs" "k \<le> length cs"
  shows "i < k \<Longrightarrow> j < length (frame_bytes p i) \<Longrightarrow>
      body_of (framed did p cs k s) (cs ! i) j = frame_bytes p i ! j"
    and "a \<notin> set cs \<Longrightarrow> body_of (framed did p cs k s) a = body_of s a"
  using assms by (induction k) (auto simp: put_frame_def overlay_def less_Suc_eq nth_eq_iff_index_eq)

lemma body_bytes_framed:
  assumes "distinct cs" "k \<le> length cs" "i < k"
  shows "map (body_of (framed did p cs k s) (cs ! i)) [0..<length (frame_bytes p i)] = frame_bytes p i"
  using body_of_framed(1)[OF assms] by (intro nth_equalityI) simp_all

section \<open>The copy loops\<close>

lemma memcpy_to_body_ok:
  "at + n \<le> body_size \<Longrightarrow> from + n \<le> length src \<Longrightarrow>
   memcpy_to_body a at src from n s = Inr (s\<lparr>body_of := (body_of s)(a := (\<lambda>j.
     if at \<le> j \<and> j < at + n then src ! (from + (j - at)) else body_of s a j))\<rparr>)"
  by (simp add: memcpy_to_body_def body_size_def)

lemma copy_msg_turn_eq:
  assumes "i < length cs" "va_data va = map Some cs" "chunk_live s (cs ! i)"
    and "va_data_id va = did" "va_size va = of_nat (frame_count (length p))"
    and "p = take (unat len) msg" "unat len \<le> length msg"
    and now: "now = i * body_size" "unat now_len = length p - i * body_size"
      "i < frame_count (length p)"
  shows "copy_msg_turn va msg len i (s, now, now_len) =
    Inr (put_frame (cs ! i) (frame_header did p i) (frame_bytes p i) s,
         now + length (frame_bytes p i), now_len - RDMA_BODY_SIZE)"
proof -
  have lp: "length p = unat len" using assms(6,7) by simp
  have cl: "unat (chunk_copy_len now_len) = length (frame_bytes p i)"
    by (simp add: unat_chunk_copy_len now(2) length_frame_bytes)
  then have clw: "chunk_copy_len now_len = of_nat (length (frame_bytes p i))"
    by (metis of_nat_unat ucast_id)
  have hd: "\<lparr>flags = 0, chunk_id = of_nat i, chunk_len = chunk_copy_len now_len,
      chunk_num = va_size va, data_id = did, data_len = len\<rparr> = frame_header did p i"
    using lp by (simp add: frame_header_def clw assms(5))
  have room: "length (frame_bytes p i) \<le> body_size" "now + length (frame_bytes p i) \<le> length msg"
    using now lp assms(7) frame_start_less[OF now(3)] by (auto simp: length_frame_bytes)
  have bytes: "msg ! (now + j) = frame_bytes p i ! j" if "j < length (frame_bytes p i)" for j
    using frame_bytes_nth[OF that] lp assms(6) now(1) by simp
  have ov: "(\<lambda>j. if j < length (frame_bytes p i) then msg ! (now + j) else b j)
      = overlay (frame_bytes p i) b" for b
    using bytes by (auto simp: overlay_def fun_eq_iff)
  show ?thesis
    using assms(1-4) room
    by (simp add: copy_msg_turn_def load_data_def chunk_at_def memcpy_to_body_ok set_header_def
        Let_def cl hd ov put_frame_def cong: if_cong)
qed

text \<open>
  An array of \<open>n\<close> live chunks, as \<open>alloc_chunk_array\<close> builds it for a message of \<open>n\<close> frames.
\<close>

definition chunk_array :: "'z mem_scheme \<Rightarrow> varray_t \<Rightarrow> caddr list \<Rightarrow> bool" where
  "chunk_array s va cs \<longleftrightarrow> va_data va = map Some cs \<and> unat (va_size va) = length cs
     \<and> distinct cs \<and> list_all (chunk_live s) cs"

lemma chunk_arrayD:
  assumes "chunk_array s va cs"
  shows "va_data va = map Some cs" "unat (va_size va) = length cs" "distinct cs"
    "\<And>i. i < length cs \<Longrightarrow> chunk_live s (cs ! i)" "va_size va = of_nat (length cs)"
  using assms by (auto simp: chunk_array_def list_all_length) (metis of_nat_unat ucast_id)

lemma copy_msg_to_rdma_framed:
  assumes va: "varrays s v = Some va" and arr: "chunk_array s va cs"
    and n: "length cs = frame_count (unat len)" and len: "unat len \<le> length msg"
  shows "copy_msg_to_rdma v msg len s
    = Inr (framed (va_data_id va) (take (unat len) msg) cs (length cs) s)"
proof -
  let ?p = "take (unat len) msg"
  let ?P = "\<lambda>i (s', now, now_len). s' = framed (va_data_id va) ?p cs i s
    \<and> (i < length cs \<longrightarrow> now = i * body_size \<and> unat (now_len :: u32) = unat len - i * body_size)"
  note arr = chunk_arrayD[OF arr]
  have lp: "length ?p = unat len" using len by simp
  have "\<exists>s'. for_loop 0 (length cs) (copy_msg_turn va msg len) (s, 0, len) = Inr s'
      \<and> ?P (0 + length cs) s'"
  proof (rule for_loop_rule)
    show "?P 0 (s, 0, len)" by simp
  next
    fix i st assume i: "i < 0 + length cs" and P: "?P i st"
    obtain s1 now now_len where st: "st = (s1, now, now_len)" by (cases st)
    with P i have s1: "s1 = framed (va_data_id va) ?p cs i s"
      and now: "now = i * body_size" "unat now_len = unat len - i * body_size" by auto
    have "copy_msg_turn va msg len i (s1, now, now_len)
        = Inr (put_frame (cs ! i) (frame_header (va_data_id va) ?p i) (frame_bytes ?p i) s1,
               now + length (frame_bytes ?p i), now_len - RDMA_BODY_SIZE)"
      using i now n lp len arr by (intro copy_msg_turn_eq) (auto simp: s1)
    moreover have "now + length (frame_bytes ?p i) = Suc i * body_size
        \<and> unat (now_len - RDMA_BODY_SIZE) = unat len - Suc i * body_size" if "Suc i < length cs"
    proof -
      have "Suc i * body_size < unat len" using that n by (intro frame_start_less) simp
      then show ?thesis
        using now lp by (simp add: length_frame_bytes unat_sub word_le_nat_alt body_size_def)
    qed
    ultimately show "\<exists>st'. copy_msg_turn va msg len i st = Inr st' \<and> ?P (Suc i) st'"
      by (auto simp: st s1)
  qed
  then show ?thesis
    using arr(2) by (auto simp: copy_msg_to_rdma_def varray_at_def va)
qed

text \<open>
  The state of the second loop at the start of turn \<open>i\<close>: the header is used up in the first turn
  that starts with less than a body of it left.
\<close>

definition both_at ::
  "u8 list \<Rightarrow> u32 \<Rightarrow> u8 list \<Rightarrow> u32 \<Rightarrow> nat \<Rightarrow> bool \<times> u32 \<times> (u8 list \<times> nat) \<times> u32 \<Rightarrow> bool" where
  "both_at header hl body len i st \<longleftrightarrow>
     (case st of (is_header, head_len, now, now_len) \<Rightarrow>
        unat now_len = unat len - i * body_size \<and>
        (i * body_size < unat len \<longrightarrow> (if i * body_size \<le> unat hl
         then is_header \<and> unat head_len = unat hl - i * body_size \<and> now = (header, i * body_size)
         else \<not> is_header \<and> now = (body, i * body_size - unat hl))))"

lemma copy_both_turn_eq:
  assumes "i < length cs" "va_data va = map Some cs" "chunk_live s (cs ! i)"
    and "va_data_id va = did" "va_size va = of_nat (frame_count (length p))"
    and p: "p = take (unat hl) header @ take (unat bl) body"
    and hl: "unat hl \<le> length header" and bl: "unat bl \<le> length body"
    and len: "unat len = unat hl + unat bl" and i: "i < frame_count (length p)"
    and at: "both_at header hl body len i st"
  shows "\<exists>st'. copy_both_turn va body len i (s, st) =
    Inr (put_frame (cs ! i) (frame_header did p i) (frame_bytes p i) s, st')
    \<and> both_at header hl body len (Suc i) st'"
proof -
  obtain ish head_len now now_len where st: "st = (ish, head_len, now, now_len)" by (cases st)
  have lp: "length p = unat len" using p hl bl len by simp
  have lt: "i * body_size < unat len" using i lp by (metis frame_start_less)
  have nl: "unat now_len = unat len - i * body_size"
    using at by (simp add: both_at_def st)
  define c where "c = chunk_copy_len now_len"
  have cl: "unat c = length (frame_bytes p i)"
    by (simp add: c_def unat_chunk_copy_len nl length_frame_bytes lp)
  have cB: "unat c = min body_size (unat len - i * body_size)"
    by (simp add: cl length_frame_bytes lp)
  have clw: "c = of_nat (length (frame_bytes p i))"
    by (metis cl of_nat_unat ucast_id)
  have hd: "\<lparr>flags = 0, chunk_id = of_nat i, chunk_len = c,
      chunk_num = va_size va, data_id = did, data_len = len\<rparr> = frame_header did p i"
    using lp by (simp add: frame_header_def clw assms(5))
  have nl': "unat (now_len - c) = unat len - Suc i * body_size"
    using nl cB by (simp add: unat_sub word_le_nat_alt)
  show ?thesis
  proof (cases "i * body_size \<le> unat hl")
    case False
    then have *: "\<not> ish" "now = (body, i * body_size - unat hl)"
      using at lt by (auto simp: both_at_def st)
    have b: "frame_bytes p i ! j = body ! (i * body_size - unat hl + j)" if "j < unat c" for j
    proof -
      have "j < length (frame_bytes p i)" using that cl by simp
      note fb = frame_bytes_nth[OF this]
      show ?thesis unfolding fb(2) using fb(1) False hl bl lp len by (simp add: p nth_append)
    qed
    have "unat c \<le> body_size" "i * body_size - unat hl + unat c \<le> length body"
        "Suc i * body_size < unat len \<Longrightarrow> unat c = body_size"
      using cB len bl lt False by (auto simp: unat_body_size)
    then show ?thesis
      using assms(1-4) * b hd nl' False
      by (auto simp: copy_both_turn_def load_data_def chunk_at_def memcpy_to_body_ok set_header_def
          Let_def put_frame_def overlay_def st both_at_def cong: if_cong simp flip: c_def cl)
  next
    case True
    then have *: "ish" "unat head_len = unat hl - i * body_size" "now = (header, i * body_size)"
      using at lt by (auto simp: both_at_def st)
    show ?thesis
    proof (cases "head_len < RDMA_BODY_SIZE")
      case end_of_header: True
      then have h: "unat head_len < body_size"
        by (simp add: word_less_nat_alt body_size_def)
      have le: "unat head_len \<le> unat c" using h cB *(2) len True by auto
      have d: "unat (c - head_len) = unat c - unat head_len"
        using le by (simp add: unat_sub word_le_nat_alt)
      have b: "frame_bytes p i ! j = (if j < unat head_len then header ! (i * body_size + j)
          else body ! (j - unat head_len))" if "j < unat c" for j
      proof -
        have "j < length (frame_bytes p i)" using that cl by simp
        note fb = frame_bytes_nth[OF this]
        show ?thesis unfolding fb(2) using fb(1) True hl bl lp len *(2) by (auto simp: p nth_append add.commute)
      qed
      have "unat head_len + (unat c - unat head_len) \<le> body_size"
          "i * body_size + unat head_len \<le> length header" "unat c - unat head_len \<le> length body"
          "Suc i * body_size > unat hl" "unat c - unat head_len = Suc i * body_size - unat hl \<or> Suc i * body_size \<ge> unat len"
        using cB len bl hl lt True *(2) le h by auto
      then show ?thesis
        using assms(1-4) * b hd nl' le d end_of_header
        by (auto simp: copy_both_turn_def load_data_def chunk_at_def memcpy_to_body_ok set_header_def
            Let_def put_frame_def overlay_def st both_at_def unat_body_size fun_eq_iff cong: if_cong simp del: unat_sizes simp flip: c_def cl
            intro!: mem.equality)
    next
      case False
      then have h: "body_size \<le> unat head_len"
        by (simp add: word_less_nat_alt body_size_def)
      then have c: "unat c = body_size" using cB *(2) len True by auto
      have d: "unat (head_len - RDMA_BODY_SIZE) = unat head_len - body_size"
        using h by (simp add: unat_sub word_le_nat_alt body_size_def)
      have b: "frame_bytes p i ! j = header ! (i * body_size + j)" if "j < body_size" for j
      proof -
        have "j < length (frame_bytes p i)" using that cl c by simp
        note fb = frame_bytes_nth[OF this]
        show ?thesis unfolding fb(2) using fb(1) that True h hl bl lp len *(2) by (auto simp: p nth_append)
      qed
      have "i * body_size + body_size \<le> length header" "Suc i * body_size \<le> unat hl"
          "unat head_len - body_size = unat hl - Suc i * body_size"
        using hl h True *(2) by auto
      then show ?thesis
        using assms(1-4) * b hd nl' d False c
        by (auto simp: copy_both_turn_def load_data_def chunk_at_def memcpy_to_body_ok set_header_def
            Let_def put_frame_def overlay_def st both_at_def unat_body_size cong: if_cong simp del: unat_sizes simp flip: c_def cl)
    qed
  qed
qed

lemma copy_header_and_body_to_rdma_framed:
  assumes va: "varrays s v = Some va" and arr: "chunk_array s va cs"
    and n: "length cs = frame_count (unat hl + unat bl)" and no_wrap: "unat hl + unat bl < 2 ^ 32"
    and hl: "unat hl \<le> length header" and bl: "unat bl \<le> length body"
  shows "copy_header_and_body_to_rdma v header hl body bl s
    = Inr (framed (va_data_id va) (take (unat hl) header @ take (unat bl) body) cs (length cs) s)"
proof -
  let ?p = "take (unat hl) header @ take (unat bl) body" and ?len = "hl + bl"
  let ?P = "\<lambda>i (s', st). s' = framed (va_data_id va) ?p cs i s \<and> both_at header hl body ?len i st"
  note arr = chunk_arrayD[OF arr]
  have len: "unat ?len = unat hl + unat bl" using no_wrap by (simp add: unat_plus_if')
  have lp: "length ?p = unat hl + unat bl" using hl bl by simp
  have "\<exists>s'. for_loop 0 (length cs) (copy_both_turn va body ?len) (s, True, hl, (header, 0), ?len)
      = Inr s' \<and> ?P (0 + length cs) s'"
  proof (rule for_loop_rule)
    show "?P 0 (s, True, hl, (header, 0), ?len)" by (simp add: both_at_def)
  next
    fix i st assume i: "i < 0 + length cs" and P: "?P i st"
    obtain s1 r where st: "st = (s1, r)" by (cases st)
    with P have s1: "s1 = framed (va_data_id va) ?p cs i s" and r: "both_at header hl body ?len i r"
      by auto
    have "\<exists>st'. copy_both_turn va body ?len i (s1, r) =
      Inr (put_frame (cs ! i) (frame_header (va_data_id va) ?p i) (frame_bytes ?p i) s1, st')
      \<and> both_at header hl body ?len (Suc i) st'"
      using i r n hl bl len arr by (intro copy_both_turn_eq) (auto simp: s1)
    then show "\<exists>st'. copy_both_turn va body ?len i st = Inr st' \<and> ?P (Suc i) st'"
      by (auto simp: st s1)
  qed
  then show ?thesis
    using arr(2) by (auto simp: copy_header_and_body_to_rdma_def varray_at_def va)
qed

section \<open>Properties of the framing\<close>

text \<open>
  What the receiver is to read back from a chunk: the first \<open>chunk_len\<close> bytes of its body.
\<close>

definition chunk_payload :: "'z mem_scheme \<Rightarrow> caddr \<Rightarrow> u8 list" where
  "chunk_payload s a = map (body_of s a) [0..<unat (chunk_len (header_of s a))]"

lemma unat_frame_len: "unat (of_nat (length (frame_bytes p i)) :: u32) = length (frame_bytes p i)"
proof -
  have "length (frame_bytes p i) < 2 ^ 32"
    by (simp add: length_frame_bytes body_size_def min_def)
  then show ?thesis by (simp add: unat_of_nat)
qed

lemma chunk_payload_framed:
  assumes "distinct cs" "k \<le> length cs" "i < k"
  shows "chunk_payload (framed did p cs k s) (cs ! i) = frame_bytes p i"
  by (simp add: chunk_payload_def header_of_framed(1)[OF assms] frame_header_def unat_frame_len
      body_bytes_framed[OF assms])

lemma map_chunk_payload_framed:
  assumes "distinct cs"
  shows "map (chunk_payload (framed did p cs (length cs) s)) cs = map (frame_bytes p) [0..<length cs]"
  using chunk_payload_framed[OF assms order_refl] by (auto simp: list_eq_iff_nth_eq[of "map f xs" for f xs])

text \<open>
  C14: \<open>copy_msg_to_rdma\<close> on an array with one chunk per \<open>RDMA_BODY_SIZE\<close> bytes: no access leaves
  a buffer, chunk \<open>i\<close> gets the header of frame \<open>i\<close> (its index, its length, the number of chunks,
  the data id and the length of the whole message), the bodies put together in order are exactly
  the message, and no other chunk is written.
\<close>

theorem copy_msg_to_rdma_spec:
  assumes "varrays s v = Some va" and "chunk_array s va cs"
    and "length cs = unat (chunk_count len)" and "unat len \<le> length msg"
  shows "\<exists>s'. copy_msg_to_rdma v msg len s = Inr s' \<and>
    (\<forall>i < length cs. header_of s' (cs ! i) = frame_header (va_data_id va) (take (unat len) msg) i) \<and>
    concat (map (chunk_payload s') cs) = take (unat len) msg \<and>
    (\<forall>a. a \<notin> set cs \<longrightarrow> header_of s' a = header_of s a \<and> body_of s' a = body_of s a)"
proof -
  let ?p = "take (unat len) msg"
  note d = chunk_arrayD(3)[OF assms(2)]
  have n: "length cs = frame_count (length ?p)" using assms(3,4) by (simp add: chunk_count_eq)
  have "concat (map (chunk_payload (framed (va_data_id va) ?p cs (length cs) s)) cs) = ?p"
    unfolding map_chunk_payload_framed[OF d] by (simp only: n frames_complete)
  then show ?thesis
    using copy_msg_to_rdma_framed[OF assms(1,2) _ assms(4)] assms(3)
    by (simp add: chunk_count_eq header_of_framed[OF d] body_of_framed[OF d])
qed

text \<open>
  C15: Sending a header and a body from two buffers fills the chunks exactly as sending their
  concatenation from one buffer would, wherever the boundary falls, as long as the sum of the
  lengths does not wrap.
\<close>

theorem copy_header_and_body_equals_copy_msg:
  assumes "varrays s v = Some va" and "chunk_array s va cs"
    and "unat hl + unat bl < 2 ^ 32" and "length cs = unat (chunk_count (hl + bl))"
    and "unat hl \<le> length header" and "unat bl \<le> length body"
  shows "copy_header_and_body_to_rdma v header hl body bl s
    = copy_msg_to_rdma v (take (unat hl) header @ take (unat bl) body) (hl + bl) s"
proof -
  have len: "unat (hl + bl) = unat hl + unat bl" using assms(3) by (simp add: unat_plus_if')
  have n: "length cs = frame_count (unat hl + unat bl)" using assms(4) by (simp add: chunk_count_eq len)
  show ?thesis
    using copy_header_and_body_to_rdma_framed[OF assms(1,2) n assms(3,5,6)]
      copy_msg_to_rdma_framed[OF assms(1,2), of "hl + bl" "take (unat hl) header @ take (unat bl) body"]
      n len assms(5,6)
    by simp
qed

text \<open>
  C39: When the sum of the two lengths wraps, the code takes the small wrapped length for the size
  of the message: if a header shorter than a body size then meets a wrapped length above zero,
  the second copy of the first turn has an enormous length, and leaves the chunk.
\<close>

theorem header_and_body_length_wraps:
  assumes "varrays s v = Some va" and "chunk_array s va cs"
    and "2 ^ 32 \<le> unat hl + unat bl" and "hl + bl \<noteq> 0"
    and "length cs = unat (chunk_count (hl + bl))"
    and "hl < RDMA_BODY_SIZE" and "unat hl \<le> length header"
  shows "copy_header_and_body_to_rdma v header hl body bl s = Inl OutOfBounds"
proof -
  have pos: "0 < length cs"
    using assms(4,5) frame_count_pos[of "unat (hl + bl)"] by (simp add: chunk_count_eq unat_gt_0)
  have len: "unat (hl + bl) = unat hl + unat bl - 4294967296"
    using assms(3) by (simp add: unat_plus_if')
  then have lt: "unat (hl + bl) < unat hl" using unat_u32_less[of bl] assms(3) by simp
  have h: "unat hl < body_size" using assms(6) by (simp add: word_less_nat_alt body_size_def)
  then have "chunk_copy_len (hl + bl) = hl + bl"
    using lt by (simp add: chunk_copy_len_def word_less_nat_alt body_size_def)
  moreover obtain c cs' where c: "cs = c # cs'" and live: "chunk_live s c"
    using chunk_arrayD(4)[OF assms(2), of 0] pos by (cases cs) auto
  moreover have "body_size < unat bl" using h assms(3) by (simp add: body_size_def)
  ultimately show ?thesis
    using chunk_arrayD(1,2,5)[OF assms(2)] live assms(1,6,7) h c
    by (auto simp: copy_header_and_body_to_rdma_def varray_at_def copy_both_turn_def
        load_data_def chunk_at_def set_header_def Let_def memcpy_to_body_ok bind_res_def
        memcpy_to_body_def body_size_def)
qed

section \<open>An array to evaluate on\<close>

definition demo_array :: "u32 \<Rightarrow> nat \<Rightarrow> varray_t" where
  "demo_array did n = \<lparr>va_transport = Some 0, va_data_id = did, va_len = 0, va_size = of_nat n,
     va_data = map Some (map (Pair 1) [0..<n])\<rparr>"

definition demo_send :: "nat \<Rightarrow> nat list rt" where
  "demo_send n = demo_rt\<lparr>varrays := [9 \<mapsto> demo_array 42 n]\<rparr>"

lemma demo_send_at: "varrays (demo_send n) 9 = Some (demo_array 42 n)"
  by (simp add: demo_send_def)

lemma demo_send_array:
  "n \<le> 4096 \<Longrightarrow> chunk_array (demo_send n) (demo_array 42 n) (map (Pair 1) [0..<n])"
  using demo_rt_live
  by (auto simp: demo_send_def demo_array_def chunk_array_def distinct_map inj_on_def unat_of_nat
      list_all_iff)

lemma demo_counts [simp]: "chunk_count 3 = 1" "chunk_count 1 = 1" "chunk_count 65516 = 2"
  by (simp_all add: chunk_count_def sizes)

theorem copy_msg_to_rdma_spec_witness:
  "\<exists>s'. copy_msg_to_rdma 9 (replicate 65516 7) 65516 (demo_send 2) = Inr s' \<and>
     header_of s' (1, 1) = frame_header 42 (replicate 65516 7) 1 \<and>
     concat (map (chunk_payload s') [(1, 0), (1, 1)]) = replicate 65516 7"
  using copy_msg_to_rdma_spec[OF demo_send_at demo_send_array,
      of 2 65516 "replicate 65516 7"]
  by (auto simp: demo_array_def upt_rec less_Suc_eq)

theorem copy_header_and_body_equals_copy_msg_witness:
  "copy_header_and_body_to_rdma 9 [1, 2] 2 [3] 1 (demo_send 1)
    = copy_msg_to_rdma 9 [1, 2, 3] 3 (demo_send 1)"
  using copy_header_and_body_equals_copy_msg[OF demo_send_at
      demo_send_array, of 1 2 1 "[1, 2]" "[3]"]
  by simp

theorem header_and_body_length_wraps_witness:
  "copy_header_and_body_to_rdma 9 [1, 2] 2 [] 4294967295 (demo_send 1) = Inl OutOfBounds"
proof -
  have w: "(4294967297 :: u32) = 1" by (simp add: word_eq_iff_unsigned)
  show ?thesis
    using header_and_body_length_wraps[OF demo_send_at demo_send_array, of 1 2 4294967295 "[1, 2]" "[]"]
    by (simp add: sizes w word_less_nat_alt)
qed

end
