(* ===== verification/Client_Message.thy ===== *)
theory Client_Message
  imports Client_Framing
begin

text \<open>
  Whole messages of \<open>src/rdma_transport_client.c\<close>: the array of chunks that a message gets from
  the pool, the sends that are posted for it, and what the frames on the wire carry.
\<close>

section \<open>The array of a message\<close>

lemma unat_of_nat_small: "n < 2 ^ 32 \<Longrightarrow> unat (of_nat n :: u32) = n"
  by (simp add: unat_of_nat)

lemma fill_loop:
  fixes s :: "('q, 'z) rt_scheme"
  assumes "varrays s v = Some va" "va_data va = replicate (length cs) None"
    and "chain (next_of s) p cs" "list_all (chunk_live s) cs"
  shows "for_loop 0 (length cs) (fill_turn v) (s, p)
    = Inr (s\<lparr>varrays := (varrays s)(v \<mapsto> va\<lparr>va_data := map Some cs\<rparr>)\<rparr>, None)"
proof -
  let ?va = "\<lambda>i. va\<lparr>va_data := map Some (take i cs) @ replicate (length cs - i) None\<rparr>"
  let ?P = "\<lambda>i (s', p'). s' = s\<lparr>varrays := (varrays s)(v \<mapsto> ?va i)\<rparr> \<and> p' = head_of (drop i cs)
    \<and> chain (next_of s) p' (drop i cs)"
  have "\<exists>s'. for_loop 0 (length cs) (fill_turn v) (s, p) = Inr s' \<and> ?P (0 + length cs) s'"
  proof (rule for_loop_rule)
    have "s\<lparr>varrays := (varrays s)(v \<mapsto> ?va 0)\<rparr> = s"
      using assms(1,2) by (simp add: fun_upd_idem)
    then show "?P 0 (s, p)" using assms(3) chain_head[OF assms(3)] by simp
  next
    fix i st assume i: "i < 0 + length cs" and P: "?P i st"
    obtain s1 p1 where st: "st = (s1, p1)" by (cases st)
    have d: "drop i cs = cs ! i # drop (Suc i) cs" using i by (simp add: Cons_nth_drop_Suc)
    from P st d have p1: "p1 = Some (cs ! i)" and s1: "s1 = s\<lparr>varrays := (varrays s)(v \<mapsto> ?va i)\<rparr>"
      and n: "chain (next_of s) (next_of s (cs ! i)) (drop (Suc i) cs)" by auto
    have live: "chunk_live s (cs ! i)" using assms(4) i by (simp add: list_all_length)
    obtain m where m: "length cs - i = Suc m" "length cs - Suc i = m" using i by (cases "length cs - i") auto
    have "(map Some (take i cs) @ replicate (Suc m) None)[i := Some (cs ! i)]
        = map Some (take (Suc i) cs) @ replicate m None"
      using i by (simp add: list_update_append take_Suc_conv_app_nth)
    then show "\<exists>st'. fill_turn v i st = Inr st' \<and> ?P (Suc i) st'"
      using i n live m chain_head[OF n]
      by (simp add: fill_turn_def st s1 p1 varray_at_def store_data_def chunk_at_def)
  qed
  then show ?thesis by auto
qed
lemma chain_unique_head: "chain nx (Some p) cs \<Longrightarrow> cs \<noteq> []"
  by auto

lemma alloc_chunk_array_spec:
  fixes s :: "('q, 'z) rt_scheme"
  assumes inv: "pool_inv s ns xs" and E: "calls_succeed E" and num: "num \<noteq> 0"
    and bound: "unat (total_size s) + round_up (unat num - length xs) < 2 ^ 32"
    and small: "unat num \<le> 2 ^ 30"
  shows "\<exists>v s' ns' xs' cs. alloc_chunk_array E t did num s = Inr (v, s') \<and>
    pool_inv s' ns' xs' \<and> length cs = unat num \<and> distinct cs \<and>
    set cs \<subseteq> set (chunk_addrs ns') - set xs' \<and>
    set (chunk_addrs ns) \<subseteq> set (chunk_addrs ns') \<and> set (chunk_addrs ns) - set xs = set (chunk_addrs ns') - set xs' - set cs \<and>
    varrays s' = (varrays s)(v \<mapsto> \<lparr>va_transport = Some t, va_data_id = did, va_len = 0,
      va_size = num, va_data = map Some cs\<rparr>) \<and>
    header_of s' = header_of s \<and> body_of s' = body_of s \<and> work_chunks s' = work_chunks s \<and>
    transports s' = transports s \<and> recv_calls s' = recv_calls s \<and> send_calls s' = send_calls s \<and>
    pool_pushes s' = pool_pushes s \<and> deliveries s' = deliveries s \<and> fresh s \<le> v \<and> v < fresh s' \<and>
    unat (total_size s') \<le> unat (total_size s) + round_up (unat num - length xs) \<and> rt.more s' = rt.more s"
proof -
  obtain p s1 where get: "get_rdma_chunk_list_from_pool (env_os E) num s = Inr (Some p, s1)"
    using get_list_succeeds[OF inv E num bound small] by blast
  obtain ns' xs' cs where c: "pool_inv s1 ns' xs'" "chain (next_of s1) (Some p) cs"
      "length cs = unat num" "set cs \<subseteq> set (chunk_addrs ns') - set xs'"
      "set (chunk_addrs ns) \<subseteq> set (chunk_addrs ns')" "set (chunk_addrs ns) - set xs = set (chunk_addrs ns') - set xs' - set cs"
    using taken_from_pool[OF inv bound get] by blast
  note frame = get_list_frame[OF get] rt_fields_cong[OF get_list_frame(3)[OF get]]
  let ?v = "fresh s1"
  let ?va = "\<lparr>va_transport = Some t, va_data_id = did, va_len = 0, va_size = num,
    va_data = replicate (length cs) None\<rparr>"
  let ?s2 = "s1\<lparr>fresh := Suc ?v, varrays := (varrays s1)(?v \<mapsto> ?va)\<rparr>"
  have live: "list_all (chunk_live ?s2) cs"
    using c(4) pool_invD(9)[OF c(1)] by (auto simp: list_all_iff chunk_live_def)
  have fill: "for_loop 0 (length cs) (fill_turn ?v) (?s2, Some p)
      = Inr (?s2\<lparr>varrays := (varrays ?s2)(?v \<mapsto> ?va\<lparr>va_data := map Some cs\<rparr>)\<rparr>, None)"
    using c(2) live by (intro fill_loop) simp_all
  have "alloc_chunk_array E t did num s
      = Inr (?v, ?s2\<lparr>varrays := (varrays s1)(?v \<mapsto> ?va\<lparr>va_data := map Some cs\<rparr>)\<rparr>)"
    using fill E
    by (simp add: alloc_chunk_array_def get VARRY_MALLOC0_def varray_at_def c(3))
  moreover have "pool_inv (s1\<lparr>fresh := Suc ?v\<rparr>) ns' xs'"
    using c(1) by (rule pool_inv_cong) simp_all
  ultimately show ?thesis
    using c frame chain_distinct[OF c(2)] get_list_total[OF inv bound get]
    by (intro exI[of _ ?v] exI[of _ "?s2\<lparr>varrays := (varrays s1)(?v \<mapsto> ?va\<lparr>va_data := map Some cs\<rparr>)\<rparr>"]
        exI[of _ ns'] exI[of _ xs'] exI[of _ cs]) simp
qed

section \<open>Posting the sends\<close>

text \<open>What turn \<open>i\<close> of \<open>rdma_send_msg\<close> posts for a message of \<open>len\<close> bytes.\<close>

definition frame_len :: "nat \<Rightarrow> nat \<Rightarrow> nat" where
  "frame_len n i = min body_size (n - i * body_size)"

definition posted_wr :: "('q, 'z) rt_scheme \<Rightarrow> nat \<Rightarrow> caddr list \<Rightarrow> nat \<Rightarrow> send_wr" where
  "posted_wr s n cs i =
     \<lparr>wr_id = fresh s + i, sg_addr = cs ! i, sg_length = of_nat (frame_len n i) + RDMA_HEADER_SIZE,
      sg_lkey = lkey (mr_of s (cs ! i)), num_sge = 1,
      wr_opcode = IBV_WR_SEND, send_flags = [IBV_SEND_SIGNALED]\<rparr>"

definition posted_wc :: "('q, 'z) rt_scheme \<Rightarrow> nat \<Rightarrow> nat \<Rightarrow> caddr list \<Rightarrow> nat \<Rightarrow> rdma_work_chunk" where
  "posted_wc s t n cs i =
     \<lparr>wc_transport = t, wc_chunk = Some (cs ! i), wc_len = of_nat (frame_len n i)\<rparr>"

text \<open>The state after \<open>k\<close> turns.\<close>

definition sent ::
  "env \<Rightarrow> nat \<Rightarrow> nat \<Rightarrow> nat \<Rightarrow> caddr list \<Rightarrow> nat \<Rightarrow> ('q, 'z) rt_scheme \<Rightarrow> ('q, 'z) rt_scheme" where
  "sent E qp t n cs k s =
     s\<lparr>fresh := fresh s + k,
       work_chunks := (\<lambda>w. if fresh s \<le> w \<and> w < fresh s + k then Some (posted_wc s t n cs (w - fresh s))
                           else work_chunks s w),
       send_calls := send_calls s @ map (\<lambda>i. (qp, posted_wr s n cs i,
          ibv_post_send E (length (send_calls s) + i) qp (posted_wr s n cs i))) [0..<k]\<rparr>"

lemma sent_0: "sent E qp t n cs 0 s = s"
proof -
  have "(\<lambda>w. if fresh s \<le> w \<and> w < fresh s + 0 then Some (posted_wc s t n cs (w - fresh s))
      else work_chunks s w) = work_chunks s" by (auto simp: fun_eq_iff)
  then show ?thesis unfolding sent_def by simp
qed

lemma rdma_send_msg_sent:
  assumes va: "varrays s v = Some va" "va_transport va = Some t" and arr: "chunk_array s va cs"
    and tr: "transports s t = Some tr" "rc_qp tr = Some qp" and E: "calls_succeed E"
    and n: "length cs = frame_count (unat len)"
  shows "rdma_send_msg E v len s = Inr (sent E qp t (unat len) cs (length cs) s)"
proof -
  let ?P = "\<lambda>i (s', len'). s' = sent E qp t (unat len) cs i s
    \<and> (i < length cs \<longrightarrow> unat (len' :: u32) = unat len - i * body_size)"
  note arr = chunk_arrayD[OF arr]
  have "\<exists>s'. for_loop 0 (length cs) (send_turn E t va) (s, len) = Inr s' \<and> ?P (0 + length cs) s'"
  proof (rule for_loop_rule)
    show "?P 0 (s, len)" by (simp add: sent_0)
  next
    fix i st assume i: "i < 0 + length cs" and P: "?P i st"
    obtain s1 l where st: "st = (s1, l)" by (cases st)
    with P i have s1: "s1 = sent E qp t (unat len) cs i s" and l: "unat l = unat len - i * body_size"
      by auto
    have "unat (chunk_copy_len l) = frame_len (unat len) i"
      by (simp add: unat_chunk_copy_len l frame_len_def)
    then have cl: "chunk_copy_len l = of_nat (frame_len (unat len) i)"
      by (metis of_nat_unat ucast_id)
    have "chunk_live s (cs ! i)" using i arr(4) by simp
    then have "send_turn E t va i (s1, l) = Inr (sent E qp t (unat len) cs (Suc i) s, l - RDMA_BODY_SIZE)"
      using i arr(1) tr E
      by (simp add: send_turn_def load_data_def s1 sent_def rdma_transport_send_def work_chunk_at_def
          chunk_at_def chunk_live_def transport_at_def cl posted_wr_def posted_wc_def Let_def
          fun_eq_iff less_Suc_eq)
    moreover have "unat (l - RDMA_BODY_SIZE) = unat len - Suc i * body_size" if "Suc i < length cs"
    proof -
      have "Suc i * body_size < unat len" using that n by (intro frame_start_less) simp
      then show ?thesis
        using l by (simp add: unat_sub word_le_nat_alt body_size_def)
    qed
    ultimately show "\<exists>st'. send_turn E t va i st = Inr st' \<and> ?P (Suc i) st'"
      by (simp add: st)
  qed
  then show ?thesis
    using arr(2) va by (auto simp: rdma_send_msg_def varray_at_def)
qed
section \<open>A whole message\<close>

text \<open>The bytes that the adapter reads from memory for a posted send.\<close>

definition wire_of :: "('q, 'z) rt_scheme \<Rightarrow> send_wr \<Rightarrow> u8 list" where
  "wire_of s wr = wire_bytes (header_of s (sg_addr wr)) (body_of s (sg_addr wr))
     (unat (sg_length wr) - unat RDMA_HEADER_SIZE)"

text \<open>The bytes of frame \<open>i\<close> of a payload.\<close>

definition frame_wire :: "u32 \<Rightarrow> u8 list \<Rightarrow> nat \<Rightarrow> u8 list" where
  "frame_wire did p i = header_bytes (frame_header did p i) @ frame_bytes p i"

lemma unat_posted_length:
  "unat (of_nat (frame_len n i) + RDMA_HEADER_SIZE) = frame_len n i + 21"
proof -
  have "frame_len n i \<le> 65515" by (simp add: frame_len_def body_size_def)
  then have "unat (of_nat (frame_len n i) :: u32) = frame_len n i" "frame_len n i + 21 < 2 ^ 32"
    by (simp_all add: unat_of_nat_small)
  then show ?thesis by (simp add: unat_plus_if' )
qed

lemma frame_len_length: "length p = n \<Longrightarrow> frame_len n i = length (frame_bytes p i)"
  by (simp add: frame_len_def length_frame_bytes)

lemma pool_inv_put_frame [simp]: "pool_inv (put_frame a h bs s) ns xs = pool_inv s ns xs"
  by (auto simp: put_frame_def elim!: pool_inv_cong)

lemma framed_fields [simp]:
  "pool_inv (framed did p cs k s) ns xs = pool_inv s ns xs"
  "next_of (framed did p cs k s) = next_of s"
  "total_size (framed did p cs k s) = total_size s"
  "mr_of (framed did p cs k s) = mr_of s"
  "fresh (framed did p cs k s) = fresh s"
  "mem.more (framed did p cs k s) = mem.more s"
proof -
  show "pool_inv (framed did p cs k s) ns xs = pool_inv s ns xs"
    by (induction k) simp_all
qed (induction k; simp add: put_frame_def)+

lemmas framed_rt [simp] = rt_fields_cong[OF framed_fields(6)]

lemma chunk_array_framed [simp]: "chunk_array (framed did p cs' k s) va cs = chunk_array s va cs"
  by (simp add: chunk_array_def list_all_iff)

lemma wire_of_framed:
  assumes "distinct cs" "i < length cs" "length p = n"
  shows "wire_of (framed did p cs (length cs) s) (posted_wr s' n cs i) = frame_wire did p i"
proof -
  have "unat (of_nat (length (frame_bytes p i)) + RDMA_HEADER_SIZE) = length (frame_bytes p i) + 21"
    using unat_posted_length[of n i] by (simp add: frame_len_length[OF assms(3)])
  then show ?thesis
    using header_of_framed(1)[OF assms(1) order_refl assms(2), of did p s]
      body_bytes_framed[OF assms(1) order_refl assms(2), of did p s]
    by (simp add: wire_of_def wire_bytes_def posted_wr_def frame_len_length[OF assms(3)] frame_wire_def)
qed

lemma frame_count_small: "frame_count (unat (len :: u32)) \<le> 2 ^ 30"
proof -
  have "frame_count (unat len) * body_size < 2 ^ 32 + body_size"
    using frame_count_bounds(2)[of "unat len"] unat_u32_less[of len] by simp
  then show ?thesis by (simp add: body_size_def)
qed

lemma wire_of_cong:
  "header_of s' = header_of s \<Longrightarrow> body_of s' = body_of s \<Longrightarrow> wire_of s' wr = wire_of s wr"
  by (simp add: wire_of_def)

lemma sent_fields [simp]:
  "header_of (sent E qp t n cs k s) = header_of s" "body_of (sent E qp t n cs k s) = body_of s"
  "transports (sent E qp t n cs k s) = transports s" "varrays (sent E qp t n cs k s) = varrays s"
  "rt.more (sent E qp t n cs k s) = rt.more s"
  "pool_inv s ns xs \<Longrightarrow> pool_inv (sent E qp t n cs k s) ns xs"
  by (auto simp: sent_def elim!: pool_inv_cong)

lemma work_chunks_sent:
  "i < k \<Longrightarrow> work_chunks (sent E qp t n cs k s) (wr_id (posted_wr s n cs i)) = Some (posted_wc s t n cs i)"
  by (simp add: sent_def posted_wr_def)

text \<open>
  What a caller of \<open>send_msg\<close> gets: the frames of the message are posted on the queue pair of the
  transport, in order, each with the bytes of its header and its part of the message and with a
  work chunk of its own; the chunks are taken from the pool and are out, and no other chunk is
  written; the pool grows by no more than is needed; the data id moves on; the array is freed; what
  else there is in the process stays as it is.
\<close>

definition message_posted ::
  "env \<Rightarrow> nat \<Rightarrow> nat \<Rightarrow> 'q rdma_transport \<Rightarrow> u8 list \<Rightarrow> node list \<Rightarrow> caddr list
     \<Rightarrow> ('q, 'z) rt_scheme \<Rightarrow> ('q, 'z) rt_scheme \<Rightarrow> bool" where
  "message_posted E t qp tr p ns xs s s' \<longleftrightarrow>
     (\<exists>ns' xs' cs new v.
        pool_inv s' ns' xs' \<and> distinct cs \<and> set cs \<subseteq> set (chunk_addrs ns') - set xs' \<and>
        set (chunk_addrs ns) \<subseteq> set (chunk_addrs ns') \<and> set (chunk_addrs ns) - set xs = set (chunk_addrs ns') - set xs' - set cs \<and>
        (\<forall>a. a \<notin> set cs \<longrightarrow> header_of s' a = header_of s a \<and> body_of s' a = body_of s a) \<and>
        unat (total_size s') \<le> unat (total_size s) + round_up (frame_count (length p) - length xs) \<and>
        send_calls s' = send_calls s @ new \<and>
        map (\<lambda>(q, wr, rc). (q, wire_of s' wr)) new
          = map (\<lambda>i. (qp, frame_wire (tr_data_id tr) p i)) [0..<frame_count (length p)] \<and>
        map (\<lambda>(q, wr, rc). map_option wc_chunk (work_chunks s' (wr_id wr))) new = map (Some \<circ> Some) cs \<and>
        map (\<lambda>(q, wr, rc). sg_addr wr) new = cs \<and>
        list_all (\<lambda>(k, q, wr, rc). rc = ibv_post_send E (length (send_calls s) + k) q wr) (enumerate 0 new) \<and>
        transports s' = (transports s)(t \<mapsto> tr\<lparr>tr_data_id := tr_data_id tr + 1\<rparr>) \<and>
        varrays s' = (varrays s)(v := None) \<and> fresh s \<le> v \<and> fresh s \<le> fresh s' \<and>
        (\<forall>w < fresh s. work_chunks s' w = work_chunks s w) \<and> recv_calls s' = recv_calls s \<and>
        pool_pushes s' = pool_pushes s \<and> deliveries s' = deliveries s \<and> rt.more s' = rt.more s)"

lemma send_array_posted:
  fixes s :: "('q, 'z) rt_scheme"
  assumes inv: "pool_inv s ns xs" and E: "calls_succeed E"
    and tr: "transports s t = Some tr" "rc_qp tr = Some qp"
    and len: "len \<noteq> 0" "length p = unat len"
    and bound: "unat (total_size s) + round_up (frame_count (unat len) - length xs) < 2 ^ 32"
    and copy: "\<And>v va cs s2 :: ('q, 'z) rt_scheme. varrays s2 v = Some va \<Longrightarrow> chunk_array s2 va cs \<Longrightarrow>
      length cs = frame_count (unat len) \<Longrightarrow> copy v s2 = Inr (framed (va_data_id va) p cs (length cs) s2)"
  shows "\<exists>s'. bind_res (take_data_id t s) (\<lambda>(did, s1).
      bind_res (alloc_chunk_array E t did (chunk_count len) s1) (\<lambda>(v, s2).
      bind_res (copy v s2) (\<lambda>s3. bind_res (rdma_send_msg E v len s3) (\<lambda>s4.
        Inr (0 :: int, s4\<lparr>varrays := (varrays s4)(v := None)\<rparr>))))) = Inr (0, s') \<and>
    message_posted E t qp tr p ns xs s s'"
proof -
  let ?did = "tr_data_id tr" and ?n = "frame_count (unat len)"
  let ?tr = "tr\<lparr>tr_data_id := ?did + 1\<rparr>"
  let ?s1 = "s\<lparr>transports := (transports s)(t \<mapsto> ?tr)\<rparr>"
  have pos: "0 < unat len" using len(1) by (simp add: unat_gt_0)
  have num: "unat (chunk_count len) = ?n" "chunk_count len \<noteq> 0"
    using frame_count_pos[OF pos] chunk_count_eq[of len] unat_gt_0[of "chunk_count len"] by simp_all
  have did: "take_data_id t s = Inr (?did, ?s1)"
    by (simp add: take_data_id_def transport_at_def tr)
  have "pool_inv ?s1 ns xs" using inv by simp
  from alloc_chunk_array_spec[OF this E num(2), of t ?did] bound frame_count_small[of len]
  obtain v s2 ns' xs' cs where a: "alloc_chunk_array E t ?did (chunk_count len) ?s1 = Inr (v, s2)"
      "pool_inv s2 ns' xs'" "length cs = ?n" "distinct cs" "set cs \<subseteq> set (chunk_addrs ns') - set xs'"
      "set (chunk_addrs ns) - set xs = set (chunk_addrs ns') - set xs' - set cs"
      "varrays s2 = (varrays s)(v \<mapsto> \<lparr>va_transport = Some t, va_data_id = ?did, va_len = 0,
        va_size = chunk_count len, va_data = map Some cs\<rparr>)"
      "transports s2 = (transports s)(t \<mapsto> ?tr)" "send_calls s2 = send_calls s"
      "header_of s2 = header_of s" "body_of s2 = body_of s"
      "unat (total_size s2) \<le> unat (total_size s) + round_up (?n - length xs)" "rt.more s2 = rt.more s"
    and fr: "fresh s \<le> v" "v < fresh s2" "work_chunks s2 = work_chunks s" "recv_calls s2 = recv_calls s"
      "pool_pushes s2 = pool_pushes s" "deliveries s2 = deliveries s"
      "set (chunk_addrs ns) \<subseteq> set (chunk_addrs ns')"
    by (auto simp: num(1))
  let ?va = "\<lparr>va_transport = Some t, va_data_id = ?did, va_len = 0,
        va_size = chunk_count len, va_data = map Some cs\<rparr>"
  have arr: "chunk_array s2 ?va cs"
    using a(3-5) pool_invD(9)[OF a(2)] by (auto simp: chunk_array_def num list_all_iff)
  let ?s3 = "framed ?did p cs (length cs) s2"
  have "copy v s2 = Inr ?s3"
    using copy[OF _ arr a(3)] a(7) by simp
  moreover have "rdma_send_msg E v len ?s3 = Inr (sent E qp t (unat len) cs (length cs) ?s3)"
    using a arr tr E by (intro rdma_send_msg_sent[where va = ?va and tr = ?tr]) simp_all
  moreover define s' where "s' = (sent E qp t (unat len) cs (length cs) ?s3)\<lparr>varrays := (varrays s2)(v := None)\<rparr>"
  ultimately have ret: "bind_res (take_data_id t s) (\<lambda>(did, s1).
      bind_res (alloc_chunk_array E t did (chunk_count len) s1) (\<lambda>(v, s2).
      bind_res (copy v s2) (\<lambda>s3. bind_res (rdma_send_msg E v len s3) (\<lambda>s4.
        Inr (0 :: int, s4\<lparr>varrays := (varrays s4)(v := None)\<rparr>))))) = Inr (0, s')"
    by (simp add: did a(1))
  let ?new = "map (\<lambda>i. (qp, posted_wr ?s3 (unat len) cs i,
     ibv_post_send E (length (send_calls ?s3) + i) qp (posted_wr ?s3 (unat len) cs i))) [0..<length cs]"
  have "wire_of s' (posted_wr ?s3 (unat len) cs i) = frame_wire ?did p i" if "i < length cs" for i
    using wire_of_framed[OF a(4) that len(2), of ?did s2 ?s3] by (simp add: s'_def wire_of_def)
  then have wires: "map (\<lambda>(q, wr, rc). (q, wire_of s' wr)) ?new
      = map (\<lambda>i. (qp, frame_wire ?did p i)) [0..<?n]"
    using a(3) by (simp add: o_def)
  have wcs: "map (\<lambda>(q, wr, rc). map_option wc_chunk (work_chunks s' (wr_id wr))) ?new = map (Some \<circ> Some) cs"
    by (rule nth_equalityI) (simp_all add: s'_def work_chunks_sent, simp add: posted_wc_def)
  have addrs: "map (\<lambda>(q, wr, rc). sg_addr wr) ?new = cs"
    by (rule nth_equalityI) (simp_all add: posted_wr_def)
  have rcs: "list_all (\<lambda>(k, q, wr, rc). rc = ibv_post_send E (length (send_calls s) + k) q wr)
      (enumerate 0 ?new)"
    by (simp add: list_all_length nth_enumerate_eq a(9))
  have "send_calls s' = send_calls s @ ?new" by (simp add: s'_def sent_def a(9))
  moreover have "pool_inv s' ns' xs'" using a(2) by (simp add: s'_def)
  moreover have "transports s' = (transports s)(t \<mapsto> ?tr)" "varrays s' = (varrays s)(v := None)"
    using a(7,8) by (simp_all add: s'_def)
  moreover have "header_of s' a = header_of s a \<and> body_of s' a = body_of s a" if "a \<notin> set cs" for a
    using that by (simp add: s'_def header_of_framed(2)[OF a(4)] body_of_framed(2)[OF a(4)] a(10,11))
  moreover have "unat (total_size s') \<le> unat (total_size s) + round_up (frame_count (length p) - length xs)"
    using a(12) len(2) by (simp add: s'_def sent_def)
  moreover have "rt.more s' = rt.more s" by (simp add: s'_def a(13))
  moreover have "fresh s \<le> fresh s'" "\<forall>w < fresh s. work_chunks s' w = work_chunks s w"
      "recv_calls s' = recv_calls s" "pool_pushes s' = pool_pushes s" "deliveries s' = deliveries s"
    using fr by (simp_all add: s'_def sent_def)
  ultimately have "message_posted E t qp tr p ns xs s s'"
    using a(4-6) fr(1,7) wires wcs addrs rcs len(2) unfolding message_posted_def
    by (intro exI[of _ ns'] exI[of _ xs'] exI[of _ cs] exI[of _ ?new] exI[of _ v]) simp
  with ret show ?thesis by blast
qed
lemma send_msg_on_ok:
  assumes "pool_inv s ns xs" and "calls_succeed E"
    and "transports s t = Some tr" and "rc_qp tr = Some qp"
    and "len \<noteq> 0" and "unat len \<le> length msg"
    and "unat (total_size s) + round_up (unat (chunk_count len) - length xs) < 2 ^ 32"
  shows "\<exists>s'. send_msg_on E t msg len s = Inr (0, s') \<and>
    message_posted E t qp tr (take (unat len) msg) ns xs s s'"
  unfolding send_msg_on_def using assms copy_msg_to_rdma_framed
  by (intro send_array_posted) (auto simp: chunk_count_eq)

text \<open>
  C13: Sending a message: with a live transport, room in the pool and calls that do not report a
  negative value, \<open>send_msg\<close> returns 0 and has posted the frames of exactly the first \<open>len\<close> bytes
  of the buffer, in order, from chunks that nobody else holds; it never faults on the way.
\<close>

theorem send_msg_posts_message:
  assumes "pool_inv s ns xs" and "calls_succeed E"
    and "transports s t = Some tr" and "rc_qp tr = Some qp"
    and "len \<noteq> 0" and "unat len \<le> length msg"
    and "unat (total_size s) + round_up (unat (chunk_count len) - length xs) < 2 ^ 32"
  shows "\<exists>s'. send_msg_on E t msg len s = Inr (0, s') \<and>
    message_posted E t qp tr (take (unat len) msg) ns xs s s'"
  using assms by (rule send_msg_on_ok)

lemma send_msg_with_header_on_ok:
  assumes "pool_inv s ns xs" and "calls_succeed E"
    and "transports s t = Some tr" and "rc_qp tr = Some qp"
    and "unat hl + unat bl < 2 ^ 32" and "hl + bl \<noteq> 0"
    and "unat hl \<le> length header" and "unat bl \<le> length body"
    and "unat (total_size s) + round_up (unat (chunk_count (hl + bl)) - length xs) < 2 ^ 32"
  shows "\<exists>s'. send_msg_with_header_on E t header hl body bl s = Inr (0, s') \<and>
    message_posted E t qp tr (take (unat hl) header @ take (unat bl) body) ns xs s s'"
proof -
  have len: "unat (hl + bl) = unat hl + unat bl" using assms(5) by (simp add: unat_plus_if')
  show ?thesis
    unfolding send_msg_with_header_on_def Let_def
    using assms len copy_header_and_body_to_rdma_framed
    by (intro send_array_posted) (auto simp: chunk_count_eq)
qed

text \<open>
  Sending a header and a body: the same for the bytes of the header followed by those of the
  body, when the sum of the lengths does not wrap.
\<close>

lemma send_msg_with_header_posts_message:
  assumes "pool_inv s ns xs" and "calls_succeed E"
    and "transports s t = Some tr" and "rc_qp tr = Some qp"
    and "unat hl + unat bl < 2 ^ 32" and "hl + bl \<noteq> 0"
    and "unat hl \<le> length header" and "unat bl \<le> length body"
    and "unat (total_size s) + round_up (unat (chunk_count (hl + bl)) - length xs) < 2 ^ 32"
  shows "\<exists>s'. send_msg_with_header_on E t header hl body bl s = Inr (0, s') \<and>
    message_posted E t qp tr (take (unat hl) header @ take (unat bl) body) ns xs s s'"
  using assms by (rule send_msg_with_header_on_ok)

lemma store_frame_wire:
  "store_bytes (frame_wire did p i) c =
     (frame_header did p i, \<lambda>j. if j < length (frame_bytes p i) then frame_bytes p i ! j else snd c j)"
proof -
  have "frame_wire did p i
      = wire_bytes (frame_header did p i) (\<lambda>j. frame_bytes p i ! j) (length (frame_bytes p i))"
    by (simp add: frame_wire_def wire_bytes_def map_nth)
  then show ?thesis by (simp only: store_wire_bytes)
qed


text \<open>
  An empty message is not sent: there is no chunk to put it in, and the process aborts after
  it has used up a data id.
\<close>

lemma send_empty_message_aborts:
  assumes "transports s t = Some tr"
  shows "send_msg_on E t msg 0 s = Inl Aborted \<and>
    send_msg_with_header_on E t header hl body (- hl) s = Inl Aborted"
  using assms
  by (simp add: send_msg_on_def send_msg_with_header_on_def take_data_id_def transport_at_def
      alloc_chunk_array_def get_rdma_chunk_list_from_pool_def chunk_count_def)

text \<open>
  C40: A send that the verbs refuse goes unnoticed: they report the error as a positive \<open>errno\<close>
  value, the code tests for a negative one, and \<open>send_msg\<close> returns 0 although no frame was sent.
\<close>

theorem refused_send_reported_as_success:
  assumes "pool_inv s ns xs" and "calls_succeed E" and "\<And>k q wr. ibv_post_send E k q wr = 12"
    and "transports s t = Some tr" and "rc_qp tr = Some qp"
    and "len \<noteq> 0" and "unat len \<le> length msg"
    and "unat (total_size s) + round_up (unat (chunk_count len) - length xs) < 2 ^ 32"
  shows "\<exists>s' new. send_msg_on E t msg len s = Inr (0, s') \<and> send_calls s' = send_calls s @ new \<and>
    length new = unat (chunk_count len) \<and> list_all (\<lambda>(q, wr, rc). rc = 12) new"
proof -
  obtain s' where s': "send_msg_on E t msg len s = Inr (0, s')"
      and m: "message_posted E t qp tr (take (unat len) msg) ns xs s s'"
    using send_msg_on_ok[OF assms(1,2,4-8)] by blast
  from m obtain new where n: "send_calls s' = send_calls s @ new"
      "map (\<lambda>(q, wr, rc). (q, wire_of s' wr)) new
        = map (\<lambda>i. (qp, frame_wire (tr_data_id tr) (take (unat len) msg) i)) [0..<frame_count (unat len)]"
      "list_all (\<lambda>(k, q, wr, rc). rc = ibv_post_send E (length (send_calls s) + k) q wr) (enumerate 0 new)"
    using assms(7) by (auto simp: message_posted_def)
  have "length new = frame_count (unat len)" using arg_cong[OF n(2), of length] by simp
  moreover have "list_all (\<lambda>(q, wr, rc). rc = 12) new"
    using n(3) assms(3) by (auto simp: list_all_length nth_enumerate_eq split: prod.splits)
  ultimately show ?thesis using s' n(1) by (auto simp: chunk_count_eq)
qed

section \<open>Sending from the demo process\<close>

theorem send_msg_posts_message_witness:
  "\<exists>s'. send_msg_on demo_env 0 [1, 2, 3] 3 demo_rt = Inr (0, s') \<and>
     message_posted demo_env 0 5 demo_transport [1, 2, 3] [(0, 1, 4096)] (block_addrs 1 4096) demo_rt s'"
  using send_msg_posts_message[OF demo_rt_inv demo_calls, of 0 demo_transport 5 3 "[1, 2, 3]"] demo_room[of 1]
  by simp

lemma send_msg_with_header_posts_message_example:
  "\<exists>s'. send_msg_with_header_on demo_env 0 [1, 2] 2 [3] 1 demo_rt = Inr (0, s') \<and>
     message_posted demo_env 0 5 demo_transport [1, 2, 3] [(0, 1, 4096)] (block_addrs 1 4096) demo_rt s'"
  using send_msg_with_header_posts_message[OF demo_rt_inv demo_calls, of 0 demo_transport 5 2 1 "[1, 2]" "[3]"]
    demo_room[of 1]
  by simp


lemma send_empty_message_aborts_example:
  "send_msg_on demo_env 0 [1, 2] 0 demo_rt = Inl Aborted"
  using send_empty_message_aborts[of demo_rt 0 demo_transport demo_env "[1, 2]" "[]" 0 "[]"] by simp

definition refusing_env :: env where
  "refusing_env = demo_env\<lparr>ibv_post_send := \<lambda>_ _ _. 12\<rparr>"

theorem refused_send_reported_as_success_witness:
  "\<exists>s' new. send_msg_on refusing_env 0 [1, 2, 3] 3 demo_rt = Inr (0, s') \<and> send_calls s' = new \<and>
     length new = 1 \<and> list_all (\<lambda>(q, wr, rc). rc = 12) new"
proof -
  have "calls_succeed refusing_env"
    using demo_calls by (simp add: calls_succeed_def refusing_env_def)
  from refused_send_reported_as_success[OF demo_rt_inv this, of 0 demo_transport 5 3 "[1, 2, 3]"]
  show ?thesis using demo_room[of 1] by (simp add: refusing_env_def)
qed

end
