(* ===== verification/Client_Connect.thy ===== *)
theory Client_Connect
  imports Connection_Threads Client_Message
begin

text \<open>
  \<open>get_transport_from_ip\<close>, \<open>send_msg\<close> and \<open>send_msg_with_header\<close> of
  \<open>src/rdma_transport_client.c\<close> as they run in one thread, from the host name to the result.
  \<open>Connection_Threads\<close> interleaves their sections with those of other threads.
\<close>

section \<open>The functions\<close>

text \<open>What the peer and the sockets do: the exchange, the number of a queue pair, \<open>socket\<close>, \<open>connect\<close>.\<close>

record peer =
  px_exchange :: exchange_calls
  px_qp_num :: "nat \<Rightarrow> u32"
  px_socket :: int
  px_connect :: "u16 \<Rightarrow> string \<Rightarrow> int"

definition ready_transport :: "nat \<Rightarrow> ('q, 'z) rt_scheme \<Rightarrow> (nat \<times> ('q, 'z) rt_scheme) res" where
  "ready_transport t s =
     bind_res (transport_at s t) (\<lambda>tr. bind_res (GPR_ASSERT (is_ready tr = 1)) (\<lambda>_. Inr (t, s)))"

text \<open>
  \<open>get_transport_from_ip\<close>. \<open>None\<close> is a call that does not return: it polls \<open>is_ready\<close>, which no
  other thread sets here.
\<close>

definition get_transport_from_ip ::
  "'q gqueue_ops \<Rightarrow> env \<Rightarrow> 'q net \<Rightarrow> peer \<Rightarrow> string \<Rightarrow> u16 \<Rightarrow> ('q, 'z) conn_rt_scheme
    \<Rightarrow> (nat \<times> ('q, 'z) conn_rt_scheme) res option" where
  "get_transport_from_ip Q E V P host port s =
     (case find_transport E V host s of
        Inl e \<Rightarrow> Some (Inl e)
      | Inr (Set_up, client, remote_ip_str, s1) \<Rightarrow>
          Some (bind_res (create_once Q E V client s1) (\<lambda>s2.
            bind_res (connect_server V (px_exchange P) (px_qp_num P) (px_socket P) (px_connect P)
              remote_ip_str port s2) (\<lambda>(rc, s3).
            if rc < 0 then Inl Aborted
            else bind_res (complete_once V client s3) (ready_transport client))))
      | Inr (Wait_ready, client, _, s1) \<Rightarrow> None
      | Inr (Use, client, _, s1) \<Rightarrow> Some (ready_transport client s1))"

definition send_msg ::
  "'q gqueue_ops \<Rightarrow> env \<Rightarrow> 'q net \<Rightarrow> peer \<Rightarrow> string \<Rightarrow> u16 \<Rightarrow> u8 list \<Rightarrow> u32 \<Rightarrow> ('q, 'z) conn_rt_scheme
    \<Rightarrow> (int \<times> ('q, 'z) conn_rt_scheme) res option" where
  "send_msg Q E V P host port msg len s =
     map_option (\<lambda>r. bind_res r (\<lambda>(client, s1). send_msg_on E client msg len s1))
       (get_transport_from_ip Q E V P host port s)"

definition send_msg_with_header ::
  "'q gqueue_ops \<Rightarrow> env \<Rightarrow> 'q net \<Rightarrow> peer \<Rightarrow> string \<Rightarrow> u16 \<Rightarrow> u8 list \<Rightarrow> u32 \<Rightarrow> u8 list \<Rightarrow> u32
    \<Rightarrow> ('q, 'z) conn_rt_scheme \<Rightarrow> (int \<times> ('q, 'z) conn_rt_scheme) res option" where
  "send_msg_with_header Q E V P host port header head_len body body_len s =
     map_option (\<lambda>r. bind_res r (\<lambda>(client, s1).
         send_msg_with_header_on E client header head_len body body_len s1))
       (get_transport_from_ip Q E V P host port s)"

section \<open>The first message to a host\<close>

definition net_succeeds :: "'q net \<Rightarrow> bool" where
  "net_succeeds V \<longleftrightarrow>
     (\<forall>t. v_comp_channel V t \<noteq> None \<and> v_cq V t \<noteq> None \<and> 0 \<le> v_notify V t \<and>
        0 \<le> fst (v_poll_thread V t) \<and> snd (v_poll_thread V t) \<noteq> None \<and>
        0 \<le> fst (v_handle_thread V t) \<and> snd (v_handle_thread V t) \<noteq> None \<and> v_qp V t \<noteq> None) \<and>
     (\<forall>n qp c. 0 \<le> v_modify V n qp c)"

text \<open>The addresses fit into their buffers, and no connection to the host is in the tables.\<close>

definition new_host :: "'q net \<Rightarrow> string \<Rightarrow> string \<Rightarrow> string \<Rightarrow> ('q, 'z) conn_rt_scheme \<Rightarrow> bool" where
  "new_host V host ip local s \<longleftrightarrow>
     resolve V host = Some ip \<and> length host < IP_CHAR_SIZE \<and> length ip < IP_CHAR_SIZE \<and>
     (\<exists>h. host_name V = Some h \<and> resolve V h = Some local) \<and> length local < IP_CHAR_SIZE \<and>
     map_of (host2ipstr s) host = None \<and> lookup_ip V (hash_table s) ip = None"

text \<open>The peer accepts and answers with the attributes \<open>a\<close>; the local port has the id \<open>l\<close>.\<close>

definition peer_answers :: "peer \<Rightarrow> u16 \<Rightarrow> qp_attr \<Rightarrow> bool" where
  "peer_answers P l a \<longleftrightarrow> 0 \<le> px_socket P \<and> (\<forall>port ip. 0 \<le> px_connect P port ip) \<and>
     get_local_lid (px_exchange P) = Inr l \<and> 0 \<le> write_rc (px_exchange P) \<and> 0 \<le> read_rc (px_exchange P) \<and>
     (\<exists>tmp. length tmp = sizeof_qp_attr \<and> read_got (px_exchange P) = fill_tmp a tmp)"

lemma create_thread_ok:
  "0 \<le> fst c \<Longrightarrow> snd c \<noteq> None \<Longrightarrow> \<exists>pid. create_thread c = Inr pid"
  by (cases c) (auto simp: create_thread_def)

lemma find_new_host:
  assumes E: "calls_succeed E" and h: "new_host V host ip local s"
  shows "find_transport E V host s = Inr (Set_up, fresh s + 4, ip,
    s\<lparr>host2ipstr := host2ipstr s @ [(host, ip)], fresh := fresh s + 5,
      transports := (transports s)(fresh s + 4 \<mapsto> (zero_transport V)\<lparr>remote_ip := ip, local_ip := local\<rparr>),
      hash_table := hash_table s @ [(ip, fresh s + 4)]\<rparr>)"
proof -
  have m: "malloc (env_os E) n s' = (Some (fresh s'), s'\<lparr>fresh := Suc (fresh s')\<rparr>)"
    for n and s' :: "('a, 'z) conn_rt_scheme"
    using E by (simp add: malloc_def)
  show ?thesis
    using h
    by (auto simp: new_host_def find_transport_def remote_ip_of_def calloc_ip_def m strcpy_buf_def
        set_ip_from_host_def read_str_def new_transport_def set_local_ip_def insert_entry_def
        transport_at_def numeral_eq_Suc)
qed

lemma create_once_new:
  fixes s :: "('q, 'z) conn_rt_scheme"
  assumes E: "calls_succeed E" and V: "net_succeeds V" and inv: "pool_inv s ns xs"
    and room: "unat (total_size s) + round_up (1024 - length xs) < 2 ^ 32"
    and tr: "transports s t = Some tr" "rc_qp tr = None"
  shows "\<exists>s' tr' qp rc. create_once Q E V t s = Inr s' \<and> v_qp V t = Some qp \<and> rc_qp tr' = Some qp \<and>
    is_ready tr' = is_ready tr \<and> remote_ip tr' = remote_ip tr \<and> tr_data_id tr' = tr_data_id tr \<and>
    hash_table s' = hash_table s \<and> host2ipstr s' = host2ipstr s \<and>
    qp_calls s' = qp_calls s @ [(qp, init_call, rc)] \<and>
    receives_posted t qp 1024 ns xs (s\<lparr>transports := (transports s)(t \<mapsto> tr')\<rparr>) s'"
proof -
  obtain ch cq qp where v: "v_comp_channel V t = Some ch" "v_cq V t = Some cq" "v_qp V t = Some qp"
      "\<not> v_notify V t < 0" "\<not> v_modify V n q c < 0" for n q c
    using V unfolding net_succeeds_def not_less by blast
  obtain poll handle where th: "create_thread (v_poll_thread V t) = Inr poll"
      "create_thread (v_handle_thread V t) = Inr handle"
    using V create_thread_ok by (meson net_succeeds_def)
  let ?tr = "tr\<lparr>work_queue := g_queue_new Q, is_work_running := 0, handle_queue := g_queue_new Q,
    is_handle_running := 0, comp_channel := Some ch, tr_cq := Some cq, poll_pid := poll, handle_pid := handle,
    rc_qp := Some qp\<rparr>"
  let ?rc = "v_modify V (length (qp_calls s)) qp init_call"
  let ?s = "s\<lparr>transports := (transports s)(t \<mapsto> ?tr), qp_calls := qp_calls s @ [(qp, init_call, ?rc)]\<rparr>"
  have inv': "pool_inv ?s ns xs" by (rule pool_inv_cong[OF inv]) simp_all
  obtain s' where s': "rdma_transport_recv_with_num E t MAX_PRE_RECV_QP ?s = Inr s'"
      "receives_posted t qp 1024 ns xs ?s s'"
    using recv_with_num_ok[OF inv' E, of t ?tr qp MAX_PRE_RECV_QP] room by (auto simp: MAX_PRE_RECV_QP_def)
  have c: "calm ?s s'" by (rule recv_with_num_calm[OF s'(1)])
  have run: "create_once Q E V t s = Inr s'"
    using s'(1) by (simp add: create_once_def rdma_create_connect_def transport_at_def tr v th modify_qp_defs
        modify_result_def Let_def)
  have "receives_posted t qp 1024 ns xs (s\<lparr>transports := (transports s)(t \<mapsto> ?tr)\<rparr>) s'"
    using s'(2) by (simp add: receives_posted_def)
  moreover have "hash_table s' = hash_table s" "host2ipstr s' = host2ipstr s"
      "qp_calls s' = qp_calls s @ [(qp, init_call, ?rc)]"
    using c by (cases s; cases s'; simp add: calm_def)+
  ultimately show ?thesis using run v(3)
    by (intro exI[of _ s'] exI[of _ ?tr] exI[of _ qp] exI[of _ ?rc]) simp
qed

lemma exchange_answered:
  assumes "peer_answers P l a"
  shows "\<exists>msg. exchange_info (px_exchange P) n True r = Inr (0, local_attr l n, a, Some msg)"
proof -
  obtain tmp where tmp: "length tmp = sizeof_qp_attr" "read_got (px_exchange P) = fill_tmp a tmp"
    using assms by (auto simp: peer_answers_def)
  have "store_read (fill_tmp a tmp) (fill_tmp b raw_uninit) = fill_tmp a tmp" for b
    by (rule store_read_full) (simp add: length_fill_tmp raw_uninit_def tmp(1))
  then show ?thesis
    using assms tmp by (simp add: peer_answers_def exchange_info_def read_fill_tmp Let_def local_attr_def)
qed

lemma connect_answered:
  assumes P: "peer_answers P l a" and look: "lookup_ip V (hash_table s) ip = Some t"
    and tr: "transports s t = Some tr" "rc_qp tr = Some qp"
  shows "connect_server V (px_exchange P) (px_qp_num P) (px_socket P) (px_connect P) ip port s
    = Inr (0, s\<lparr>transports := (transports s)(t \<mapsto>
        tr\<lparr>local_qp_attr := local_attr l (px_qp_num P qp), remote_qp_attr := a\<rparr>)\<rparr>)"
proof -
  obtain msg where "exchange_info (px_exchange P) (px_qp_num P qp) True (remote_qp_attr tr)
      = Inr (0, local_attr l (px_qp_num P qp), a, Some msg)"
    using exchange_answered[OF P] by blast
  moreover have "\<not> px_socket P < 0" "\<And>port. \<not> px_connect P port ip < 0"
    using P by (auto simp: peer_answers_def not_less)
  ultimately show ?thesis
    by (simp add: connect_server_def look transport_at_def tr exchange_on_def Let_def)
qed

lemma complete_once_new:
  assumes V: "net_succeeds V" and tr: "transports s t = Some tr" "rc_qp tr = Some qp" "is_ready tr = 0"
  shows "\<exists>rc1 rc2. complete_once V t s = Inr (s\<lparr>qp_calls := qp_calls s @
      [(qp, rtr_call (remote_qp_attr tr), rc1), (qp, rts_call (local_qp_attr tr), rc2)],
    transports := (transports s)(t \<mapsto> tr\<lparr>is_ready := 1\<rparr>)\<rparr>)"
proof -
  have "\<not> v_modify V n q c < 0" for n q c using V unfolding net_succeeds_def not_less by blast
  then show ?thesis
    by (simp add: complete_once_def transport_at_def tr rdma_complete_connect_def modify_qp_defs
        modify_result_def Let_def) (rule exI, rule exI, rule refl)
qed

text \<open>What the first message to a host sets up: the state \<open>s'\<close> and the transport \<open>t\<close>.\<close>

definition connected_to ::
  "'q net \<Rightarrow> peer \<Rightarrow> string \<Rightarrow> u16 \<Rightarrow> qp_attr \<Rightarrow> node list \<Rightarrow> caddr list \<Rightarrow> nat
    \<Rightarrow> ('q, 'z) conn_rt_scheme \<Rightarrow> ('q, 'z) conn_rt_scheme \<Rightarrow> bool" where
  "connected_to V P ip l a ns xs t s s' \<longleftrightarrow>
     (\<exists>tr qp rc1 rc2 rc3 new.
        transports s' = (transports s)(t \<mapsto> tr) \<and> v_qp V t = Some qp \<and> rc_qp tr = Some qp \<and>
        is_ready tr = 1 \<and> remote_ip tr = ip \<and> remote_qp_attr tr = a \<and>
        local_qp_attr tr = local_attr l (px_qp_num P qp) \<and> tr_data_id tr = 0 \<and>
        hash_table s' = hash_table s @ [(ip, t)] \<and>
        qp_calls s' = qp_calls s @ [(qp, init_call, rc1), (qp, rtr_call a, rc2),
          (qp, rts_call (local_attr l (px_qp_num P qp)), rc3)] \<and>
        recv_calls s' = recv_calls s @ new \<and> length new = 1024 \<and> list_all (\<lambda>(q, _). q = qp) new) \<and>
     (\<exists>ns' xs'. pool_inv s' ns' xs' \<and> set (chunk_addrs ns) - set xs \<subseteq> set (chunk_addrs ns') - set xs') \<and>
     unat (total_size s') \<le> unat (total_size s) + round_up (1024 - length xs) \<and> send_calls s' = send_calls s"

lemma receives_posted_calls:
  assumes "receives_posted t qp n ns xs s s'"
  shows "\<exists>new. recv_calls s' = recv_calls s @ new \<and> length new = n \<and> list_all (\<lambda>(q, _). q = qp) new"
proof -
  obtain cs new where n: "length cs = n" "recv_calls s' = recv_calls s @ new"
    "map (\<lambda>(q, wr, rc). (q, sg_addr wr, sg_length wr, work_chunks s' (wr_id wr))) new
      = map (\<lambda>a. (qp, a, RDMA_CHUNK_SIZE, Some \<lparr>wc_transport = t, wc_chunk = Some a, wc_len = RDMA_CHUNK_SIZE\<rparr>)) cs"
    using assms by (auto simp: receives_posted_def)
  have "length new = n" using arg_cong[OF n(3), of length] n(1) by simp
  moreover have "list_all (\<lambda>(q, _). q = qp) new"
  proof -
    have "map fst new = map (\<lambda>_. qp) cs" using arg_cong[OF n(3), of "map fst"] by (simp add: comp_def split_beta)
    then have "set (map fst new) \<subseteq> {qp}" by auto
    then show ?thesis by (auto simp: list_all_iff)
  qed
  ultimately show ?thesis using n(2) by blast
qed

text \<open>
  From the new entry in the table to the ready connection: what is common to a sender and to the
  accept thread. The exchange between the two sections stores the attributes.
\<close>

lemma set_up:
  fixes s s0 :: "('q, 'z) conn_rt_scheme"
  assumes inv: "pool_inv s ns xs" and E: "calls_succeed E" and V: "net_succeeds V"
    and room: "unat (total_size s) + round_up (1024 - length xs) < 2 ^ 32"
    and s: "transports s = (transports s0)(t \<mapsto> (zero_transport V)\<lparr>remote_ip := ip, local_ip := local\<rparr>)"
      "hash_table s = hash_table s0 @ [(ip, t)]" "qp_calls s = qp_calls s0" "recv_calls s = recv_calls s0"
      "send_calls s = send_calls s0" "total_size s = total_size s0"
  shows "\<exists>s2 tr2 qp. create_once Q E V t s = Inr s2 \<and> transports s2 t = Some tr2 \<and> rc_qp tr2 = Some qp \<and>
    hash_table s2 = hash_table s \<and> (\<exists>s4. complete_once V t (s2\<lparr>transports := (transports s2)(t \<mapsto>
      tr2\<lparr>local_qp_attr := local_attr l (px_qp_num P qp), remote_qp_attr := a\<rparr>)\<rparr>) = Inr s4 \<and>
      ready_transport t s4 = Inr (t, s4) \<and> connected_to V P ip l a ns xs t s0 s4 \<and> host2ipstr s4 = host2ipstr s)"
proof -
  let ?tr = "(zero_transport V)\<lparr>remote_ip := ip, local_ip := local\<rparr>"
  have z: "rc_qp ?tr = None" "is_ready ?tr = 0" by (simp_all add: zero_transport_def)
  obtain s2 tr2 qp rc1 where c: "create_once Q E V t s = Inr s2" "v_qp V t = Some qp" "rc_qp tr2 = Some qp"
      "is_ready tr2 = is_ready ?tr" "remote_ip tr2 = remote_ip ?tr" "tr_data_id tr2 = tr_data_id ?tr"
      "hash_table s2 = hash_table s" "host2ipstr s2 = host2ipstr s"
      "qp_calls s2 = qp_calls s @ [(qp, init_call, rc1)]"
      "receives_posted t qp 1024 ns xs (s\<lparr>transports := (transports s)(t \<mapsto> tr2)\<rparr>) s2"
    using create_once_new[OF E V inv room, of t ?tr Q] s(1) z(1) by auto
  have t2: "transports s2 = (transports s0)(t \<mapsto> tr2)"
    using c(10) s(1) by (auto simp: receives_posted_def)
  obtain new where new: "recv_calls s2 = recv_calls s0 @ new" "length new = 1024" "list_all (\<lambda>(q, _). q = qp) new"
    using receives_posted_calls[OF c(10)] s(4) by auto
  obtain ns' xs' where pool: "pool_inv s2 ns' xs'" "set (chunk_addrs ns) - set xs \<subseteq> set (chunk_addrs ns') - set xs'"
      "unat (total_size s2) \<le> unat (total_size s0) + round_up (1024 - length xs)" "send_calls s2 = send_calls s0"
    using c(10) s(5,6) by (auto simp: receives_posted_def)
  let ?loc = "local_attr l (px_qp_num P qp)"
  let ?tr3 = "tr2\<lparr>local_qp_attr := ?loc, remote_qp_attr := a\<rparr>"
  let ?s3 = "s2\<lparr>transports := (transports s2)(t \<mapsto> ?tr3)\<rparr>"
  obtain rc2 rc3 where com: "complete_once V t ?s3 = Inr (?s3\<lparr>qp_calls := qp_calls ?s3 @
      [(qp, rtr_call a, rc2), (qp, rts_call ?loc, rc3)],
      transports := (transports ?s3)(t \<mapsto> ?tr3\<lparr>is_ready := 1\<rparr>)\<rparr>)" (is "_ = Inr ?s4")
    using complete_once_new[OF V, of ?s3 t ?tr3 qp] c(3,4) z(2) by auto
  have ready: "ready_transport t ?s4 = Inr (t, ?s4)" by (simp add: ready_transport_def transport_at_def)
  have "remote_ip tr2 = ip" "tr_data_id tr2 = 0" using c(5,6) by (simp_all add: zero_transport_def)
  then have tr4: "\<exists>tr qp rc1 rc2 rc3 new. transports ?s4 = (transports s0)(t \<mapsto> tr) \<and> v_qp V t = Some qp \<and>
      rc_qp tr = Some qp \<and> is_ready tr = 1 \<and> remote_ip tr = ip \<and> remote_qp_attr tr = a \<and>
      local_qp_attr tr = local_attr l (px_qp_num P qp) \<and> tr_data_id tr = 0 \<and>
      hash_table ?s4 = hash_table s0 @ [(ip, t)] \<and>
      qp_calls ?s4 = qp_calls s0 @ [(qp, init_call, rc1), (qp, rtr_call a, rc2),
        (qp, rts_call (local_attr l (px_qp_num P qp)), rc3)] \<and>
      recv_calls ?s4 = recv_calls s0 @ new \<and> length new = 1024 \<and> list_all (\<lambda>(q, _). q = qp) new"
    using c(2,3,7,9) new t2 s(2,3)
    by (intro exI[of _ "?tr3\<lparr>is_ready := 1\<rparr>"] exI[of _ qp] exI[of _ rc1] exI[of _ rc2] exI[of _ rc3] exI[of _ new]) simp
  have "pool_inv ?s4 ns' xs'" using pool(1) by (rule pool_inv_cong) simp_all
  with pool(2) have "\<exists>ns' xs'. pool_inv ?s4 ns' xs' \<and> set (chunk_addrs ns) - set xs \<subseteq> set (chunk_addrs ns') - set xs'"
    by blast
  with tr4 pool(3,4) have "connected_to V P ip l a ns xs t s0 ?s4"
    unfolding connected_to_def by simp
  then show ?thesis
    using c(1,3,7,8) t2 com ready
    by (intro exI[of _ s2] exI[of _ tr2] exI[of _ qp]) simp
qed

lemma connects:
  fixes s :: "('q, 'z) conn_rt_scheme"
  assumes inv: "pool_inv s ns xs" and E: "calls_succeed E" and V: "net_succeeds V"
    and h: "new_host V host ip local s" and P: "peer_answers P l a"
    and room: "unat (total_size s) + round_up (1024 - length xs) < 2 ^ 32"
  shows "\<exists>t s'. get_transport_from_ip Q E V P host port s = Some (Inr (t, s')) \<and>
    connected_to V P ip l a ns xs t s s' \<and>
    host2ipstr s' = host2ipstr s @ [(host, ip)] \<and> lookup_ip V (hash_table s') ip = Some t"
proof -
  let ?t = "fresh s + 4"
  let ?s1 = "s\<lparr>host2ipstr := host2ipstr s @ [(host, ip)], fresh := fresh s + 5,
      transports := (transports s)(?t \<mapsto> (zero_transport V)\<lparr>remote_ip := ip, local_ip := local\<rparr>),
      hash_table := hash_table s @ [(ip, ?t)]\<rparr>"
  have inv1: "pool_inv ?s1 ns xs" by (rule pool_inv_cong[OF inv]) simp_all
  obtain s2 tr2 qp s4 where c: "create_once Q E V ?t ?s1 = Inr s2" "transports s2 ?t = Some tr2" "rc_qp tr2 = Some qp"
      "hash_table s2 = hash_table ?s1" and com: "complete_once V ?t (s2\<lparr>transports := (transports s2)(?t \<mapsto>
      tr2\<lparr>local_qp_attr := local_attr l (px_qp_num P qp), remote_qp_attr := a\<rparr>)\<rparr>) = Inr s4"
      "ready_transport ?t s4 = Inr (?t, s4)" "connected_to V P ip l a ns xs ?t s s4" "host2ipstr s4 = host2ipstr ?s1"
    using set_up[OF inv1 E V, where ?s0.0 = s and t = ?t and ip = ip and local = local and Q = Q and P = P and l = l and a = a] room by auto
  have new: "lookup_ip V (hash_table s @ [(ip, ?t)]) ip = Some ?t"
    using h by (simp add: new_host_def lookup_added)
  then have look: "lookup_ip V (hash_table s2) ip = Some ?t" by (simp add: c(4))
  have "get_transport_from_ip Q E V P host port s = Some (Inr (?t, s4))"
    using find_new_host[OF E h] c(1) connect_answered[OF P look c(2,3), of port] com(1,2)
    by (simp add: get_transport_from_ip_def)
  moreover have "lookup_ip V (hash_table s4) ip = Some ?t"
    using com(3) new by (auto simp: connected_to_def)
  ultimately show ?thesis using com(3,4) by auto
qed

text \<open>A host whose transport is ready: the call returns it and changes nothing.\<close>

lemma found_at_once:
  assumes "map_of (host2ipstr s) host = Some ip" "lookup_ip V (hash_table s) ip = Some t"
    and "transports s t = Some tr" "is_ready tr = 1"
  shows "get_transport_from_ip Q E V P host port s = Some (Inr (t, s))"
  using assms
  by (simp add: get_transport_from_ip_def find_transport_def remote_ip_of_def transport_at_def ready_transport_def)

text \<open>
  C19: The first message to a host sets its connection up and later ones find it: the transport is
  entered in the table, its queue pair is taken through INIT, RTR with the attributes that the peer
  sent, and RTS with those that were sent to the peer, 1024 receives are posted on it, and from then
  on \<open>get_transport_from_ip\<close> returns this transport at once and changes nothing.
\<close>

theorem first_message_connects:
  assumes "pool_inv s ns xs" and "calls_succeed E" and "net_succeeds V"
    and "new_host V host ip local s" and "peer_answers P l a"
    and "unat (total_size s) + round_up (1024 - length xs) < 2 ^ 32"
  shows "\<exists>t s'. get_transport_from_ip Q E V P host port s = Some (Inr (t, s')) \<and>
    connected_to V P ip l a ns xs t s s' \<and>
    (\<forall>P' port'. get_transport_from_ip Q E V P' host port' s' = Some (Inr (t, s')))"
proof -
  obtain t s' where t: "get_transport_from_ip Q E V P host port s = Some (Inr (t, s'))"
      "connected_to V P ip l a ns xs t s s'" "host2ipstr s' = host2ipstr s @ [(host, ip)]"
      "lookup_ip V (hash_table s') ip = Some t"
    using connects[OF assms] by blast
  have "map_of (host2ipstr s') host = Some ip"
    using assms(4) t(3) by (simp add: new_host_def map_add_def)
  moreover obtain tr where "transports s' t = Some tr" "is_ready tr = 1"
    using t(2) by (auto simp: connected_to_def)
  ultimately have "get_transport_from_ip Q E V P' host port' s' = Some (Inr (t, s'))" for P' port'
    using t(4) by (intro found_at_once)
  with t show ?thesis by blast
qed

definition demo_peer :: peer where
  "demo_peer = \<lparr>px_exchange = demo_exchange 7 12 (fill_tmp (local_attr 9 511) raw_uninit),
     px_qp_num = \<lambda>qp. 300, px_socket = 5, px_connect = \<lambda>_ _. 0\<rparr>"

lemma demo_net_succeeds: "net_succeeds demo_net"
  by (simp add: net_succeeds_def)

lemma demo_peer_answers: "peer_answers demo_peer 7 (local_attr 9 511)"
  by (simp add: peer_answers_def demo_peer_def demo_exchange_def get_local_lid_def)
    (rule exI[of _ raw_uninit], simp add: raw_uninit_def)

lemma demo_new_host: "new_host demo_net ''node2'' ''10.0.0.2'' ''10.0.0.2'' demo_conn"
  by (simp add: new_host_def IP_CHAR_SIZE_def demo_conn_def lookup_ip_def)

theorem first_message_connects_witness:
  "\<exists>t s' tr. get_transport_from_ip list_gqueue demo_env demo_net demo_peer ''node2'' 0 demo_conn = Some (Inr (t, s')) \<and>
     transports s' t = Some tr \<and> remote_qp_attr tr = local_attr 9 511 \<and> local_qp_attr tr = local_attr 7 300 \<and>
     get_transport_from_ip list_gqueue demo_env demo_net demo_peer ''node2'' 0 s' = Some (Inr (t, s'))"
proof -
  have "unat (total_size demo_conn) + round_up (1024 - length []) < 2 ^ 32"
    by (simp add: demo_conn_def round_up_def)
  from first_message_connects[OF demo_conn_inv demo_calls demo_net_succeeds demo_new_host demo_peer_answers this,
      of list_gqueue 0]
  show ?thesis
    by (elim exE conjE) (auto simp: connected_to_def demo_peer_def)
qed

end
