(* ===== verification/Accept_Thread.thy ===== *)
theory Accept_Thread
  imports Client_Connect
begin

text \<open>
  \<open>accept_thread\<close> of \<open>src/rdma_transport_server.c\<close> as a whole. It and \<open>get_transport_from_ip\<close> are
  runs of the step relation of \<open>Connection_Threads\<close>, so that what holds of all interleavings of the
  sections holds of these functions; and the first connection that a host makes to this one leaves
  it connected, for the senders of this host as well.
\<close>

section \<open>The thread\<close>

text \<open>
  One turn, after \<open>accept\<close> returned a socket: \<open>remote\<close> is the address of the caller, \<open>X\<close> what the
  exchange over the socket gives.
\<close>

definition accept_turn ::
  "'q gqueue_ops \<Rightarrow> env \<Rightarrow> 'q net \<Rightarrow> (nat \<Rightarrow> u32) \<Rightarrow> string \<Rightarrow> string \<Rightarrow> exchange_calls
    \<Rightarrow> ('q, 'z) conn_rt_scheme \<Rightarrow> ('q, 'z) conn_rt_scheme res" where
  "accept_turn Q E V qp_num local remote X s =
     bind_res (accept_transport E V local remote s) (\<lambda>(server, s1).
     bind_res (create_once Q E V server s1) (\<lambda>s2.
     bind_res (exchange_on X qp_num False server s2) (\<lambda>(rc, s3).
       if rc < 0 then Inl Aborted else complete_once V server s3)))"

text \<open>
  The loop, for the results of \<open>accept\<close> in their order: \<open>None\<close> is the result -1, which ends the
  thread. The flag says whether the thread is still running: then it waits in \<open>accept\<close>.
\<close>

fun accept_thread ::
  "'q gqueue_ops \<Rightarrow> env \<Rightarrow> 'q net \<Rightarrow> (nat \<Rightarrow> u32) \<Rightarrow> string \<Rightarrow> (string \<times> exchange_calls) option list
    \<Rightarrow> ('q, 'z) conn_rt_scheme \<Rightarrow> (bool \<times> ('q, 'z) conn_rt_scheme) res" where
  "accept_thread Q E V qp_num local [] s = Inr (True, s)"
| "accept_thread Q E V qp_num local (None # calls) s = Inr (False, s)"
| "accept_thread Q E V qp_num local (Some (remote, X) # calls) s =
     bind_res (accept_turn Q E V qp_num local remote X s)
       (accept_thread Q E V qp_num local calls)"

section \<open>The sections in the system of threads\<close>

text \<open>
  Functions of the process do not see the fields that only the system of threads has, and leave
  them as they are.
\<close>

definition with_conn :: "(nat \<Rightarrow> conn_pc) \<Rightarrow> fault option \<Rightarrow> 'q conn_sys \<Rightarrow> 'q conn_sys" where
  "with_conn f z s = s\<lparr>conn_at := f, conn_died := z\<rparr>"

abbreviation "lift_conn f z \<equiv> map_sum id (with_conn f z)"
abbreviation "lift_snd f z \<equiv> map_sum id (apsnd (with_conn f z))"

lemma with_conn_fields [simp]:
  "link_head (with_conn f z s) = link_head s" "free_list (with_conn f z s) = free_list s"
  "total_size (with_conn f z s) = total_size s" "free_size (with_conn f z s) = free_size s"
  "pool_pd (with_conn f z s) = pool_pd s" "next_of (with_conn f z s) = next_of s" "mr_of (with_conn f z s) = mr_of s"
  "buffers (with_conn f z s) = buffers s" "links (with_conn f z s) = links s" "fresh (with_conn f z s) = fresh s"
  "registered (with_conn f z s) = registered s" "work_chunks (with_conn f z s) = work_chunks s"
  "transports (with_conn f z s) = transports s" "recv_calls (with_conn f z s) = recv_calls s"
  "hash_table (with_conn f z s) = hash_table s" "host2ipstr (with_conn f z s) = host2ipstr s"
  "qp_calls (with_conn f z s) = qp_calls s"
  "conn_at (with_conn f z s) = f" "conn_died (with_conn f z s) = z"
  by (simp_all add: with_conn_def)

lemma with_conn_updates [simp]:
  "(with_conn f z s)\<lparr>link_head := a\<rparr> = with_conn f z (s\<lparr>link_head := a\<rparr>)"
  "(with_conn f z s)\<lparr>free_list := b\<rparr> = with_conn f z (s\<lparr>free_list := b\<rparr>)"
  "(with_conn f z s)\<lparr>total_size := c\<rparr> = with_conn f z (s\<lparr>total_size := c\<rparr>)"
  "(with_conn f z s)\<lparr>free_size := d\<rparr> = with_conn f z (s\<lparr>free_size := d\<rparr>)"
  "(with_conn f z s)\<lparr>next_of := e\<rparr> = with_conn f z (s\<lparr>next_of := e\<rparr>)"
  "(with_conn f z s)\<lparr>mr_of := g\<rparr> = with_conn f z (s\<lparr>mr_of := g\<rparr>)"
  "(with_conn f z s)\<lparr>buffers := h\<rparr> = with_conn f z (s\<lparr>buffers := h\<rparr>)"
  "(with_conn f z s)\<lparr>links := i\<rparr> = with_conn f z (s\<lparr>links := i\<rparr>)"
  "(with_conn f z s)\<lparr>fresh := j\<rparr> = with_conn f z (s\<lparr>fresh := j\<rparr>)"
  "(with_conn f z s)\<lparr>registered := k\<rparr> = with_conn f z (s\<lparr>registered := k\<rparr>)"
  "(with_conn f z s)\<lparr>work_chunks := l\<rparr> = with_conn f z (s\<lparr>work_chunks := l\<rparr>)"
  "(with_conn f z s)\<lparr>transports := m\<rparr> = with_conn f z (s\<lparr>transports := m\<rparr>)"
  "(with_conn f z s)\<lparr>recv_calls := n\<rparr> = with_conn f z (s\<lparr>recv_calls := n\<rparr>)"
  "(with_conn f z s)\<lparr>hash_table := p\<rparr> = with_conn f z (s\<lparr>hash_table := p\<rparr>)"
  "(with_conn f z s)\<lparr>host2ipstr := q\<rparr> = with_conn f z (s\<lparr>host2ipstr := q\<rparr>)"
  "(with_conn f z s)\<lparr>qp_calls := r\<rparr> = with_conn f z (s\<lparr>qp_calls := r\<rparr>)"
  "(with_conn f z s)\<lparr>conn_died := z'\<rparr> = with_conn f z' s"
  "(with_conn f z s)\<lparr>conn_at := f'\<rparr> = with_conn f' z s"
  "with_conn f z (with_conn f' z' s) = with_conn f z s"
  by (simp_all add: with_conn_def)

lemma with_conn_reads [simp]:
  "chunk_at (with_conn f z s) p = chunk_at s p" "transport_at (with_conn f z s) t = transport_at s t"
  by (simp_all add: chunk_at_def chunk_live_def transport_at_def split: option.split)

lemma for_loop_lift:
  assumes "\<And>i s. body i (g s) = map_sum id g (body i s)"
  shows "for_loop i m body (g s) = map_sum id g (for_loop i m body s)"
proof (induction m arbitrary: i s)
  case (Suc m)
  then show ?case using assms[of i s] by (cases "body i s") simp_all
qed simp

lemma malloc_lift: "malloc os n (with_conn f z s) = apsnd (with_conn f z) (malloc os n s)"
  by (simp add: malloc_def)

lemma init_loop_lift:
  "for_loop i m (init_chunk buf mr) (with_conn f z s) = lift_conn f z (for_loop i m (init_chunk buf mr) s)"
  by (rule for_loop_lift) (simp add: init_chunk_def)

lemma append_prepare_lift: "append_prepare os sz (with_conn f z s) = lift_snd f z (append_prepare os sz s)"
  by (auto simp: append_prepare_def malloc_def Let_def bind_res_def init_loop_lift split: option.split sum.split)

lemma append_lift: "append_rdma_buffer_pool os sz (with_conn f z s) = lift_snd f z (append_rdma_buffer_pool os sz s)"
  unfolding append_rdma_buffer_pool_def append_prepare_lift
  by (auto simp: append_publish_def bind_res_def split: option.split sum.split)

lemma advance_lift: "advance n (with_conn f z s) p = advance n s p"
  by (induction n arbitrary: p) auto

lemma take_chunks_lift: "take_chunks n (with_conn f z s) = lift_snd f z (take_chunks n s)"
  by (auto simp: take_chunks_def advance_lift Let_def bind_res_def split: option.split sum.split)

lemma get_list_lift:
  "get_rdma_chunk_list_from_pool os n (with_conn f z s) = lift_snd f z (get_rdma_chunk_list_from_pool os n s)"
  unfolding get_rdma_chunk_list_from_pool_def
  by (auto simp: append_lift take_chunks_lift Let_def bind_res_def split: sum.split)

lemma new_work_chunk_lift: "new_work_chunk E t c l (with_conn f z s) = lift_snd f z (new_work_chunk E t c l s)"
  by (auto simp: new_work_chunk_def malloc_def Let_def bind_res_def split: sum.split)

lemma build_loop_lift:
  "for_loop i m (build_recv E t) (with_conn f z s, p, ws)
    = map_sum id (apfst (with_conn f z)) (for_loop i m (build_recv E t) (s, p, ws))"
proof -
  have "build_recv E t i (apfst (with_conn f z) st) = map_sum id (apfst (with_conn f z)) (build_recv E t i st)" for i st
    by (cases st) (auto simp: build_recv_def new_work_chunk_lift bind_res_def split: sum.split)
  then have "for_loop i m (build_recv E t) (apfst (with_conn f z) (s, p, ws))
    = map_sum id (apfst (with_conn f z)) (for_loop i m (build_recv E t) (s, p, ws))"
    by (intro for_loop_lift)
  then show ?thesis by simp
qed

lemma post_loop_lift:
  "for_loop i m (post_built E t wrs) (with_conn f z s) = lift_conn f z (for_loop i m (post_built E t wrs) s)"
  by (rule for_loop_lift) (auto simp: post_built_def post_recv_def Let_def bind_res_def split: sum.split)

lemma recv_with_num_lift:
  "rdma_transport_recv_with_num E t n (with_conn f z s) = lift_conn f z (rdma_transport_recv_with_num E t n s)"
  unfolding rdma_transport_recv_with_num_def get_list_lift
  by (auto simp: malloc_def Let_def bind_res_def build_loop_lift post_loop_lift split: sum.split)

lemma create_once_lift: "create_once Q E V t (with_conn f z s) = lift_conn f z (create_once Q E V t s)"
  by (auto simp: create_once_def rdma_create_connect_def modify_qp_defs recv_with_num_lift Let_def bind_res_def
      split: sum.split)

lemma complete_once_lift: "complete_once V t (with_conn f z s) = lift_conn f z (complete_once V t s)"
  by (auto simp: complete_once_def rdma_complete_connect_def modify_qp_defs Let_def bind_res_def split: sum.split)

lemma exchange_on_lift: "exchange_on X n c t (with_conn f z s) = lift_snd f z (exchange_on X n c t s)"
  by (auto simp: exchange_on_def bind_res_def split: sum.split)

lemma connect_server_lift:
  "connect_server V X n fd conn ip port (with_conn f z s) = lift_snd f z (connect_server V X n fd conn ip port s)"
  by (auto simp: connect_server_def exchange_on_lift Let_def bind_res_def split: sum.split)

section \<open>Functions as runs\<close>

text \<open>The process as threads see it: a run of steps to a state, or to the death of the process.\<close>

definition runs_to ::
  "'q gqueue_ops \<Rightarrow> env \<Rightarrow> 'q net \<Rightarrow> (nat \<Rightarrow> u32) \<Rightarrow> 'q conn_sys \<Rightarrow> 'q conn_sys res \<Rightarrow> bool" where
  "runs_to Q E V qp_num s r \<longleftrightarrow>
     (\<exists>s'. (conn_step Q E V qp_num)\<^sup>*\<^sup>* s s' \<and> (case r of Inr s1 \<Rightarrow> s' = s1 | Inl e \<Rightarrow> conn_died s' = Some e))"

lemma runs_to_refl: "runs_to Q E V n s (Inr s)"
  by (auto simp: runs_to_def)

lemma runs_to_step: "conn_step Q E V n s s' \<Longrightarrow> runs_to Q E V n s' r \<Longrightarrow> runs_to Q E V n s r"
  by (auto simp: runs_to_def intro: converse_rtranclp_into_rtranclp)

lemma runs_to_steps: "(conn_step Q E V n)\<^sup>*\<^sup>* s s' \<Longrightarrow> runs_to Q E V n s' r \<Longrightarrow> runs_to Q E V n s r"
  unfolding runs_to_def by (blast intro: rtranclp_trans)

lemma runs_to_dies: "conn_step Q E V n s (s1\<lparr>conn_died := Some e\<rparr>) \<Longrightarrow> runs_to Q E V n s (Inl e)"
  unfolding runs_to_def by (intro exI[of _ "s1\<lparr>conn_died := Some e\<rparr>"]) simp

text \<open>A thread \<open>k\<close> that is about to call one of the functions.\<close>

definition idle :: "nat \<Rightarrow> 'q conn_sys \<Rightarrow> bool" where
  "idle k s \<longleftrightarrow> conn_at s k = Idle \<and> conn_died s = None"

lemma set_conn_with: "set_conn k p s = with_conn ((conn_at s)(k := p)) (conn_died s) s"
  by (simp add: with_conn_def)

lemma with_conn_self: "with_conn (conn_at s) (conn_died s) s = s"
  by (simp add: with_conn_def)

text \<open>The sections keep what only the system of threads has.\<close>

definition same_threads :: "'q conn_sys \<Rightarrow> 'q conn_sys \<Rightarrow> bool" where
  "same_threads s s1 \<longleftrightarrow> conn_at s1 = conn_at s \<and> conn_died s1 = conn_died s"

lemma set_conn_same:
  "same_threads s s1 \<Longrightarrow> with_conn ((conn_at s)(k := p)) (conn_died s) s1 = set_conn k p s1"
  by (cases s1) (simp add: with_conn_def same_threads_def)

lemma lift_same_threads:
  assumes "g (with_conn (conn_at s) (conn_died s) s) = lift_conn (conn_at s) (conn_died s) (g s)" "g s = Inr s1"
  shows "same_threads s s1"
proof -
  have "s1 = with_conn (conn_at s) (conn_died s) s1" using assms by (simp add: with_conn_self)
  from arg_cong[OF this, of conn_at] arg_cong[OF this, of conn_died] show ?thesis
    by (simp add: same_threads_def)
qed

lemma lift_snd_same_threads:
  assumes "g (with_conn (conn_at s) (conn_died s) s) = lift_snd (conn_at s) (conn_died s) (g s)" "g s = Inr (r, s1)"
  shows "same_threads s s1"
proof -
  have "s1 = with_conn (conn_at s) (conn_died s) s1" using assms by (simp add: with_conn_self)
  from arg_cong[OF this, of conn_at] arg_cong[OF this, of conn_died] show ?thesis
    by (simp add: same_threads_def)
qed

lemmas sections_same_threads =
  lift_same_threads[where g = "create_once Q E V t", OF create_once_lift]
  lift_same_threads[where g = "complete_once V t", OF complete_once_lift]
  lift_snd_same_threads[where g = "exchange_on X n c t", OF exchange_on_lift]
  lift_snd_same_threads[where g = "connect_server V X n fd conn ip port", OF connect_server_lift] for Q E V X n c t fd conn ip port

lemma idle_same: "idle k s \<Longrightarrow> same_threads s s1 \<Longrightarrow> idle k s1"
  by (simp add: idle_def same_threads_def)

lemma idle_stays: "idle k s \<Longrightarrow> set_conn k Idle s = s"
  by (auto simp: idle_def fun_upd_idem)

lemma runs_to_bind:
  assumes "\<And>e. m = Inl e \<Longrightarrow> runs_to Q E V n s (Inl e)" and "\<And>x. m = Inr x \<Longrightarrow> runs_to Q E V n s (f x)"
  shows "runs_to Q E V n s (bind_res m f)"
  using assms by (cases m) simp_all

text \<open>From \<open>Completing\<close>, from \<open>Exchanging\<close>, from \<open>Creating\<close>: what is left of a function, as a run.\<close>

lemma run_section:
  assumes idle: "idle k s"
    and lift: "\<And>f z. g (with_conn f z s) = lift_conn f z (g s)"
    and crash: "\<And>s0 e. conn_died s0 = None \<Longrightarrow> conn_at s0 k = p \<Longrightarrow> g s0 = Inl e \<Longrightarrow>
      conn_step Q E V n s0 (s0\<lparr>conn_died := Some e\<rparr>)"
    and step: "\<And>s0 s1. conn_died s0 = None \<Longrightarrow> conn_at s0 k = p \<Longrightarrow> g s0 = Inr s1 \<Longrightarrow>
      conn_step Q E V n s0 (set_conn k p' s1)"
    and rest: "\<And>s1. g s = Inr s1 \<Longrightarrow> idle k s1 \<Longrightarrow> runs_to Q E V n (set_conn k p' s1) (f s1)"
  shows "runs_to Q E V n (set_conn k p s) (bind_res (g s) f)"
proof (rule runs_to_bind)
  let ?s = "set_conn k p s"
  have at: "conn_died ?s = None" "conn_at ?s k = p" using idle by (simp_all add: idle_def)
  note g = lift[of "(conn_at s)(k := p)" "conn_died s", folded set_conn_with]
  show "runs_to Q E V n ?s (Inl e)" if "g s = Inl e" for e
    using crash[OF at] g that by (intro runs_to_dies) simp
  show "runs_to Q E V n ?s (f s1)" if s1: "g s = Inr s1" for s1
  proof -
    have same: "same_threads s s1" by (rule lift_same_threads[OF lift s1])
    have "conn_step Q E V n ?s (set_conn k p' s1)"
      using step[OF at] g s1 by (simp add: set_conn_same[OF same])
    from runs_to_step[OF this rest[OF s1 idle_same[OF idle same]]] show ?thesis .
  qed
qed

lemma run_exchange:
  assumes idle: "idle k s"
    and lift: "\<And>f z. g (with_conn f z s) = lift_snd f z (g s)"
    and crash: "\<And>s0 e. conn_died s0 = None \<Longrightarrow> conn_at s0 k = p \<Longrightarrow> g s0 = Inl e \<Longrightarrow>
      conn_step Q E V n s0 (s0\<lparr>conn_died := Some e\<rparr>)"
    and step: "\<And>s0 r s1. conn_died s0 = None \<Longrightarrow> conn_at s0 k = p \<Longrightarrow> g s0 = Inr (r, s1) \<Longrightarrow>
      conn_step Q E V n s0 (if r < 0 then s0\<lparr>conn_died := Some Aborted\<rparr> else set_conn k p' s1)"
    and rest: "\<And>r s1. g s = Inr (r, s1) \<Longrightarrow> idle k s1 \<Longrightarrow> runs_to Q E V n (set_conn k p' s1) (f s1)"
  shows "runs_to Q E V n (set_conn k p s) (bind_res (g s) (\<lambda>(r :: int, s1). if r < 0 then Inl Aborted else f s1))"
proof (rule runs_to_bind)
  let ?s = "set_conn k p s"
  have at: "conn_died ?s = None" "conn_at ?s k = p" using idle by (simp_all add: idle_def)
  note g = lift[of "(conn_at s)(k := p)" "conn_died s", folded set_conn_with]
  show "runs_to Q E V n ?s (Inl e)" if "g s = Inl e" for e
    using crash[OF at] g that by (intro runs_to_dies) simp
  show "runs_to Q E V n ?s (case x of (r, s1) \<Rightarrow> if r < 0 then Inl Aborted else f s1)" if x: "g s = Inr x" for x
  proof -
    obtain r s1 where rs: "x = (r, s1)" by fastforce
    have same: "same_threads s s1" using lift_snd_same_threads[where g = g, OF lift] x rs by blast
    have st: "conn_step Q E V n ?s (if r < 0 then ?s\<lparr>conn_died := Some Aborted\<rparr> else set_conn k p' s1)"
      using step[OF at, of r] g x rs by (cases "r < 0") (simp_all add: set_conn_same[OF same])
    show ?thesis
    proof (cases "r < 0")
      case True
      then show ?thesis using st rs by (auto intro: runs_to_dies)
    next
      case False
      then show ?thesis using runs_to_step[OF _ rest[OF _ idle_same[OF idle same]]] st x rs by simp
    qed
  qed
qed

lemma run_from_complete:
  assumes "idle k s" and "\<And>s1. complete_once V t s = Inr s1 \<Longrightarrow> idle k s1 \<Longrightarrow>
    runs_to Q E V n (set_conn k (if client then Checking t else Idle) s1) (f s1)"
  shows "runs_to Q E V n (set_conn k (Completing client t) s) (bind_res (complete_once V t s) f)"
  by (rule run_section[OF assms(1), where p' = "if client then Checking t else Idle"])
    (fact assms(2) | rule complete_once_lift | erule (2) conn_step.complete | erule (2) conn_step.complete_crash)+

lemma run_from_create:
  assumes "idle k s" and "\<And>s1. create_once Q E V t s = Inr s1 \<Longrightarrow> idle k s1 \<Longrightarrow>
    runs_to Q E V n (set_conn k (Exchanging client t ip) s1) (f s1)"
  shows "runs_to Q E V n (set_conn k (Creating client t ip) s) (bind_res (create_once Q E V t s) f)"
  by (rule run_section[OF assms(1), where p' = "Exchanging client t ip"])
    (fact assms(2) | rule create_once_lift | erule (2) conn_step.create | erule (2) conn_step.create_crash)+

text \<open>One turn of \<open>accept_thread\<close>, the loop, and \<open>get_transport_from_ip\<close>.\<close>

lemma accept_same_threads:
  "accept_transport E V local remote s = Inr (t, s1) \<Longrightarrow> same_threads s s1"
  by (erule accept_transport_cases) (auto simp: same_threads_def added_entry_def dest: conn_more)

lemma find_same_threads:
  "find_transport E V host s = Inr (move, t, ip, s1) \<Longrightarrow> same_threads s s1"
  by (erule find_transport_cases) (auto simp: same_threads_def added_entry_def dest: conn_more)

lemma accept_turn_idle:
  assumes "idle k s" "accept_turn Q E V n local remote X s = Inr s1"
  shows "idle k s1"
  using assms unfolding accept_turn_def
  by (auto simp: bind_res_Inr_iff split: if_splits dest!: accept_same_threads sections_same_threads)
    (meson idle_same)

lemma accept_turn_runs:
  fixes s :: "'q conn_sys"
  assumes idle: "idle k s"
  shows "runs_to Q E V n s (accept_turn Q E V n local remote X s)"
  unfolding accept_turn_def
proof (rule runs_to_bind)
  have at: "conn_died s = None" "conn_at s k = Idle" using idle by (simp_all add: idle_def)
  show "runs_to Q E V n s (Inl e)" if "accept_transport E V local remote s = Inl e" for e
    by (rule runs_to_dies, rule conn_step.accept_crash[OF at that])
  fix x assume "accept_transport E V local remote s = Inr x"
  then obtain t s1 where x: "x = (t, s1)" and a: "accept_transport E V local remote s = Inr (t, s1)" by (cases x) simp
  have i1: "idle k s1" by (rule idle_same[OF idle accept_same_threads[OF a]])
  have "runs_to Q E V n (set_conn k (Creating False t remote) s1) (bind_res (create_once Q E V t s1) (\<lambda>s2.
      bind_res (exchange_on X n False t s2) (\<lambda>(rc, s3). if rc < 0 then Inl Aborted else complete_once V t s3)))"
  proof (rule run_from_create[OF i1])
    fix s2 :: "'q conn_sys" assume i2: "idle k s2"
    show "runs_to Q E V n (set_conn k (Exchanging False t remote) s2)
      (bind_res (exchange_on X n False t s2) (\<lambda>(rc, s3). if rc < 0 then Inl Aborted else complete_once V t s3))"
    proof (rule run_exchange[OF i2, where p' = "Completing False t"])
      fix s3 :: "'q conn_sys" assume i3: "idle k s3"
      have "runs_to Q E V n (set_conn k (Completing False t) s3) (bind_res (complete_once V t s3) Inr)"
        by (rule run_from_complete[OF i3]) (simp add: idle_stays runs_to_refl)
      then show "runs_to Q E V n (set_conn k (Completing False t) s3) (complete_once V t s3)"
        by (cases "complete_once V t s3") simp_all
    qed (rule exchange_on_lift | erule (2) conn_step.answer | erule (2) conn_step.answer_crash)+
  qed
  from runs_to_step[OF conn_step.accept[OF at a] this]
  show "runs_to Q E V n s (case x of (server, s1) \<Rightarrow> bind_res (create_once Q E V server s1) (\<lambda>s2.
      bind_res (exchange_on X n False server s2) (\<lambda>(rc, s3). if rc < 0 then Inl Aborted else complete_once V server s3)))"
    by (simp add: x)
qed

lemma accept_thread_runs:
  assumes "idle k s"
  shows "runs_to Q E V n s (map_sum id snd (accept_thread Q E V n local calls s))"
  using assms
proof (induction Q E V n local calls s rule: accept_thread.induct)
  case (3 Q E V n local remote X calls s)
  have e: "map_sum id snd (accept_thread Q E V n local (Some (remote, X) # calls) s)
    = bind_res (accept_turn Q E V n local remote X s) (\<lambda>s1. map_sum id snd (accept_thread Q E V n local calls s1))"
    by (cases "accept_turn Q E V n local remote X s") simp_all
  show ?case
    unfolding e
  proof (rule runs_to_bind)
    show "runs_to Q E V n s (Inl e)" if "accept_turn Q E V n local remote X s = Inl e" for e
      using accept_turn_runs[OF 3(2), of Q E V n local remote X] that by simp
    show "runs_to Q E V n s (map_sum id snd (accept_thread Q E V n local calls s1))"
      if a: "accept_turn Q E V n local remote X s = Inr s1" for s1
    proof -
      have "(conn_step Q E V n)\<^sup>*\<^sup>* s s1"
        using accept_turn_runs[OF 3(2), of Q E V n local remote X] a by (simp add: runs_to_def)
      from runs_to_steps[OF this 3(1)[OF accept_turn_idle[OF 3(2) a]]] show ?thesis .
    qed
  qed
qed (simp_all add: runs_to_refl)

lemma get_transport_idle:
  assumes "idle k s" "find_transport E V host s = Inr (move, t, ip, s1)"
  shows "idle k s1"
  by (rule idle_same[OF assms(1) find_same_threads[OF assms(2)]])

lemma run_check:
  assumes "idle k s" "transports s t = Some tr"
  shows "runs_to Q E V n (set_conn k (Checking t) s)
    (map_sum id (\<lambda>(t, s'). set_conn k (Connected t) s') (ready_transport t s))"
proof -
  let ?s = "set_conn k (Checking t) s"
  have at: "conn_died ?s = None" "conn_at ?s k = Checking t" "transport_at ?s t = Inr tr"
    using assms by (simp_all add: idle_def transport_at_def)
  show ?thesis
  proof (cases "is_ready tr = 1")
    case True
    have "conn_step Q E V n ?s (set_conn k (Connected t) s)"
      using conn_step.check[OF at, of Q E V n] True by simp
    from runs_to_step[OF this runs_to_refl] show ?thesis
      using assms(2) True by (simp add: ready_transport_def transport_at_def)
  next
    case False
    have "conn_step Q E V n ?s (?s\<lparr>conn_died := Some Aborted\<rparr>)"
      using conn_step.check[OF at, of Q E V n] False by simp
    from runs_to_dies[OF this] show ?thesis
      using assms(2) False by (simp add: ready_transport_def transport_at_def)
  qed
qed

lemma complete_once_transport:
  "complete_once V t s = Inr s1 \<Longrightarrow> \<exists>tr. transports s1 t = Some tr"
  by (auto simp: complete_once_def transport_at_def bind_res_Inr_iff split: option.splits if_splits)

lemma get_transport_runs:
  fixes s :: "'q conn_sys"
  assumes idle: "idle k s"
  shows "case get_transport_from_ip Q E V P host port s of
      Some r \<Rightarrow> runs_to Q E V (px_qp_num P) s (map_sum id (\<lambda>(t, s'). set_conn k (Connected t) s') r)
    | None \<Rightarrow> \<exists>t s'. (conn_step Q E V (px_qp_num P))\<^sup>*\<^sup>* s s' \<and> conn_at s' k = Waiting_ready t"
proof -
  let ?run = "runs_to Q E V (px_qp_num P)"
  let ?con = "\<lambda>(t, s'). set_conn k (Connected t) s'"
  have at: "conn_died s = None" "conn_at s k = Idle" using idle by (simp_all add: idle_def)
  show ?thesis
  proof (cases "find_transport E V host s")
    case (Inl e)
    then show ?thesis
      using runs_to_dies[OF conn_step.find_crash[OF at Inl]] by (simp add: get_transport_from_ip_def)
  next
    case (Inr x)
    obtain move t ip s1 where x: "x = (move, t, ip, s1)" by (cases x)
    note f = Inr[unfolded x]
    note i1 = get_transport_idle[OF idle f]
    note find = conn_step.find[OF at f, of Q "px_qp_num P"]
    show ?thesis
    proof (cases move)
      case Set_up
      let ?rest = "\<lambda>s2. bind_res (connect_server V (px_exchange P) (px_qp_num P) (px_socket P) (px_connect P) ip port s2)
          (\<lambda>(rc, s3). if rc < 0 then Inl Aborted
            else map_sum id ?con (bind_res (complete_once V t s3) (ready_transport t)))"
      have "?run (set_conn k (Creating True t ip) s1) (bind_res (create_once Q E V t s1) ?rest)"
      proof (rule run_from_create[OF i1])
        fix s2 :: "'q conn_sys" assume i2: "idle k s2"
        show "?run (set_conn k (Exchanging True t ip) s2) (?rest s2)"
        proof (rule run_exchange[OF i2, where p' = "Completing True t"])
          fix s3 :: "'q conn_sys" assume i3: "idle k s3"
          have e: "map_sum id ?con (bind_res (complete_once V t s3) (ready_transport t))
            = bind_res (complete_once V t s3) (\<lambda>s4. map_sum id ?con (ready_transport t s4))"
            by (cases "complete_once V t s3") simp_all
          show "?run (set_conn k (Completing True t) s3)
              (map_sum id ?con (bind_res (complete_once V t s3) (ready_transport t)))"
            unfolding e
            by (rule run_from_complete[OF i3]) (auto dest!: complete_once_transport intro: run_check)
        qed (rule connect_server_lift | erule (2) conn_step.connect | erule (2) conn_step.connect_crash)+
      qed
      moreover have "map_option (map_sum id ?con) (get_transport_from_ip Q E V P host port s)
        = Some (bind_res (create_once Q E V t s1) ?rest)"
        using f Set_up by (auto simp: get_transport_from_ip_def bind_res_def split: sum.split)
      ultimately show ?thesis
        using runs_to_step[OF find] Set_up
        by (cases "get_transport_from_ip Q E V P host port s") auto
    next
      case Wait_ready
      then show ?thesis
        using f find by (auto simp: get_transport_from_ip_def intro!: exI[of _ "set_conn k (Waiting_ready t) s1"])
    next
      case Use
      have "\<exists>tr. transports s1 t = Some tr"
        using f Use by (cases rule: find_transport_cases) (auto split: if_splits)
      then obtain tr where "transports s1 t = Some tr" ..
      from run_check[OF i1 this] have "?run s (map_sum id ?con (ready_transport t s1))"
        using runs_to_step[OF find] Use by simp
      then show ?thesis using f Use by (simp add: get_transport_from_ip_def)
    qed
  qed
qed


section \<open>The first connection from a host\<close>

lemma accept_new_host:
  assumes E: "calls_succeed E" and ip: "length ip < IP_CHAR_SIZE" "length local < IP_CHAR_SIZE"
    and new: "lookup_ip V (hash_table s) ip = None"
  shows "accept_transport E V local ip s = Inr (fresh s + 2,
    s\<lparr>fresh := fresh s + 3,
      transports := (transports s)(fresh s + 2 \<mapsto> (zero_transport V)\<lparr>remote_ip := ip, local_ip := local\<rparr>),
      hash_table := hash_table s @ [(ip, fresh s + 2)]\<rparr>)"
proof -
  have m: "malloc (env_os E) n s' = (Some (fresh s'), s'\<lparr>fresh := Suc (fresh s')\<rparr>)"
    for n and s' :: "('a, 'z) conn_rt_scheme"
    using E by (simp add: malloc_def)
  show ?thesis
    using ip new
    by (auto simp: accept_transport_def calloc_ip_def m strcpy_buf_def new_transport_def insert_entry_def
        transport_at_def numeral_eq_Suc)
qed

text \<open>The other end has sent its attributes \<open>a\<close> and takes those of this end; the local port has the id \<open>l\<close>.\<close>

definition caller_sends :: "exchange_calls \<Rightarrow> u16 \<Rightarrow> qp_attr \<Rightarrow> bool" where
  "caller_sends X l a \<longleftrightarrow> get_local_lid X = Inr l \<and> 0 \<le> write_rc X \<and> 0 \<le> read_rc X \<and>
     (\<exists>tmp. length tmp = sizeof_qp_attr \<and> read_got X = fill_tmp a tmp)"

lemma exchange_with_caller:
  assumes X: "caller_sends X l a" and tr: "transports s t = Some tr" "rc_qp tr = Some qp"
  shows "exchange_on X n False t s = Inr (0, s\<lparr>transports := (transports s)(t \<mapsto>
    tr\<lparr>local_qp_attr := local_attr l (n qp), remote_qp_attr := a\<rparr>)\<rparr>)"
proof -
  obtain tmp where tmp: "length tmp = sizeof_qp_attr" "read_got X = fill_tmp a tmp"
    using X by (auto simp: caller_sends_def)
  have "store_read (fill_tmp a tmp) raw_uninit = fill_tmp a tmp"
    by (rule store_read_full) (simp add: length_fill_tmp raw_uninit_def tmp(1))
  then have "\<exists>msg. exchange_info X (n qp) False (remote_qp_attr tr) = Inr (0, local_attr l (n qp), a, Some msg)"
    using X tmp by (simp add: caller_sends_def exchange_info_def read_fill_tmp Let_def local_attr_def)
  then show ?thesis by (auto simp: exchange_on_def transport_at_def tr)
qed

lemma accepts:
  assumes inv: "pool_inv s ns xs" and E: "calls_succeed E" and V: "net_succeeds V"
    and ip: "length ip < IP_CHAR_SIZE" "length local < IP_CHAR_SIZE" and new: "lookup_ip V (hash_table s) ip = None"
    and X: "caller_sends (px_exchange P) l a"
    and room: "unat (total_size s) + round_up (1024 - length xs) < 2 ^ 32"
  shows "\<exists>t s'. accept_turn Q E V (px_qp_num P) local ip (px_exchange P) s = Inr s' \<and>
    connected_to V P ip l a ns xs t s s' \<and> lookup_ip V (hash_table s') ip = Some t \<and>
    (\<forall>host P' port. map_of (host2ipstr s) host = Some ip \<longrightarrow>
       get_transport_from_ip Q E V P' host port s' = Some (Inr (t, s')))"
proof -
  let ?t = "fresh s + 2"
  let ?s1 = "s\<lparr>fresh := fresh s + 3,
      transports := (transports s)(?t \<mapsto> (zero_transport V)\<lparr>remote_ip := ip, local_ip := local\<rparr>),
      hash_table := hash_table s @ [(ip, ?t)]\<rparr>"
  have inv1: "pool_inv ?s1 ns xs" by (rule pool_inv_cong[OF inv]) simp_all
  obtain s2 tr2 qp s4 where c: "create_once Q E V ?t ?s1 = Inr s2" "transports s2 ?t = Some tr2" "rc_qp tr2 = Some qp"
      "hash_table s2 = hash_table ?s1" and com: "complete_once V ?t (s2\<lparr>transports := (transports s2)(?t \<mapsto>
      tr2\<lparr>local_qp_attr := local_attr l (px_qp_num P qp), remote_qp_attr := a\<rparr>)\<rparr>) = Inr s4"
      "connected_to V P ip l a ns xs ?t s s4" "host2ipstr s4 = host2ipstr s"
    using set_up[OF inv1 E V, where ?s0.0 = s and t = ?t and ip = ip and local = local and Q = Q and P = P and l = l and a = a] room by auto
  have run: "accept_turn Q E V (px_qp_num P) local ip (px_exchange P) s = Inr s4"
    using accept_new_host[OF E ip new] c(1) exchange_with_caller[OF X c(2,3)] com(1)
    by (simp add: accept_turn_def)
  have look: "lookup_ip V (hash_table s4) ip = Some ?t"
    using com(2) new by (auto simp: connected_to_def lookup_added)
  obtain tr where "transports s4 ?t = Some tr" "is_ready tr = 1"
    using com(2) by (auto simp: connected_to_def)
  with look have "map_of (host2ipstr s) host = Some ip \<Longrightarrow> get_transport_from_ip Q E V P' host port s4 = Some (Inr (?t, s4))"
    for host P' port by (intro found_at_once) (simp_all add: com(3))
  with run com(2) look show ?thesis by blast
qed

text \<open>
  C20: A host that connects to this one for the first time is connected: one turn of the accept thread
  enters its transport in the table, takes the queue pair through INIT, RTR with the attributes
  that the host sent, and RTS, posts 1024 receives, and from then on a sender of this process that
  resolves a name to the address gets this transport and sets up no other.
\<close>

theorem accepted_host_is_connected:
  assumes "pool_inv s ns xs" and "calls_succeed E" and "net_succeeds V"
    and "length ip < IP_CHAR_SIZE" "length local < IP_CHAR_SIZE" and "lookup_ip V (hash_table s) ip = None"
    and "caller_sends (px_exchange P) l a"
    and "unat (total_size s) + round_up (1024 - length xs) < 2 ^ 32"
  shows "\<exists>t s'. accept_turn Q E V (px_qp_num P) local ip (px_exchange P) s = Inr s' \<and>
    connected_to V P ip l a ns xs t s s' \<and> lookup_ip V (hash_table s') ip = Some t \<and>
    (\<forall>host P' port. map_of (host2ipstr s) host = Some ip \<longrightarrow>
       get_transport_from_ip Q E V P' host port s' = Some (Inr (t, s')))"
  using assms by (rule accepts)

section \<open>Two hosts\<close>

lemma calls_of_connected:
  "connected_to V P ip l a ns xs t s s' \<Longrightarrow> v_qp V t = Some qp \<Longrightarrow>
    calls_of qp s' = calls_of qp s @ [init_call, rtr_call a, rts_call (local_attr l (px_qp_num P qp))]"
  by (auto simp: connected_to_def calls_of_def)

lemma connected_transport:
  assumes "connected_to V P ip l a ns xs t s s'" "v_qp V t = Some qp"
  obtains tr where "transports s' t = Some tr" "remote_qp_attr tr = a" "local_qp_attr tr = local_attr l (px_qp_num P qp)"
    "is_ready tr = 1"
  using assms by (auto simp: connected_to_def)

text \<open>
  C3: Two hosts that run this code against each other agree on the connection: when a sender on the
  one calls \<open>get_transport_from_ip\<close> and the accept thread of the other takes its turn, and each
  reads from the socket the bytes that the other has written, then both calls end with a ready
  transport, each end holds as remote attributes the local attributes of the other, and each queue
  pair went through INIT, RTR with the attributes of the other end, and RTS with its own.
\<close>

theorem both_ends_connect:
  fixes PA PB :: peer
  assumes A: "pool_inv sA nsA xsA" "calls_succeed EA" "net_succeeds VA" "new_host VA host ipB localA sA"
      "unat (total_size sA) + round_up (1024 - length xsA) < 2 ^ 32"
    and B: "pool_inv sB nsB xsB" "calls_succeed EB" "net_succeeds VB" "length ipA < IP_CHAR_SIZE"
      "length localB < IP_CHAR_SIZE" "lookup_ip VB (hash_table sB) ipA = None"
      "unat (total_size sB) + round_up (1024 - length xsB) < 2 ^ 32"
    and qps: "v_qp VA = (\<lambda>_. Some qpA)" "v_qp VB = (\<lambda>_. Some qpB)"
    and sockets: "0 \<le> px_socket PA" "\<And>port ip. 0 \<le> px_connect PA port ip"
      "0 \<le> write_rc (px_exchange PA)" "0 \<le> read_rc (px_exchange PA)"
      "0 \<le> write_rc (px_exchange PB)" "0 \<le> read_rc (px_exchange PB)"
    and ports: "get_local_lid (px_exchange PA) = Inr lA" "get_local_lid (px_exchange PB) = Inr lB"
    and wire: "read_got (px_exchange PB) = fill_tmp (local_attr lA (px_qp_num PA qpA)) raw_uninit"
      "read_got (px_exchange PA) = fill_tmp (local_attr lB (px_qp_num PB qpB)) (read_got (px_exchange PB))"
  shows "\<exists>tA sA' trA tB sB' trB.
    get_transport_from_ip QA EA VA PA host port sA = Some (Inr (tA, sA')) \<and> transports sA' tA = Some trA \<and>
    accept_turn QB EB VB (px_qp_num PB) localB ipA (px_exchange PB) sB = Inr sB' \<and>
    lookup_ip VB (hash_table sB') ipA = Some tB \<and> transports sB' tB = Some trB \<and>
    is_ready trA = 1 \<and> is_ready trB = 1 \<and>
    remote_qp_attr trA = local_qp_attr trB \<and> remote_qp_attr trB = local_qp_attr trA \<and>
    calls_of qpA sA' = calls_of qpA sA @ [init_call, rtr_call (local_qp_attr trB), rts_call (local_qp_attr trA)] \<and>
    calls_of qpB sB' = calls_of qpB sB @ [init_call, rtr_call (local_qp_attr trA), rts_call (local_qp_attr trB)]"
proof -
  let ?aA = "local_attr lA (px_qp_num PA qpA)" and ?aB = "local_attr lB (px_qp_num PB qpB)"
  have u: "length raw_uninit = sizeof_qp_attr" by (simp add: raw_uninit_def)
  then have g: "length (read_got (px_exchange PB)) = sizeof_qp_attr" by (simp add: wire(1) length_fill_tmp)
  have pA: "peer_answers PA lA ?aB"
    using sockets ports(1) wire(2) g by (auto simp: peer_answers_def)
  have pB: "caller_sends (px_exchange PB) lB ?aA"
    using sockets ports(2) wire(1) u by (auto simp: caller_sends_def)
  have q: "v_qp VA t = Some qpA" "v_qp VB t = Some qpB" for t by (simp_all add: qps)
  obtain tA sA' where a: "get_transport_from_ip QA EA VA PA host port sA = Some (Inr (tA, sA'))"
      "connected_to VA PA ipB lA ?aB nsA xsA tA sA sA'"
    using connects[OF A(1-4) pA A(5), of QA port] by blast
  obtain tB sB' where b: "accept_turn QB EB VB (px_qp_num PB) localB ipA (px_exchange PB) sB = Inr sB'"
      "connected_to VB PB ipA lB ?aA nsB xsB tB sB sB'" "lookup_ip VB (hash_table sB') ipA = Some tB"
    using accepts[OF B(1-6) pB B(7), of QB] by blast
  obtain trA where tA: "transports sA' tA = Some trA" "remote_qp_attr trA = ?aB" "local_qp_attr trA = ?aA" "is_ready trA = 1"
    by (rule connected_transport[OF a(2) q(1)])
  obtain trB where tB: "transports sB' tB = Some trB" "remote_qp_attr trB = ?aA" "local_qp_attr trB = ?aB" "is_ready trB = 1"
    by (rule connected_transport[OF b(2) q(2)])
  show ?thesis
    using a(1) b(1,3) tA tB calls_of_connected[OF a(2) q(1)] calls_of_connected[OF b(2) q(2)]
    by (intro exI[of _ tA] exI[of _ sA'] exI[of _ trA] exI[of _ tB] exI[of _ sB'] exI[of _ trB]) simp
qed

section \<open>Witnesses\<close>


theorem accepted_host_is_connected_witness:
  "\<exists>t s' tr. accept_turn list_gqueue demo_env demo_net (px_qp_num demo_peer) ''10.0.0.1'' ''10.0.0.2''
      (px_exchange demo_peer) demo_conn = Inr s' \<and> transports s' t = Some tr \<and> is_ready tr = 1 \<and>
     remote_qp_attr tr = local_attr 9 511"
proof -
  have "lookup_ip demo_net (hash_table demo_conn) ''10.0.0.2'' = None" "caller_sends (px_exchange demo_peer) 7 (local_attr 9 511)"
    "length ''10.0.0.2'' < IP_CHAR_SIZE" "length ''10.0.0.1'' < IP_CHAR_SIZE"
    using demo_new_host demo_peer_answers by (simp_all add: new_host_def peer_answers_def caller_sends_def IP_CHAR_SIZE_def)
  moreover have "unat (total_size demo_conn) + round_up (1024 - length []) < 2 ^ 32"
    by (simp add: demo_conn_def round_up_def)
  ultimately show ?thesis
    using accepted_host_is_connected[OF demo_conn_inv demo_calls demo_net_succeeds, of "''10.0.0.2''" "''10.0.0.1''"
      demo_peer 7 "local_attr 9 511" list_gqueue]
    by (fastforce simp: connected_to_def)
qed

definition net_of_qp :: "nat \<Rightarrow> nat list net" where
  "net_of_qp qp = demo_net\<lparr>v_qp := \<lambda>_. Some qp\<rparr>"

text \<open>The host whose queue pair has the number \<open>n\<close> and whose port has the id \<open>l\<close>; it reads \<open>got\<close>.\<close>

definition end_of :: "u16 \<Rightarrow> u32 \<Rightarrow> u8 option list \<Rightarrow> peer" where
  "end_of l n got = \<lparr>px_exchange = demo_exchange l 12 got, px_qp_num = \<lambda>qp. n, px_socket = 5, px_connect = \<lambda>_ _. 0\<rparr>"

theorem both_ends_connect_witness:
  "\<exists>tA sA' trA tB sB' trB.
     get_transport_from_ip list_gqueue demo_env (net_of_qp 5)
       (end_of 7 300 (fill_tmp (local_attr 9 511) (fill_tmp (local_attr 7 300) raw_uninit))) ''node2'' 0 demo_conn
       = Some (Inr (tA, sA')) \<and> transports sA' tA = Some trA \<and>
     accept_turn list_gqueue demo_env (net_of_qp 6) (\<lambda>_. 511) ''10.0.0.2'' ''10.0.0.1''
       (px_exchange (end_of 9 511 (fill_tmp (local_attr 7 300) raw_uninit))) demo_conn = Inr sB' \<and>
     transports sB' tB = Some trB \<and> remote_qp_attr trA = local_qp_attr trB \<and> remote_qp_attr trB = local_qp_attr trA"
proof -
  let ?PA = "end_of 7 300 (fill_tmp (local_attr 9 511) (fill_tmp (local_attr 7 300) raw_uninit))"
  let ?PB = "end_of 9 511 (fill_tmp (local_attr 7 300) raw_uninit)"
  have net: "net_succeeds (net_of_qp n)" for n
    using demo_net_succeeds by (simp add: net_succeeds_def net_of_qp_def)
  have host: "new_host (net_of_qp 5) ''node2'' ''10.0.0.2'' ''10.0.0.2'' demo_conn"
    by (simp add: new_host_def net_of_qp_def lookup_ip_def IP_CHAR_SIZE_def demo_conn_def)
  have room: "unat (total_size demo_conn) + round_up (1024 - length []) < 2 ^ 32"
    by (simp add: demo_conn_def round_up_def)
  have ips: "length ''10.0.0.1'' < IP_CHAR_SIZE" "length ''10.0.0.2'' < IP_CHAR_SIZE"
    "lookup_ip (net_of_qp 6) (hash_table demo_conn) ''10.0.0.1'' = None"
    by (simp_all add: IP_CHAR_SIZE_def lookup_ip_def demo_conn_def)
  have x: "v_qp (net_of_qp 5) = (\<lambda>_. Some 5)" "v_qp (net_of_qp 6) = (\<lambda>_. Some 6)" "0 \<le> px_socket ?PA"
    "\<And>port ip. 0 \<le> px_connect ?PA port ip"
    "0 \<le> write_rc (px_exchange ?PA)" "0 \<le> read_rc (px_exchange ?PA)"
    "0 \<le> write_rc (px_exchange ?PB)" "0 \<le> read_rc (px_exchange ?PB)"
    "get_local_lid (px_exchange ?PA) = Inr 7" "get_local_lid (px_exchange ?PB) = Inr 9"
    "read_got (px_exchange ?PB) = fill_tmp (local_attr 7 (px_qp_num ?PA 5)) raw_uninit"
    "read_got (px_exchange ?PA) = fill_tmp (local_attr 9 (px_qp_num ?PB 6)) (read_got (px_exchange ?PB))"
    by (simp_all add: net_of_qp_def end_of_def demo_exchange_def get_local_lid_def)
  show ?thesis
    using both_ends_connect[OF demo_conn_inv demo_calls net host room demo_conn_inv demo_calls net
        ips(1,2,3) room x, of list_gqueue 0 list_gqueue]
    by (elim exE conjE) (auto simp: end_of_def)
qed

end
