(* ===== verification/Receive_Groups.thy ===== *)
theory Receive_Groups
  imports Receive Client_Framing
begin

text \<open>
  What the receiver is to do with the frames that arrive, as a function on lists, and that the rest
  of the loop body of \<open>work_thread\<close> does it for one complete message.
\<close>

section \<open>Grouping the frames that arrive\<close>

text \<open>
  The specification of the receiver: frames, pairs of a data id and a chunk, are collected into
  groups by data id, in the order of the first frame of each id.
\<close>

type_synonym group = "u32 \<times> caddr list"

fun add_frame :: "u32 \<times> caddr \<Rightarrow> group list \<Rightarrow> group list" where
  "add_frame (did, c) [] = [(did, [c])]"
| "add_frame (did, c) ((d, cs) # gs) =
     (if d = did then (d, cs @ [c]) # gs else (d, cs) # add_frame (did, c) gs)"

definition groups_of :: "(u32 \<times> caddr) list \<Rightarrow> group list" where
  "groups_of fs = fold add_frame fs []"

lemma groups_of_simps [simp]:
  "groups_of [] = []" "groups_of (fs @ [f]) = add_frame f (groups_of fs)"
  by (simp_all add: groups_of_def)

lemma add_frame_new: "did \<notin> fst ` set gs \<Longrightarrow> add_frame (did, c) gs = gs @ [(did, [c])]"
  by (induction gs) auto

lemma add_frame_append: "did \<notin> fst ` set gs \<Longrightarrow> add_frame (did, c) (gs @ hs) = gs @ add_frame (did, c) hs"
  by (induction gs) auto

lemma fst_add_frame: "fst ` set (add_frame (did, c) gs) = insert did (fst ` set gs)"
proof (induction gs)
  case Nil
  then show ?case by simp
next
  case (Cons g gs)
  then show ?case by (cases g; cases "fst g = did") (simp_all add: insert_commute)
qed

lemma distinct_add_frame: "distinct (map fst gs) \<Longrightarrow> distinct (map fst (add_frame (did, c) gs))"
  by (induction gs) (auto simp: fst_add_frame)

lemma add_frame_cases:
  "distinct (map fst gs) \<Longrightarrow> (d, cs) \<in> set (add_frame (did, c) gs) \<Longrightarrow>
   d \<noteq> did \<and> (d, cs) \<in> set gs \<or> d = did \<and> cs = [c] \<and> did \<notin> fst ` set gs
   \<or> d = did \<and> (\<exists>cs'. cs = cs' @ [c] \<and> (did, cs') \<in> set gs)"
proof (induction gs)
  case Nil
  then show ?case by simp
next
  case (Cons g gs)
  obtain d' cs' where g: "g = (d', cs')" by (cases g)
  have "d' \<notin> fst ` set gs" using Cons.prems(1) by (simp add: g)
  then have "(d', x) \<notin> set gs" for x by force
  with Cons show ?case by (auto simp: g split: if_splits)
qed

lemma groups_of_ids:
  "distinct (map fst (groups_of fs))" "fst ` set (groups_of fs) = fst ` set fs"
proof -
  have "distinct (map fst (groups_of fs)) \<and> fst ` set (groups_of fs) = fst ` set fs"
  proof (induction fs rule: rev_induct)
    case Nil
    then show ?case by simp
  next
    case (snoc f fs)
    then show ?case by (cases f) (auto simp: fst_add_frame distinct_add_frame)
  qed
  then show "distinct (map fst (groups_of fs))" "fst ` set (groups_of fs) = fst ` set fs" by auto
qed

definition of_id :: "u32 \<Rightarrow> (u32 \<times> caddr) list \<Rightarrow> caddr list" where
  "of_id did fs = map snd (filter (\<lambda>f. fst f = did) fs)"

lemma of_id_simps [simp]:
  "of_id did [] = []" "of_id did (fs @ gs) = of_id did fs @ of_id did gs"
  "of_id did (f # fs) = (if fst f = did then snd f # of_id did fs else of_id did fs)"
  by (simp_all add: of_id_def)

lemma of_id_empty: "did \<notin> fst ` set fs \<Longrightarrow> of_id did fs = []"
  by (auto simp: of_id_def filter_empty_conv)

lemma groups_of_members: "(did, cs) \<in> set (groups_of fs) \<Longrightarrow> cs = of_id did fs \<and> cs \<noteq> []"
proof (induction fs arbitrary: did cs rule: rev_induct)
  case Nil
  then show ?case by simp
next
  case (snoc f fs)
  obtain d c where f: "f = (d, c)" by (cases f)
  have "(did, cs) \<in> set (add_frame (d, c) (groups_of fs))" using snoc.prems by (simp add: f)
  from add_frame_cases[OF groups_of_ids(1) this] snoc.IH show ?case
    by (auto simp: f groups_of_ids(2) of_id_empty)
qed

text \<open>The chunks of the groups are the chunks of the frames.\<close>

lemma set_of_id: "set (of_id did fs) \<subseteq> snd ` set fs"
  by (auto simp: of_id_def)

section \<open>What the worker hands over\<close>

text \<open>The positions of the chunks in the array, counted in 32 bits.\<close>

fun regions_from ::
  "(caddr \<Rightarrow> rdma_chunk_header) \<Rightarrow> (caddr \<Rightarrow> chunk_body) \<Rightarrow> u32 \<Rightarrow> caddr list \<Rightarrow> (int \<times> int \<times> u8 list) list" where
  "regions_from H B pos [] = []"
| "regions_from H B pos (c # cs) =
     (sint pos, sint (chunk_len (H c)), map (B c) [0..<unat (chunk_len (H c))])
     # regions_from H B (pos + chunk_len (H c)) cs"

definition total_len :: "(caddr \<Rightarrow> rdma_chunk_header) \<Rightarrow> caddr list \<Rightarrow> u32" where
  "total_len H cs = sum_list (map (\<lambda>c. chunk_len (H c)) cs)"

definition message_delivery ::
  "(caddr \<Rightarrow> rdma_chunk_header) \<Rightarrow> (caddr \<Rightarrow> chunk_body) \<Rightarrow> string \<Rightarrow> group \<Rightarrow> delivery" where
  "message_delivery H B ip g =
     \<lparr>dv_remote = ip, dv_alloc = sint (total_len H (snd g)), dv_regions = regions_from H B 0 (snd g),
      dv_len = sint (total_len H (snd g))\<rparr>"

lemma regions_from_cong:
  "(\<And>c. c \<in> set cs \<Longrightarrow> H c = H' c \<and> B c = B' c) \<Longrightarrow> regions_from H B pos cs = regions_from H' B' pos cs"
  by (induction cs arbitrary: pos) simp_all

lemma total_len_cong: "(\<And>c. c \<in> set cs \<Longrightarrow> H c = H' c) \<Longrightarrow> total_len H cs = total_len H' cs"
  by (simp add: total_len_def cong: map_cong)

lemma message_delivery_cong:
  assumes "\<And>c. c \<in> set (snd g) \<Longrightarrow> H c = H' c \<and> B c = B' c"
  shows "message_delivery H B ip g = message_delivery H' B' ip g"
  using regions_from_cong[OF assms] total_len_cong[of "snd g" H H'] assms by (simp add: message_delivery_def)

lemma regions_from_snoc:
  "regions_from H B pos (cs @ [c]) = regions_from H B pos cs @
     [(sint (pos + total_len H cs), sint (chunk_len (H c)), map (B c) [0..<unat (chunk_len (H c))])]"
  by (induction cs arbitrary: pos) (simp_all add: total_len_def add.assoc)

lemma total_len_snoc: "total_len H (cs @ [c]) = total_len H cs + chunk_len (H c)"
  by (simp add: total_len_def)

lemma sum_loop:
  assumes "va_data va = map Some cs" "list_all (chunk_live s) cs"
    "list_all (\<lambda>c. data_id (header_of s c) = va_data_id va) cs"
  shows "for_loop 0 (length cs) (sum_turn va s) 0 = Inr (total_len (header_of s) cs)"
proof -
  have "\<exists>r. for_loop 0 (length cs) (sum_turn va s) 0 = Inr r
      \<and> r = total_len (header_of s) (take (0 + length cs) cs)"
    by (rule for_loop_rule)
      (use assms in \<open>auto simp: total_len_def sum_turn_def load_data_def chunk_at_def list_all_length
        take_Suc_conv_app_nth\<close>)
  then show ?thesis by simp
qed

lemma region_loop:
  assumes "va_data va = map Some cs" "list_all (chunk_live s) cs"
    "list_all (\<lambda>c. unat (chunk_len (header_of s c)) \<le> body_size) cs"
  shows "for_loop 0 (length cs) (region_turn va s) (0, [])
    = Inr (total_len (header_of s) cs, regions_from (header_of s) (body_of s) 0 cs)"
proof -
  have "\<exists>r. for_loop 0 (length cs) (region_turn va s) (0, []) = Inr r
      \<and> r = (total_len (header_of s) (take (0 + length cs) cs),
             regions_from (header_of s) (body_of s) 0 (take (0 + length cs) cs))"
    by (rule for_loop_rule)
      (use assms in \<open>auto simp: total_len_snoc regions_from_snoc region_turn_def load_data_def
        chunk_at_def list_all_length take_Suc_conv_app_nth total_len_def body_size_def Let_def\<close>)
  then show ?thesis by simp
qed

lemma pool_wf_live: "pool_wf all free s \<Longrightarrow> a \<in> set all \<Longrightarrow> chunk_live s a"
  by (auto simp: pool_wf_def dest: pool_invD(9))

lemma pool_wf_more [simp]:
  "pool_wf all free (s\<lparr>work_chunks := w\<rparr>) = pool_wf all free s"
  "pool_wf all free (s\<lparr>varrays := va\<rparr>) = pool_wf all free s"
  "pool_wf all free (s\<lparr>transports := ts\<rparr>) = pool_wf all free s"
  "pool_wf all free (s\<lparr>pool_pushes := ps\<rparr>) = pool_wf all free s"
  "pool_wf all free (s\<lparr>deliveries := ds\<rparr>) = pool_wf all free s"
  by (simp_all add: pool_wf_def)

text \<open>
  The rest of the loop body of \<open>work_thread\<close> on an array that holds a complete message.
\<close>

definition finished :: "nat \<Rightarrow> delivery \<Rightarrow> ('q, 'z) rt_scheme \<Rightarrow> ('q, 'z) rt_scheme \<Rightarrow> bool" where
  "finished v d s s' \<longleftrightarrow>
     header_of s' = header_of s \<and> body_of s' = body_of s \<and> fresh s' = fresh s \<and>
     mem.more s' = mem.more (s\<lparr>varrays := (varrays s)(v := None), deliveries := deliveries s @ [d]\<rparr>)"

lemma release_frame:
  "release_rdma_chunk_to_pool p s = Inr s' \<Longrightarrow>
   header_of s' = header_of s \<and> body_of s' = body_of s \<and> fresh s' = fresh s \<and> mem.more s' = mem.more s"
  by (auto simp: release_rdma_chunk_to_pool_def bind_res_Inr_iff split: if_splits)

lemma release_loop_frame:
  "for_loop i n (release_turn va) s = Inr s' \<Longrightarrow>
   header_of s' = header_of s \<and> body_of s' = body_of s \<and> fresh s' = fresh s \<and> mem.more s' = mem.more s"
proof (induction n arbitrary: i s)
  case 0
  then show ?case by simp
next
  case (Suc n)
  then obtain s1 where s1: "release_turn va i s = Inr s1" "for_loop (Suc i) n (release_turn va) s1 = Inr s'"
    by (auto simp: bind_res_Inr_iff)
  from s1(1) obtain p where "release_rdma_chunk_to_pool p s = Inr s1"
    by (auto simp: release_turn_def bind_res_Inr_iff)
  with Suc.IH[OF s1(2)] release_frame[of p s s1] show ?case by simp
qed

lemma work_message_delivers:
  assumes wf: "pool_wf all xs s" and tr: "transports s t = Some tr" "is_work_running tr = 1"
    and va: "varrays s v = Some va" "va_len va = va_size va" "unat (va_size va) = length cs"
      "va_data va = map Some cs" "va_data_id va = did"
    and cs: "cs \<noteq> []" "distinct cs" "set cs \<subseteq> set all - set xs"
    and ids: "list_all (\<lambda>c. data_id (header_of s c) = did) cs"
    and lens: "list_all (\<lambda>c. unat (chunk_len (header_of s c)) \<le> body_size) cs"
    and tot: "data_len (header_of s (hd cs)) = total_len (header_of s) cs"
  shows "\<exists>s'. work_message t v s = Inr s' \<and> pool_wf all (rev cs @ xs) s' \<and>
    finished v (message_delivery (header_of s) (body_of s) (remote_ip tr) (did, cs)) s s'"
proof -
  have live: "list_all (chunk_live s) cs"
    using cs(3) pool_wf_live[OF wf] by (auto simp: list_all_iff)
  let ?d = "message_delivery (header_of s) (body_of s) (remote_ip tr) (did, cs)"
  let ?s1 = "s\<lparr>deliveries := deliveries s @ [?d]\<rparr>"
  have "pool_wf all xs ?s1" using wf by simp
  from rbp.release_loop[OF this cs(2,3)] obtain s2 where
      r: "for_loop 0 (length cs) (\<lambda>i. release_rdma_chunk_to_pool (Some (cs ! i))) ?s1 = Inr s2"
      "pool_wf all (rev cs @ xs) s2" by blast
  have "for_loop 0 (length cs) (release_turn va) ?s1 = Inr s2"
    using r(1) by (subst for_loop_cong[where g = "\<lambda>i. release_rdma_chunk_to_pool (Some (cs ! i))"])
      (simp_all add: release_turn_def load_data_def va(4))
  note loop = this release_loop_frame[OF this]
  have more: "mem.more s2 = mem.more ?s1" using loop(2) by simp
  let ?s' = "s2\<lparr>varrays := (varrays s2)(v := None)\<rparr>"
  have "chunk_live s (hd cs)" "va_data va = Some (hd cs) # map Some (tl cs)"
    using live cs(1) va(4) by (cases cs; simp)+
  then have "work_message t v s = Inr ?s'"
    using sum_loop[OF va(4) live] region_loop[OF va(4) live lens] ids tot tr va(1,2,3,5) loop(1)
    by (simp add: work_message_def transport_at_def varray_at_def load_data_def chunk_at_def
        message_delivery_def)
  moreover have "finished v ?d s ?s'"
    using loop(2) rt_fields_cong[OF more] unfolding finished_def
    by (cases s; cases s2) simp
  moreover have "pool_wf all (rev cs @ xs) ?s'" using r(2) by simp
  ultimately show ?thesis by blast
qed
end
