(* ===== verification/Receive_Threads.thy ===== *)
theory Receive_Threads
  imports Receive_Groups
begin

text \<open>
  The handle thread of a connection and the workers that the thread pool runs for it, as a step
  relation over the locked sections of \<open>handle_recv_event\<close> and \<open>work_thread\<close>.
\<close>

section \<open>The threads of one connection\<close>

text \<open>
  Where the handle thread is in \<open>handle_recv_event\<close>: between two completions; after the search,
  with its result; after the chunk is stored. A worker is one run of \<open>work_thread\<close> by the thread
  pool, numbered by its push: at the top of the loop, with a message taken off the queue, or done.
\<close>

datatype handler_pc = Waiting | Looked ibv_wc "nat option" | Stored ibv_wc | Handler_crashed fault

datatype worker_pc = Looping | Working nat | Finished | Worker_crashed fault

record 'q recv_sys = "'q rt" +
  todo :: "ibv_wc list"
  hpc :: handler_pc
  workers :: "nat \<Rightarrow> worker_pc"

abbreviation set_worker :: "nat \<Rightarrow> worker_pc \<Rightarrow> 'q recv_sys \<Rightarrow> 'q recv_sys" where
  "set_worker k p s \<equiv> s\<lparr>workers := (workers s)(k := p)\<rparr>"

text \<open>
  One step of the handle thread or of a worker. \<open>todo\<close> are the completions that \<open>handle_thread\<close>
  still takes off its own queue; worker \<open>k\<close> exists once the \<open>k\<close>-th push is made, and serves the
  transport that was pushed.
\<close>

inductive recv_step :: "'q gqueue_ops \<Rightarrow> env \<Rightarrow> 'q recv_sys \<Rightarrow> 'q recv_sys \<Rightarrow> bool" for Q E where
  handle_bad: "hpc s = Waiting \<Longrightarrow> todo s = wc # rest \<Longrightarrow>
     status wc \<noteq> IBV_WC_SUCCESS \<or> opcode wc \<notin> {IBV_WC_SEND, IBV_WC_RECV} \<Longrightarrow>
     recv_step Q E s (s\<lparr>hpc := Handler_crashed Aborted\<rparr>)"
| handle_send: "hpc s = Waiting \<Longrightarrow> todo s = wc # rest \<Longrightarrow> status wc = IBV_WC_SUCCESS \<Longrightarrow>
     opcode wc = IBV_WC_SEND \<Longrightarrow> handle_send_event wc s = Inr s1 \<Longrightarrow>
     recv_step Q E s (s1\<lparr>todo := rest\<rparr>)"
| handle_send_crash: "hpc s = Waiting \<Longrightarrow> todo s = wc # rest \<Longrightarrow> status wc = IBV_WC_SUCCESS \<Longrightarrow>
     opcode wc = IBV_WC_SEND \<Longrightarrow> handle_send_event wc s = Inl e \<Longrightarrow>
     recv_step Q E s (s\<lparr>hpc := Handler_crashed e\<rparr>)"
| look: "hpc s = Waiting \<Longrightarrow> todo s = wc # rest \<Longrightarrow> status wc = IBV_WC_SUCCESS \<Longrightarrow>
     opcode wc = IBV_WC_RECV \<Longrightarrow> recv_find Q wc s = Inr found \<Longrightarrow>
     recv_step Q E s (s\<lparr>todo := rest, hpc := Looked wc found\<rparr>)"
| look_crash: "hpc s = Waiting \<Longrightarrow> todo s = wc # rest \<Longrightarrow> status wc = IBV_WC_SUCCESS \<Longrightarrow>
     opcode wc = IBV_WC_RECV \<Longrightarrow> recv_find Q wc s = Inl e \<Longrightarrow>
     recv_step Q E s (s\<lparr>hpc := Handler_crashed e\<rparr>)"
| store: "hpc s = Looked wc found \<Longrightarrow> recv_store Q E wc found s = Inr s1 \<Longrightarrow>
     recv_step Q E s (s1\<lparr>hpc := Stored wc\<rparr>)"
| store_crash: "hpc s = Looked wc found \<Longrightarrow> recv_store Q E wc found s = Inl e \<Longrightarrow>
     recv_step Q E s (s\<lparr>hpc := Handler_crashed e\<rparr>)"
| wake: "hpc s = Stored wc \<Longrightarrow> work_chunk_at s (wc_wr_id wc) = Inr w \<Longrightarrow>
     recv_wake Q (wc_transport w) s = Inr s1 \<Longrightarrow>
     recv_step Q E s ((free_work_chunk (wc_wr_id wc) s1)\<lparr>hpc := Waiting\<rparr>)"
| wake_crash: "hpc s = Stored wc \<Longrightarrow>
     bind_res (work_chunk_at s (wc_wr_id wc)) (\<lambda>w. recv_wake Q (wc_transport w) s) = Inl e \<Longrightarrow>
     recv_step Q E s (s\<lparr>hpc := Handler_crashed e\<rparr>)"
| take: "k < length (pool_pushes s) \<Longrightarrow> workers s k = Looping \<Longrightarrow>
     work_take Q (pool_pushes s ! k) s = Inr (Some head, s1) \<Longrightarrow>
     recv_step Q E s (set_worker k (Working head) s1)"
| stop: "k < length (pool_pushes s) \<Longrightarrow> workers s k = Looping \<Longrightarrow>
     work_take Q (pool_pushes s ! k) s = Inr (None, s1) \<Longrightarrow>
     recv_step Q E s (set_worker k Finished s1)"
| take_crash: "k < length (pool_pushes s) \<Longrightarrow> workers s k = Looping \<Longrightarrow>
     work_take Q (pool_pushes s ! k) s = Inl e \<Longrightarrow>
     recv_step Q E s (set_worker k (Worker_crashed e) s)"
| deliver: "k < length (pool_pushes s) \<Longrightarrow> workers s k = Working head \<Longrightarrow>
     work_message (pool_pushes s ! k) head s = Inr s1 \<Longrightarrow>
     recv_step Q E s (set_worker k Looping s1)"
| deliver_crash: "k < length (pool_pushes s) \<Longrightarrow> workers s k = Working head \<Longrightarrow>
     work_message (pool_pushes s ! k) head s = Inl e \<Longrightarrow>
     recv_step Q E s (set_worker k (Worker_crashed e) s)"

section \<open>What arrives\<close>

text \<open>
  The completions of one connection, each with the chunk its work chunk leads to. The frames of
  several messages may be mixed in any way, but all frames of all messages arrive: every received
  frame says how many frames have its data id, and the lengths of these add up to the length of
  the message. That is what senders produce (theory \<open>Client_Message\<close>), while no data id is used
  twice.
\<close>

type_synonym arrival = "ibv_wc \<times> caddr"

definition frames :: "(caddr \<Rightarrow> rdma_chunk_header) \<Rightarrow> arrival list \<Rightarrow> (u32 \<times> caddr) list" where
  "frames H arr = map (\<lambda>(wc, c). (data_id (H c), c)) (filter (\<lambda>(wc, c). opcode wc = IBV_WC_RECV) arr)"

definition arrival_ok :: "(caddr \<Rightarrow> rdma_chunk_header) \<Rightarrow> (u32 \<times> caddr) list \<Rightarrow> arrival \<Rightarrow> bool" where
  "arrival_ok H fs a \<longleftrightarrow> (case a of (wc, c) \<Rightarrow>
     status wc = IBV_WC_SUCCESS \<and> opcode wc \<in> {IBV_WC_SEND, IBV_WC_RECV} \<and>
     (opcode wc = IBV_WC_RECV \<longrightarrow>
        byte_len wc = chunk_len (H c) + RDMA_HEADER_SIZE \<and>
        unat (chunk_len (H c)) \<le> body_size \<and>
        unat (chunk_num (H c)) = length (of_id (data_id (H c)) fs) \<and>
        data_len (H c) = total_len H (of_id (data_id (H c)) fs)))"

definition arrivals_ok :: "(caddr \<Rightarrow> rdma_chunk_header) \<Rightarrow> arrival list \<Rightarrow> bool" where
  "arrivals_ok H arr \<longleftrightarrow> distinct (map (wc_wr_id \<circ> fst) arr) \<and> distinct (map snd arr) \<and>
     list_all (arrival_ok H (frames H arr)) arr"

text \<open>
  The fixed surroundings of a run: the connection, what arrives on it, and what belongs to other
  threads, which are arrays (\<open>cx_others\<close>) and chunks that are out of the pool (\<open>cx_out\<close>).
\<close>

record recv_ctx =
  cx_t :: nat
  cx_arr :: "arrival list"
  cx_H :: "caddr \<Rightarrow> rdma_chunk_header"
  cx_B :: "caddr \<Rightarrow> chunk_body"
  cx_ip :: string
  cx_before :: "delivery list"
  cx_others :: "nat set"
  cx_out :: "caddr set"

abbreviation "cx_frames cx \<equiv> frames (cx_H cx) (cx_arr cx)"

text \<open>The array at \<open>v\<close> holds the chunks of a group, and room for the rest of its message.\<close>

definition holds :: "recv_ctx \<Rightarrow> (nat \<rightharpoonup> varray_t) \<Rightarrow> nat \<Rightarrow> group \<Rightarrow> bool" where
  "holds cx vm v g \<longleftrightarrow> (case vm v of None \<Rightarrow> False | Some va \<Rightarrow>
     va_data_id va = fst g \<and> unat (va_len va) = length (snd g) \<and>
     unat (va_size va) = length (of_id (fst g) (cx_frames cx)) \<and>
     va_data va = map Some (snd g) @ replicate (length (of_id (fst g) (cx_frames cx)) - length (snd g)) None)"

definition complete :: "recv_ctx \<Rightarrow> group \<Rightarrow> bool" where
  "complete cx g \<longleftrightarrow> length (snd g) = length (of_id (fst g) (cx_frames cx))"

definition group_chunks :: "group list \<Rightarrow> caddr set" where
  "group_chunks gs = \<Union> (set ` snd ` set gs)"

section \<open>The invariant\<close>

text \<open>
  The parts of the invariant: the first \<open>k\<close> completions are handled or stored; \<open>D\<close> are the groups
  delivered, \<open>W\<close> those in a worker's hands (with their arrays \<open>ws\<close>), \<open>G\<close> those in the queue.
\<close>

definition handler_inv :: "recv_ctx \<Rightarrow> nat \<Rightarrow> nat list \<Rightarrow> group list \<Rightarrow> 'q recv_sys \<Rightarrow> bool" where
  "handler_inv cx k vs G s \<longleftrightarrow> (case hpc s of
     Waiting \<Rightarrow> todo s = map fst (drop k (cx_arr cx))
   | Looked wc found \<Rightarrow> k < length (cx_arr cx) \<and> wc = fst (cx_arr cx ! k) \<and> opcode wc = IBV_WC_RECV \<and>
       todo s = map fst (drop (Suc k) (cx_arr cx)) \<and>
       found = map_of (zip (map fst G) vs) (data_id (cx_H cx (snd (cx_arr cx ! k))))
   | Stored wc \<Rightarrow> 0 < k \<and> wc = fst (cx_arr cx ! (k - 1)) \<and> opcode wc = IBV_WC_RECV \<and>
       todo s = map fst (drop k (cx_arr cx))
   | Handler_crashed e \<Rightarrow> False)"

definition worker_inv :: "recv_ctx \<Rightarrow> int \<Rightarrow> nat list \<Rightarrow> 'q recv_sys \<Rightarrow> bool" where
  "worker_inv cx running ws s \<longleftrightarrow>
     set (pool_pushes s) \<subseteq> {cx_t cx} \<and> (\<forall>j \<ge> length (pool_pushes s). workers s j = Looping) \<and>
     (if running = 0 then ws = [] \<and> (\<forall>j < length (pool_pushes s). workers s j = Finished)
      else running = 1 \<and> (\<exists>m. length (pool_pushes s) = Suc m \<and> (\<forall>j < m. workers s j = Finished) \<and>
        (workers s m = Looping \<and> ws = [] \<or> (\<exists>v. workers s m = Working v \<and> ws = [v]))))"

text \<open>The work chunks still needed: from the completion in hand on.\<close>

definition pending :: "recv_ctx \<Rightarrow> nat \<Rightarrow> 'q recv_sys \<Rightarrow> nat" where
  "pending cx k s = (case hpc s of Stored wc \<Rightarrow> k - 1 | _ \<Rightarrow> k)"

text \<open>The chunks that the receiver holds: of messages in hand and of completions to come.\<close>

definition owned :: "recv_ctx \<Rightarrow> nat \<Rightarrow> group list \<Rightarrow> group list \<Rightarrow> caddr set" where
  "owned cx k W G = group_chunks (W @ G) \<union> snd ` set (drop k (cx_arr cx))"

definition recv_facts ::
  "('q \<Rightarrow> nat list) \<Rightarrow> recv_ctx \<Rightarrow> nat \<Rightarrow> group list \<Rightarrow> group list \<Rightarrow> group list \<Rightarrow> nat list
    \<Rightarrow> caddr list \<Rightarrow> caddr list \<Rightarrow> 'q rdma_transport \<Rightarrow> 'q recv_sys \<Rightarrow> bool" where
  "recv_facts items cx k D W G ws all free tr s \<longleftrightarrow>
     k \<le> length (cx_arr cx) \<and> transports s (cx_t cx) = Some tr \<and> remote_ip tr = cx_ip cx \<and>
     handler_inv cx k (items (work_queue tr)) G s \<and> worker_inv cx (is_work_running tr) ws s \<and>
     groups_of (frames (cx_H cx) (take k (cx_arr cx))) = D @ W @ G \<and>
     (\<forall>g \<in> set (D @ W). complete cx g) \<and>
     list_all2 (holds cx (varrays s)) (items (work_queue tr)) G \<and>
     list_all2 (holds cx (varrays s)) ws W \<and>
     distinct (ws @ items (work_queue tr)) \<and>
     dom (varrays s) = cx_others cx \<union> set (ws @ items (work_queue tr)) \<and>
     cx_others cx \<inter> set (ws @ items (work_queue tr)) = {} \<and>
     (\<forall>v \<in> dom (varrays s). v < fresh s) \<and>
     (is_work_running tr = 0 \<longrightarrow> (\<forall>wc. hpc s \<noteq> Stored wc) \<longrightarrow> G = [] \<or> \<not> complete cx (hd G)) \<and>
     deliveries s = cx_before cx @ map (message_delivery (cx_H cx) (cx_B cx) (cx_ip cx)) D \<and>
     (\<forall>i < length (cx_arr cx). pending cx k s \<le> i \<longrightarrow>
        (\<exists>n. work_chunks s (wc_wr_id (fst (cx_arr cx ! i)))
          = Some \<lparr>wc_transport = cx_t cx, wc_chunk = Some (snd (cx_arr cx ! i)), wc_len = n\<rparr>)) \<and>
     (\<forall>c \<in> owned cx k W G. header_of s c = cx_H cx c \<and> body_of s c = cx_B cx c) \<and> pool_wf all free s \<and>
     set all - set free = owned cx k W G \<union> cx_out cx \<and> owned cx k W G \<inter> cx_out cx = {} \<and>
     snd ` set (cx_arr cx) \<subseteq> set all"

definition recv_inv ::
  "'q gqueue_ops \<Rightarrow> ('q \<Rightarrow> nat list) \<Rightarrow> env \<Rightarrow> recv_ctx \<Rightarrow> 'q recv_sys \<Rightarrow> bool" where
  "recv_inv Q items E cx s \<longleftrightarrow> gqueue Q items \<and> calls_succeed E \<and> arrivals_ok (cx_H cx) (cx_arr cx) \<and>
     (\<exists>k D W G ws all free tr. recv_facts items cx k D W G ws all free tr s)"

section \<open>Lemmas on frames and groups\<close>

lemma frames_append: "frames H (as @ bs) = frames H as @ frames H bs"
  by (simp add: frames_def)

lemma frames_split: "frames H arr = frames H (take k arr) @ frames H (drop k arr)"
  by (simp flip: frames_append)

lemma frames_nth:
  assumes "k < length arr" "arr ! k = (wc, c)"
  shows "frames H (drop k arr)
      = (if opcode wc = IBV_WC_RECV then [(data_id (H c), c)] else []) @ frames H (drop (Suc k) arr)"
    and "frames H (take (Suc k) arr)
      = frames H (take k arr) @ (if opcode wc = IBV_WC_RECV then [(data_id (H c), c)] else [])"
proof -
  have "drop k arr = (wc, c) # drop (Suc k) arr" using assms by (metis Cons_nth_drop_Suc)
  then show "frames H (drop k arr)
      = (if opcode wc = IBV_WC_RECV then [(data_id (H c), c)] else []) @ frames H (drop (Suc k) arr)"
    by (simp add: frames_def)
  show "frames H (take (Suc k) arr)
      = frames H (take k arr) @ (if opcode wc = IBV_WC_RECV then [(data_id (H c), c)] else [])"
    using assms by (simp add: take_Suc_conv_app_nth frames_append) (simp add: frames_def)
qed

lemma frame_arrival: "(d, c) \<in> set (frames H arr) \<Longrightarrow> \<exists>wc. (wc, c) \<in> set arr \<and> opcode wc = IBV_WC_RECV \<and> d = data_id (H c)"
  by (auto simp: frames_def)

lemma of_id_frame: "c \<in> set (of_id d (frames H arr)) \<Longrightarrow> (d, c) \<in> set (frames H arr)"
  by (auto simp: of_id_def)

lemma arrivals_okD:
  assumes "arrivals_ok H arr" "(wc, c) \<in> set arr"
  shows "arrival_ok H (frames H arr) (wc, c)"
  using assms by (auto simp: arrivals_ok_def list_all_iff)

lemma distinct_frames:
  assumes "arrivals_ok H arr"
  shows "distinct (map snd (frames H arr))"
proof -
  have "map snd (frames H as) = map snd (filter (\<lambda>(wc, c). opcode wc = IBV_WC_RECV) as)" for as
    by (simp add: frames_def case_prod_beta)
  then show ?thesis
    using assms by (simp add: arrivals_ok_def distinct_map_filter)
qed

lemma group_facts:
  assumes ok: "arrivals_ok H arr" and g: "(did, cs) \<in> set (groups_of (frames H (take k arr)))"
  shows "cs \<noteq> []" "distinct cs" "of_id did (frames H arr) = cs @ of_id did (frames H (drop k arr))"
    "list_all (\<lambda>c. data_id (H c) = did) cs"
    "list_all (\<lambda>c. unat (chunk_len (H c)) \<le> body_size) cs"
    "list_all (\<lambda>c. data_len (H c) = total_len H (of_id did (frames H arr))) cs"
    "set cs \<subseteq> snd ` set (take k arr)"
proof -
  note m = groups_of_members[OF g]
  show "cs \<noteq> []" by (rule conjunct2[OF m])
  show split: "of_id did (frames H arr) = cs @ of_id did (frames H (drop k arr))"
    using m by (subst frames_split[of H arr k]) simp
  have "distinct (of_id did (frames H arr))"
    unfolding of_id_def using distinct_frames[OF ok] by (simp add: distinct_map_filter)
  then show "distinct cs" by (simp add: split)
  have in_take: "(did, c) \<in> set (frames H (take k arr))" if "c \<in> set cs" for c
    using that m of_id_frame by blast
  have c: "data_id (H c) = did \<and> unat (chunk_len (H c)) \<le> body_size
      \<and> data_len (H c) = total_len H (of_id did (frames H arr))" if cin: "c \<in> set cs" for c
  proof -
    obtain wc where w: "(wc, c) \<in> set (take k arr)" "opcode wc = IBV_WC_RECV" "did = data_id (H c)"
      using frame_arrival[OF in_take[OF cin]] by blast
    from arrivals_okD[OF ok in_set_takeD[OF w(1)]] w(2,3) show ?thesis by (simp add: arrival_ok_def)
  qed
  then show "list_all (\<lambda>c. data_id (H c) = did) cs"
    "list_all (\<lambda>c. unat (chunk_len (H c)) \<le> body_size) cs"
    "list_all (\<lambda>c. data_len (H c) = total_len H (of_id did (frames H arr))) cs"
    by (simp_all add: list_all_iff)
  show "set cs \<subseteq> snd ` set (take k arr)"
    using in_take frame_arrival[of did _ H "take k arr"] by force
qed

text \<open>The next frame is not of a complete group.\<close>

lemma next_not_complete:
  assumes "arrivals_ok (cx_H cx) (cx_arr cx)" "k < length (cx_arr cx)" "cx_arr cx ! k = (wc, c)"
    "opcode wc = IBV_WC_RECV" "g \<in> set (groups_of (frames (cx_H cx) (take k (cx_arr cx))))"
    "fst g = data_id (cx_H cx c)"
  shows "length (snd g) < length (of_id (fst g) (cx_frames cx))"
proof -
  have "(fst g, snd g) \<in> set (groups_of (frames (cx_H cx) (take k (cx_arr cx))))" using assms(5) by simp
  from group_facts(3)[OF assms(1) this] show ?thesis
    using assms(4,6) by (simp add: frames_nth(1)[OF assms(2,3)])
qed

section \<open>Lemmas on the queue\<close>

lemma find_holds:
  assumes "list_all2 (holds cx (varrays s)) vs G"
  shows "find (\<lambda>v. compare_func s did v = 0) vs = map_of (zip (map fst G) vs) did"
  using assms
proof (induction rule: list_all2_induct)
  case Nil
  then show ?case by simp
next
  case (Cons v vs g G)
  then show ?case by (auto simp: holds_def compare_func_def split: option.splits)
qed

lemma holds_cong: "vm' v = vm v \<Longrightarrow> holds cx vm' v g = holds cx vm v g"
  by (simp add: holds_def)

lemma list_all2_holds_cong:
  assumes "\<And>v. v \<in> set vs \<Longrightarrow> vm' v = vm v"
  shows "list_all2 (holds cx vm') vs G = list_all2 (holds cx vm) vs G"
  by (rule list.rel_cong[OF refl refl]) (rule holds_cong, rule assms)

lemma map_of_zip_member: "map_of (zip (map fst G) vs) did = Some v \<Longrightarrow> did \<in> fst ` set G \<and> v \<in> set vs"
  by (auto dest!: map_of_SomeD dest: set_zip_leftD set_zip_rightD)

lemma holds_add_frame:
  assumes "list_all2 (holds cx vm) vs G" "distinct vs" "distinct (map fst G)"
    and "map_of (zip (map fst G) vs) did = Some v"
    and "\<And>w. w \<noteq> v \<Longrightarrow> vm' w = vm w"
    and "\<And>cs. holds cx vm v (did, cs) \<Longrightarrow> (did, cs) \<in> set G \<Longrightarrow> holds cx vm' v (did, cs @ [c])"
  shows "list_all2 (holds cx vm') vs (add_frame (did, c) G)"
  using assms(1-4,6)
proof (induction rule: list_all2_induct)
  case Nil
  then show ?case by simp
next
  case (Cons w vs g G)
  obtain d cs where g: "g = (d, cs)" by (cases g)
  show ?case
  proof (cases "d = did")
    case True
    with Cons g have w: "w = v" "v \<notin> set vs" by auto
    have "list_all2 (holds cx vm') vs G"
    proof (subst list_all2_holds_cong[where vm = vm])
      show "vm' u = vm u" if "u \<in> set vs" for u using that w(2) assms(5)[of u] by auto
    qed (rule Cons.hyps(2))
    moreover have "holds cx vm' v (did, cs @ [c])"
      using Cons.prems(4)[of cs] Cons.hyps(1) g True w by simp
    ultimately show ?thesis by (simp add: g True w)
  next
    case False
    with Cons.prems(3) g have v: "map_of (zip (map fst G) vs) did = Some v" by simp
    from map_of_zip_member[OF v] Cons.prems(1) have "w \<noteq> v" by auto
    then have "holds cx vm' w g" using Cons.hyps(1) by (subst holds_cong[where vm = vm]) (simp_all add: assms(5))
    moreover have "list_all2 (holds cx vm') vs (add_frame (did, c) G)"
      using Cons.prems v by (intro Cons.IH) auto
    ultimately show ?thesis using False by (simp add: g)
  qed
qed

lemma map_fst_add_frame: "did \<in> fst ` set G \<Longrightarrow> map fst (add_frame (did, c) G) = map fst G"
  by (induction "(did, c)" G rule: add_frame.induct) auto

lemma map_of_zip_not_member:
  "length vs = length G \<Longrightarrow> map_of (zip (map fst G) vs) did = None \<Longrightarrow> did \<notin> fst ` set G"
  by (simp add: map_of_zip_is_None)

end
