(* ===== verification/Receive_Safety.thy ===== *)
theory Receive_Safety
  imports Receive_Threads
begin

text \<open>
  The invariant of \<open>Receive_Threads\<close> holds at the start and is kept by every step of the handle
  thread and of every worker; what follows for the messages handed to Java.
\<close>

section \<open>Consequences of the invariant\<close>

lemma recv_factsD:
  assumes "recv_facts items cx k D W G ws all free tr s"
  shows "k \<le> length (cx_arr cx)" "transports s (cx_t cx) = Some tr" "remote_ip tr = cx_ip cx"
    "handler_inv cx k (items (work_queue tr)) G s" "worker_inv cx (is_work_running tr) ws s"
    "groups_of (frames (cx_H cx) (take k (cx_arr cx))) = D @ W @ G"
    "\<And>g. g \<in> set D \<union> set W \<Longrightarrow> complete cx g"
    "list_all2 (holds cx (varrays s)) (items (work_queue tr)) G"
    "list_all2 (holds cx (varrays s)) ws W" "distinct (ws @ items (work_queue tr))"
    "dom (varrays s) = cx_others cx \<union> set (ws @ items (work_queue tr))"
    "cx_others cx \<inter> set (ws @ items (work_queue tr)) = {}"
    "\<And>v. v \<in> dom (varrays s) \<Longrightarrow> v < fresh s"
    "is_work_running tr = 0 \<Longrightarrow> (\<And>wc. hpc s \<noteq> Stored wc) \<Longrightarrow> G = [] \<or> \<not> complete cx (hd G)"
    "deliveries s = cx_before cx @ map (message_delivery (cx_H cx) (cx_B cx) (cx_ip cx)) D"
    "\<And>i. i < length (cx_arr cx) \<Longrightarrow> pending cx k s \<le> i \<Longrightarrow>
        \<exists>n. work_chunks s (wc_wr_id (fst (cx_arr cx ! i)))
          = Some \<lparr>wc_transport = cx_t cx, wc_chunk = Some (snd (cx_arr cx ! i)), wc_len = n\<rparr>"
    "\<And>c. c \<in> owned cx k W G \<Longrightarrow> header_of s c = cx_H cx c" "\<And>c. c \<in> owned cx k W G \<Longrightarrow> body_of s c = cx_B cx c"
    "pool_wf all free s" "set all - set free = owned cx k W G \<union> cx_out cx" "owned cx k W G \<inter> cx_out cx = {}"
    "snd ` set (cx_arr cx) \<subseteq> set all"
    "group_chunks (W @ G) \<subseteq> set all - set free" "snd ` set (drop k (cx_arr cx)) \<subseteq> set all - set free"
proof -
  note a = assms[unfolded recv_facts_def]
  show eq: "set all - set free = owned cx k W G \<union> cx_out cx" using a by (elim conjE) assumption
  show "group_chunks (W @ G) \<subseteq> set all - set free" "snd ` set (drop k (cx_arr cx)) \<subseteq> set all - set free"
    unfolding eq owned_def by blast+
  show "complete cx g" if "g \<in> set D \<union> set W" for g using a that by (elim conjE) simp
  show "is_work_running tr = 0 \<Longrightarrow> (\<And>wc. hpc s \<noteq> Stored wc) \<Longrightarrow> G = [] \<or> \<not> complete cx (hd G)"
    using a by (elim conjE) simp
  show "header_of s c = cx_H cx c" "body_of s c = cx_B cx c" if "c \<in> owned cx k W G" for c
    using a that by (elim conjE, simp)+
  show "v < fresh s" if "v \<in> dom (varrays s)" for v using a that by (elim conjE) simp
  show "\<exists>n. work_chunks s (wc_wr_id (fst (cx_arr cx ! i)))
      = Some \<lparr>wc_transport = cx_t cx, wc_chunk = Some (snd (cx_arr cx ! i)), wc_len = n\<rparr>"
    if "i < length (cx_arr cx)" "pending cx k s \<le> i" for i using a that by (elim conjE) simp
qed (insert assms[unfolded recv_facts_def], (elim conjE, assumption)+)

lemma recv_factsI:
  assumes "k \<le> length (cx_arr cx)" "transports s (cx_t cx) = Some tr" "remote_ip tr = cx_ip cx"
    "handler_inv cx k (items (work_queue tr)) G s" "worker_inv cx (is_work_running tr) ws s"
    "groups_of (frames (cx_H cx) (take k (cx_arr cx))) = D @ W @ G"
    "\<And>g. g \<in> set D \<union> set W \<Longrightarrow> complete cx g"
    "list_all2 (holds cx (varrays s)) (items (work_queue tr)) G"
    "list_all2 (holds cx (varrays s)) ws W" "distinct (ws @ items (work_queue tr))"
    "dom (varrays s) = cx_others cx \<union> set (ws @ items (work_queue tr))"
    "cx_others cx \<inter> set (ws @ items (work_queue tr)) = {}"
    "\<And>v. v \<in> dom (varrays s) \<Longrightarrow> v < fresh s"
    "is_work_running tr = 0 \<Longrightarrow> (\<And>wc. hpc s \<noteq> Stored wc) \<Longrightarrow> G = [] \<or> \<not> complete cx (hd G)"
    "deliveries s = cx_before cx @ map (message_delivery (cx_H cx) (cx_B cx) (cx_ip cx)) D"
    "\<And>i. i < length (cx_arr cx) \<Longrightarrow> pending cx k s \<le> i \<Longrightarrow>
        \<exists>n. work_chunks s (wc_wr_id (fst (cx_arr cx ! i)))
          = Some \<lparr>wc_transport = cx_t cx, wc_chunk = Some (snd (cx_arr cx ! i)), wc_len = n\<rparr>"
    "\<And>c. c \<in> owned cx k W G \<Longrightarrow> header_of s c = cx_H cx c" "\<And>c. c \<in> owned cx k W G \<Longrightarrow> body_of s c = cx_B cx c"
    "pool_wf all free s" "set all - set free = owned cx k W G \<union> cx_out cx" "owned cx k W G \<inter> cx_out cx = {}"
    "snd ` set (cx_arr cx) \<subseteq> set all"
  shows "recv_facts items cx k D W G ws all free tr s"
  unfolding recv_facts_def using assms(1-13,15-22) assms(14)
  by (intro conjI ballI impI allI) (auto simp: Ball_def)

text \<open>The next completion: it is in range, its work chunk leads to a chunk that is out.\<close>

lemma next_arrival:
  assumes F: "recv_facts items cx k D W G ws all free tr s" and ok: "arrivals_ok (cx_H cx) (cx_arr cx)"
    and k: "k < length (cx_arr cx)" and p: "pending cx k s \<le> k" and a: "cx_arr cx ! k = (wc, c)"
  shows "arrival_ok (cx_H cx) (cx_frames cx) (wc, c)"
    "\<exists>n. work_chunks s (wc_wr_id wc) = Some \<lparr>wc_transport = cx_t cx, wc_chunk = Some c, wc_len = n\<rparr>"
    "chunk_live s c" "c \<in> set all" "c \<notin> set free"
    "snd ` set (drop (Suc k) (cx_arr cx)) \<subseteq> set all - set free"
    "c \<notin> snd ` set (drop (Suc k) (cx_arr cx))" "c \<notin> snd ` set (take k (cx_arr cx))"
    "c \<in> owned cx k W G"
proof -
  note F = recv_factsD[OF F]
  have mem: "(wc, c) \<in> set (cx_arr cx)" using k a by (metis nth_mem)
  show "arrival_ok (cx_H cx) (cx_frames cx) (wc, c)" by (rule arrivals_okD[OF ok mem])
  show "\<exists>n. work_chunks s (wc_wr_id wc) = Some \<lparr>wc_transport = cx_t cx, wc_chunk = Some c, wc_len = n\<rparr>"
    using F(16)[OF k p] a by simp
  have d: "drop k (cx_arr cx) = (wc, c) # drop (Suc k) (cx_arr cx)"
    using k a by (metis Cons_nth_drop_Suc)
  then show "c \<in> owned cx k W G" by (simp add: owned_def)
  from d show c: "c \<in> set all" "c \<notin> set free" "snd ` set (drop (Suc k) (cx_arr cx)) \<subseteq> set all - set free"
    using F(24) by auto
  show "chunk_live s c" by (rule pool_wf_live[OF F(19) c(1)])
  have "distinct (map snd (take k (cx_arr cx) @ (wc, c) # drop (Suc k) (cx_arr cx)))"
    using ok d by (simp flip: d add: arrivals_ok_def)
  then show "c \<notin> snd ` set (drop (Suc k) (cx_arr cx))" "c \<notin> snd ` set (take k (cx_arr cx))"
    by auto
qed

lemma group_chunks_simps [simp]:
  "group_chunks [] = {}" "group_chunks (g # gs) = set (snd g) \<union> group_chunks gs"
  "group_chunks (gs @ hs) = group_chunks gs \<union> group_chunks hs"
  by (auto simp: group_chunks_def)

lemma group_chunks_add_frame: "group_chunks (add_frame (did, c) G) = insert c (group_chunks G)"
  by (induction "(did, c)" G rule: add_frame.induct) auto

lemma groups_chunks_taken:
  assumes "arrivals_ok H arr" "groups_of (frames H (take k arr)) = D @ W @ G"
  shows "group_chunks (D @ W @ G) \<subseteq> snd ` set (take k arr)"
  using group_facts(7)[OF assms(1), of _ _ k] assms(2) unfolding group_chunks_def by fastforce

text \<open>What a step does to the chunks that the receiver holds.\<close>

lemma owned_next:
  assumes "k < length (cx_arr cx)" "cx_arr cx ! k = (wc, c)"
  shows "owned cx k W G = insert c (owned cx (Suc k) W G)"
    and "owned cx (Suc k) W (add_frame (did, c) G) = owned cx k W G"
  using assms by (auto simp: owned_def group_chunks_add_frame Cons_nth_drop_Suc[symmetric])

lemma owned_done: "owned cx k [g] G = set (snd g) \<union> owned cx k [] G"
  by (auto simp: owned_def)

lemma worker_inv_cong:
  "pool_pushes s' = pool_pushes s \<Longrightarrow> workers s' = workers s \<Longrightarrow> worker_inv cx r ws s' = worker_inv cx r ws s"
  by (simp add: worker_inv_def)

lemma worker_inv_push:
  assumes "worker_inv cx 0 ws s" "pool_pushes s' = pool_pushes s @ [cx_t cx]" "workers s' = workers s"
  shows "worker_inv cx 1 ws s'"
proof -
  have "ws = []" "set (pool_pushes s) \<subseteq> {cx_t cx}" "\<forall>j \<ge> length (pool_pushes s). workers s j = Looping"
      "\<forall>j < length (pool_pushes s). workers s j = Finished"
    using assms(1) by (simp_all add: worker_inv_def)
  then show ?thesis using assms(2,3) by (simp add: worker_inv_def)
qed

text \<open>The one worker that is not finished.\<close>

lemma active_worker:
  assumes "worker_inv cx r ws s" "j < length (pool_pushes s)" "workers s j \<noteq> Finished"
  shows "r = 1" "length (pool_pushes s) = Suc j" "\<forall>i < j. workers s i = Finished"
    "pool_pushes s ! j = cx_t cx" "workers s j = Looping \<and> ws = [] \<or> (\<exists>v. workers s j = Working v \<and> ws = [v])"
proof -
  have r: "r \<noteq> 0" using assms by (auto simp: worker_inv_def)
  then obtain m where m: "r = 1" "length (pool_pushes s) = Suc m" "\<forall>j < m. workers s j = Finished"
      "workers s m = Looping \<and> ws = [] \<or> (\<exists>v. workers s m = Working v \<and> ws = [v])"
    using assms(1) by (auto simp: worker_inv_def)
  have "j = m" using assms(2,3) m(2,3) by (metis less_SucE)
  with m show "r = 1" "length (pool_pushes s) = Suc j" "\<forall>i < j. workers s i = Finished"
    "workers s j = Looping \<and> ws = [] \<or> (\<exists>v. workers s j = Working v \<and> ws = [v])" by auto
  show "pool_pushes s ! j = cx_t cx"
    using assms(1) nth_mem[OF assms(2)] unfolding worker_inv_def by blast
qed

lemma worker_inv_stop:
  assumes "worker_inv cx r ws s" "j < length (pool_pushes s)" "workers s j = Looping"
    "pool_pushes s' = pool_pushes s" "workers s' = (workers s)(j := Finished)"
  shows "worker_inv cx 0 [] s'"
proof -
  have "workers s j \<noteq> Finished" using assms(3) by simp
  note a = active_worker[OF assms(1,2) this]
  show ?thesis using a(2,3) assms by (auto simp: worker_inv_def less_Suc_eq)
qed

lemma worker_inv_set:
  assumes "worker_inv cx r ws s" "j < length (pool_pushes s)" "workers s j \<noteq> Finished"
    "pool_pushes s' = pool_pushes s" "workers s' = (workers s)(j := p)"
    "p = Looping \<and> ws' = [] \<or> (\<exists>v. p = Working v \<and> ws' = [v])"
  shows "worker_inv cx 1 ws' s'"
  using active_worker(2,3)[OF assms(1-3)] assms(1,4-6) by (auto simp: worker_inv_def)

lemma pool_inv_sys [simp]:
  "pool_inv (s\<lparr>todo := td\<rparr>) ns xs = pool_inv s ns xs"
  "pool_inv (s\<lparr>hpc := hp\<rparr>) ns xs = pool_inv s ns xs"
  "pool_inv (s\<lparr>workers := wk\<rparr>) ns xs = pool_inv s ns xs"
  by (auto elim!: pool_inv_cong)

lemma pool_wf_sys [simp]:
  "pool_wf all free (s\<lparr>todo := td\<rparr>) = pool_wf all free s"
  "pool_wf all free (s\<lparr>hpc := hp\<rparr>) = pool_wf all free s"
  "pool_wf all free (s\<lparr>workers := wk\<rparr>) = pool_wf all free s"
  by (simp_all add: pool_wf_def)

lemma pool_wf_fresh: "pool_wf all free s \<Longrightarrow> fresh s \<le> n \<Longrightarrow> pool_wf all free (s\<lparr>fresh := n\<rparr>)"
proof -
  assume w: "pool_wf all free s" and n: "fresh s \<le> n"
  from w obtain ns where ns: "pool_inv s ns free" "all = chunk_addrs ns" by (auto simp: pool_wf_def)
  have "pool_inv (s\<lparr>fresh := n\<rparr>) ns free" by (rule pool_inv_cong[OF ns(1)]) (use n in simp_all)
  with ns(2) show ?thesis by (auto simp: pool_wf_def)
qed

section \<open>The steps of the handle thread\<close>

lemma handle_send_step:
  assumes F: "recv_facts items cx k D W G ws all free tr s" and ok: "arrivals_ok (cx_H cx) (cx_arr cx)"
    and h: "hpc s = Waiting" "todo s = wc # rest" "opcode wc = IBV_WC_SEND"
  shows "\<exists>s1. handle_send_event wc s = Inr s1 \<and>
    (\<exists>free'. recv_facts items cx (Suc k) D W G ws all free' tr (s1\<lparr>todo := rest\<rparr>))"
proof -
  note F' = recv_factsD[OF F]
  have todo: "wc # rest = map fst (drop k (cx_arr cx))" using F'(4) h by (simp add: handler_inv_def)
  then have k: "k < length (cx_arr cx)" by (metis drop_all list.distinct(1) list.map_disc_iff not_le)
  obtain wc' c where a: "cx_arr cx ! k = (wc', c)" by (cases "cx_arr cx ! k")
  have d: "drop k (cx_arr cx) = (wc', c) # drop (Suc k) (cx_arr cx)" using k a by (metis Cons_nth_drop_Suc)
  with todo have wc: "wc' = wc" and rest: "rest = map fst (drop (Suc k) (cx_arr cx))" by auto
  have p: "pending cx k s = k" using h(1) by (simp add: pending_def)
  note n = next_arrival[OF F ok k eq_refl[OF p] a, unfolded wc]
  obtain m where w: "work_chunks s (wc_wr_id wc) = Some \<lparr>wc_transport = cx_t cx, wc_chunk = Some c, wc_len = m\<rparr>"
    using n(2) by blast
  obtain s1 where r: "release_rdma_chunk_to_pool (Some c) s = Inr s1" "pool_wf all (c # free) s1"
    using rbp.release_out[OF F'(19) n(4,5)] by blast
  note fr = release_frame[OF r(1)]
  then have more: "mem.more s1 = mem.more s" by simp
  note fields = rt_fields_cong[OF more]
  have sys: "hpc s1 = hpc s" "workers s1 = workers s"
    using more by (cases s; cases s1; simp)+
  let ?s' = "(free_work_chunk (wc_wr_id wc) s1)\<lparr>todo := rest\<rparr>"
  have wid: "wc_wr_id (fst (cx_arr cx ! i)) \<noteq> wc_wr_id wc" if "i < length (cx_arr cx)" "Suc k \<le> i" for i
  proof -
    have "distinct (map (wc_wr_id \<circ> fst) (cx_arr cx))" using ok by (simp add: arrivals_ok_def)
    then show ?thesis using that k a wc nth_eq_iff_index_eq[of "map (wc_wr_id \<circ> fst) (cx_arr cx)" i k] by auto
  qed
  have "recv_facts items cx (Suc k) D W G ws all (c # free) tr ?s'"
  proof (rule recv_factsI)
    show "handler_inv cx (Suc k) (items (work_queue tr)) G ?s'"
      using h sys rest by (simp add: handler_inv_def free_work_chunk_def)
    show "worker_inv cx (is_work_running tr) ws ?s'"
      using F'(5) fields sys by (subst worker_inv_cong[where s = s]) (simp_all add: free_work_chunk_def)
    show "groups_of (frames (cx_H cx) (take (Suc k) (cx_arr cx))) = D @ W @ G"
      using F'(6) h wc by (simp add: frames_nth(2)[OF k a])
    show "\<exists>n. work_chunks ?s' (wc_wr_id (fst (cx_arr cx ! i)))
        = Some \<lparr>wc_transport = cx_t cx, wc_chunk = Some (snd (cx_arr cx ! i)), wc_len = n\<rparr>"
      if "i < length (cx_arr cx)" "pending cx (Suc k) ?s' \<le> i" for i
      using F'(16)[OF that(1)] that sys h wid p by (simp add: pending_def free_work_chunk_def fields)
    show "pool_wf all (c # free) ?s'" using r(2) by (simp add: free_work_chunk_def)
    have c: "c \<notin> owned cx (Suc k) W G"
      using groups_chunks_taken[OF ok F'(6)] n(7,8) by (auto simp: owned_def)
    show "set all - set (c # free) = owned cx (Suc k) W G \<union> cx_out cx" "owned cx (Suc k) W G \<inter> cx_out cx = {}"
      using F'(20,21) c unfolding owned_next(1)[OF k a] by auto
    show "header_of ?s' d = cx_H cx d" "body_of ?s' d = cx_B cx d" if "d \<in> owned cx (Suc k) W G" for d
      using F'(17,18)[of d] that fr unfolding owned_next(1)[OF k a] by (simp_all add: free_work_chunk_def)
    show "G = [] \<or> \<not> complete cx (hd G)" if "is_work_running tr = 0"
      using F'(14) that h by simp
  qed (use F' fr fields k in \<open>simp_all add: free_work_chunk_def\<close>)
  moreover have "handle_send_event wc s = Inr (free_work_chunk (wc_wr_id wc) s1)"
    by (simp add: handle_send_event_def work_chunk_at_def w r(1))
  ultimately show ?thesis by blast
qed
text \<open>The facts a receive in hand has in common.\<close>

lemma recv_find_finds:
  assumes Q: "gqueue Q items"
    and F: "recv_facts items cx k D W G ws all free tr s" and ok: "arrivals_ok (cx_H cx) (cx_arr cx)"
    and k: "k < length (cx_arr cx)" "pending cx k s \<le> k" "cx_arr cx ! k = (wc, c)" "opcode wc = IBV_WC_RECV"
  shows "recv_find Q wc s = Inr (map_of (zip (map fst G) (items (work_queue tr))) (data_id (cx_H cx c)))"
proof -
  note F' = recv_factsD[OF F]
  note n = next_arrival[OF F ok k(1-3)]
  obtain m where w: "work_chunks s (wc_wr_id wc) = Some \<lparr>wc_transport = cx_t cx, wc_chunk = Some c, wc_len = m\<rparr>"
    using n(2) by blast
  have "chunk_len (cx_H cx c) + RDMA_HEADER_SIZE = byte_len wc"
    using n(1) k(4) by (simp add: arrival_ok_def)
  then show ?thesis
    using w n(3) F'(2) F'(17)[OF n(9)] find_holds[OF F'(8)]
    by (simp add: recv_find_def work_chunk_at_def chunk_at_def transport_at_def Let_def
        gqueue.find_custom[OF Q])
qed

lemma look_step:
  assumes Q: "gqueue Q items"
    and F: "recv_facts items cx k D W G ws all free tr s" and ok: "arrivals_ok (cx_H cx) (cx_arr cx)"
    and h: "hpc s = Waiting" "todo s = wc # rest" "opcode wc = IBV_WC_RECV"
  shows "\<exists>found. recv_find Q wc s = Inr found \<and>
    recv_facts items cx k D W G ws all free tr (s\<lparr>todo := rest, hpc := Looked wc found\<rparr>)"
proof -
  note F' = recv_factsD[OF F]
  have todo: "wc # rest = map fst (drop k (cx_arr cx))" using F'(4) h by (simp add: handler_inv_def)
  then have k: "k < length (cx_arr cx)" by (metis drop_all list.distinct(1) list.map_disc_iff not_le)
  obtain wc' c where a: "cx_arr cx ! k = (wc', c)" by (cases "cx_arr cx ! k")
  have d: "drop k (cx_arr cx) = (wc', c) # drop (Suc k) (cx_arr cx)" using k a by (metis Cons_nth_drop_Suc)
  with todo have wc: "wc' = wc" and rest: "rest = map fst (drop (Suc k) (cx_arr cx))" by auto
  have p: "pending cx k s \<le> k" using h(1) by (simp add: pending_def)
  note found = recv_find_finds[OF Q F ok k p a[unfolded wc] h(3)]
  let ?found = "map_of (zip (map fst G) (items (work_queue tr))) (data_id (cx_H cx c))"
  let ?s' = "s\<lparr>todo := rest, hpc := Looked wc ?found\<rparr>"
  have "recv_facts items cx k D W G ws all free tr ?s'"
  proof (rule recv_factsI)
    show "handler_inv cx k (items (work_queue tr)) G ?s'"
      using k h(3) rest by (simp add: handler_inv_def a wc)
    show "worker_inv cx (is_work_running tr) ws ?s'"
      using F'(5) by (subst worker_inv_cong[where s = s]) simp_all
    show "\<exists>n. work_chunks ?s' (wc_wr_id (fst (cx_arr cx ! i)))
        = Some \<lparr>wc_transport = cx_t cx, wc_chunk = Some (snd (cx_arr cx ! i)), wc_len = n\<rparr>"
      if "i < length (cx_arr cx)" "pending cx k ?s' \<le> i" for i
      using F'(16)[OF that(1)] that h by (simp add: pending_def)
    show "G = [] \<or> \<not> complete cx (hd G)" if "is_work_running tr = 0"
      using F'(14) that h by simp
  qed (use F' in simp_all)
  with found show ?thesis by blast
qed

lemma unat_less_words: "unat (a :: u32) < unat b \<Longrightarrow> \<not> b \<le> a" "unat (a :: u32) < unat b \<Longrightarrow> unat (a + 1) = Suc (unat a)"
proof -
  assume l: "unat a < unat b"
  then show "\<not> b \<le> a" by (simp add: word_le_nat_alt)
  show "unat (a + 1) = Suc (unat a)"
    using l unat_u32_less[of b] by (simp add: unat_plus_if')
qed

lemma store_step:
  assumes Q: "gqueue Q items" and E: "calls_succeed E"
    and F: "recv_facts items cx k D W G ws all free tr s" and ok: "arrivals_ok (cx_H cx) (cx_arr cx)"
    and h: "hpc s = Looked wc found"
  shows "\<exists>s1. recv_store Q E wc found s = Inr s1 \<and>
    (\<exists>G' tr'. recv_facts items cx (Suc k) D W G' ws all free tr' (s1\<lparr>hpc := Stored wc\<rparr>))"
proof -
  note F' = recv_factsD[OF F]
  have hi: "k < length (cx_arr cx)" "wc = fst (cx_arr cx ! k)" "opcode wc = IBV_WC_RECV"
      "todo s = map fst (drop (Suc k) (cx_arr cx))"
      "found = map_of (zip (map fst G) (items (work_queue tr))) (data_id (cx_H cx (snd (cx_arr cx ! k))))"
    using F'(4)[unfolded handler_inv_def h handler_pc.case] by blast+
  obtain c where a: "cx_arr cx ! k = (wc, c)" using hi(2) by (cases "cx_arr cx ! k") simp
  define did where "did = data_id (cx_H cx c)"
  have p: "pending cx k s = k" using h by (simp add: pending_def)
  note n = next_arrival[OF F ok hi(1) eq_refl[OF p] a]
  obtain m where w: "work_chunks s (wc_wr_id wc) = Some \<lparr>wc_transport = cx_t cx, wc_chunk = Some c, wc_len = m\<rparr>"
    using n(2) by blast
  have found: "found = map_of (zip (map fst G) (items (work_queue tr))) did"
    using hi(5) a by (simp add: did_def)
  let ?need = "length (of_id did (cx_frames cx))"
  have need: "unat (chunk_num (cx_H cx c)) = ?need"
    using n(1) hi(3) by (simp add: arrival_ok_def did_def)
  have grow: "length (snd g) < ?need" if "g \<in> set (D @ W @ G)" "fst g = did" for g
    using next_not_complete[OF ok hi(1) a hi(3), of g] that F'(6) by (simp add: did_def)
  have notDW: "did \<notin> fst ` set (D @ W)"
    using F'(7) grow by (fastforce simp: complete_def)
  let ?G = "add_frame (did, c) G"
  have ids: "distinct (map fst (D @ W @ G))" using groups_of_ids(1) F'(6) by metis
  have groups: "groups_of (frames (cx_H cx) (take (Suc k) (cx_arr cx))) = D @ W @ ?G"
    using notDW F'(6) hi(3)
    by (simp add: frames_nth(2)[OF hi(1) a] add_frame_append did_def[symmetric] flip: append_assoc)
  note same = owned_next(2)[OF hi(1) a, of W did G]
  have wk: "\<exists>n. work_chunks s (wc_wr_id (fst (cx_arr cx ! i)))
      = Some \<lparr>wc_transport = cx_t cx, wc_chunk = Some (snd (cx_arr cx ! i)), wc_len = n\<rparr>"
    if "i < length (cx_arr cx)" "k \<le> i" for i
    using F'(16)[OF that(1)] that p by simp
  let ?vs = "items (work_queue tr)"
  show ?thesis
  proof (cases found)
    case None
    then have new: "did \<notin> fst ` set G"
      using found list_all2_lengthD[OF F'(8)] by (metis map_of_zip_not_member)
    let ?v = "fresh s"
    let ?n = "chunk_num (cx_H cx c)"
    let ?va = "\<lparr>va_transport = Some (cx_t cx), va_data_id = did, va_len = 1, va_size = ?n,
        va_data = (replicate (unat ?n) None)[0 := Some c]\<rparr>"
    let ?tr = "tr\<lparr>work_queue := g_queue_push_tail Q (work_queue tr) ?v\<rparr>"
    let ?s1 = "s\<lparr>fresh := Suc ?v, varrays := (varrays s)(?v \<mapsto> ?va),
        transports := (transports s)(cx_t cx \<mapsto> ?tr)\<rparr>"
    let ?s' = "?s1\<lparr>hpc := Stored wc\<rparr>"
    have pos: "0 < ?need"
    proof -
      have "(did, c) \<in> set (cx_frames cx)"
        using frames_split[of "cx_H cx" "cx_arr cx" k] frames_nth(1)[OF hi(1) a] hi(3) by (simp add: did_def)
      then show ?thesis by (force simp: of_id_def filter_empty_conv)
    qed
    have "recv_store Q E wc found s = Inr ?s1"
      using w n(3) E F'(2) F'(17)[OF n(9)] None pos
      by (simp add: recv_store_def work_chunk_at_def chunk_at_def transport_at_def Let_def VARRY_MALLOC0_def
          varray_at_def push_chunk_def store_data_def need did_def chunk_live_def)
    moreover have "recv_facts items cx (Suc k) D W ?G ws all free ?tr ?s'"
    proof (rule recv_factsI)
      have vn: "?v \<notin> set (ws @ ?vs)" "?v \<notin> cx_others cx"
        using F'(11,13) by blast+
      show "list_all2 (holds cx (varrays ?s')) (items (work_queue ?tr)) ?G"
      proof -
        have "list_all2 (holds cx (varrays ?s')) ?vs G"
          using F'(8) vn by (subst list_all2_holds_cong[where vm = "varrays s"]) auto
        moreover have "holds cx (varrays ?s') ?v (did, [c])"
        proof -
          obtain z where z: "?need = Suc z" using pos by (cases ?need) auto
          then show ?thesis by (simp add: holds_def need)
        qed
        ultimately show ?thesis
          by (simp add: add_frame_new[OF new] gqueue.items_push_tail[OF Q] list_all2_appendI)
      qed
      show "list_all2 (holds cx (varrays ?s')) ws W"
        using F'(9) vn by (subst list_all2_holds_cong[where vm = "varrays s"]) auto
      show "distinct (ws @ items (work_queue ?tr))"
        using F'(10) vn by (simp add: gqueue.items_push_tail[OF Q])
      show "dom (varrays ?s') = cx_others cx \<union> set (ws @ items (work_queue ?tr))"
        using F'(11) by (auto simp: gqueue.items_push_tail[OF Q])
      show "cx_others cx \<inter> set (ws @ items (work_queue ?tr)) = {}"
        using F'(12) vn by (auto simp: gqueue.items_push_tail[OF Q])
      show "v < fresh ?s'" if "v \<in> dom (varrays ?s')" for v
        using that F'(13)[of v] by (auto split: if_splits intro: less_SucI)
      show "handler_inv cx (Suc k) (items (work_queue ?tr)) ?G ?s'"
        using hi by (simp add: handler_inv_def)
      show "worker_inv cx (is_work_running ?tr) ws ?s'"
        using F'(5) by (subst worker_inv_cong[where s = s]) simp_all
      show "groups_of (frames (cx_H cx) (take (Suc k) (cx_arr cx))) = D @ W @ ?G" by (rule groups)
      show "set all - set free = owned cx (Suc k) W ?G \<union> cx_out cx" "owned cx (Suc k) W ?G \<inter> cx_out cx = {}"
        using F'(20,21) by (simp_all add: same)
      show "header_of ?s' d = cx_H cx d" "body_of ?s' d = cx_B cx d" if "d \<in> owned cx (Suc k) W ?G" for d
        using F'(17,18)[of d] that by (simp_all add: same)
      show "pool_wf all free ?s'" using pool_wf_fresh[OF F'(19), of "Suc ?v"] by simp
      show "\<exists>n. work_chunks ?s' (wc_wr_id (fst (cx_arr cx ! i)))
        = Some \<lparr>wc_transport = cx_t cx, wc_chunk = Some (snd (cx_arr cx ! i)), wc_len = n\<rparr>"
        if "i < length (cx_arr cx)" "pending cx (Suc k) ?s' \<le> i" for i
        using wk that by (simp add: pending_def)
      show "?G = [] \<or> \<not> complete cx (hd ?G)" if "\<And>wc. hpc ?s' \<noteq> Stored wc"
        using that[of wc] by simp
    qed (use F' hi(1) in simp_all)
    ultimately show ?thesis by blast
  next
    case (Some v)
    note fv = found[unfolded Some, symmetric]
    from map_of_zip_member[OF fv] have v: "v \<in> set ?vs" and inG: "did \<in> fst ` set G" by auto
    obtain va where va: "varrays s v = Some va"
      using F'(11) v by (metis UnCI domD set_append)
    have dist: "distinct ?vs" "distinct (map fst G)" "v \<notin> set ws" "v \<notin> cx_others cx"
      using F'(10,12) ids v by auto
    have va_facts: "va_data_id va = did \<and> unat (va_size va) = ?need \<and> unat (va_len va) < ?need \<and>
        length (va_data va) = ?need"
    proof -
      obtain j where j: "j < length ?vs" "j < length G" "v = ?vs ! j" "did = fst (G ! j)"
        using map_of_SomeD[OF fv] list_all2_lengthD[OF F'(8)] by (auto simp: in_set_zip)
      have "holds cx (varrays s) v (G ! j)"
        using list_all2_nthD[OF F'(8) j(1)] j(3) by simp
      moreover have "length (snd (G ! j)) < ?need" using grow[of "G ! j"] j by simp
      ultimately show ?thesis using va j(4) by (simp add: holds_def)
    qed
    let ?va = "va\<lparr>va_data := (va_data va)[unat (va_len va) := Some c], va_len := va_len va + 1\<rparr>"
    let ?s1 = "s\<lparr>varrays := (varrays s)(v \<mapsto> ?va)\<rparr>"
    let ?s' = "?s1\<lparr>hpc := Stored wc\<rparr>"
    have lt: "unat (va_len va) < unat (va_size va)" using va_facts by simp
    obtain y where fy: "g_queue_find_custom Q (work_queue tr) (\<lambda>x. if x = v then 0 else 1) = Some y"
      using gqueue.find_member[OF Q, of "work_queue tr" v] v by auto
    have "recv_store Q E wc found s = Inr ?s1"
      using w n(3) F'(2) F'(17)[OF n(9)] Some va va_facts fy unat_less_words(1)[OF lt] v
      by (simp add: recv_store_def work_chunk_at_def chunk_at_def transport_at_def Let_def varray_at_def
          push_chunk_def store_data_def did_def[symmetric])
    moreover have "recv_facts items cx (Suc k) D W ?G ws all free tr ?s'"
    proof (rule recv_factsI)
      show "list_all2 (holds cx (varrays ?s')) ?vs ?G"
      proof (rule holds_add_frame[OF F'(8) dist(1,2) fv])
        show "varrays ?s' u = varrays s u" if "u \<noteq> v" for u using that by simp
        show "holds cx (varrays ?s') v (did, cs @ [c])"
          if "holds cx (varrays s) v (did, cs)" "(did, cs) \<in> set G" for cs
        proof -
          have l: "length cs < ?need" using grow[of "(did, cs)"] that(2) by simp
          then obtain z where z: "?need - length cs = Suc z" by (cases "?need - length cs") auto
          then have "?need - Suc (length cs) = z" by simp
          with z that(1) va va_facts unat_less_words(2)[OF lt] show ?thesis
            by (simp add: holds_def list_update_append)
        qed
      qed
      show "list_all2 (holds cx (varrays ?s')) ws W"
        using F'(9) dist(3) by (subst list_all2_holds_cong[where vm = "varrays s"]) auto
      show "dom (varrays ?s') = cx_others cx \<union> set (ws @ ?vs)"
        using F'(11) v by auto
      show "u < fresh ?s'" if "u \<in> dom (varrays ?s')" for u
        using that F'(13)[of u] F'(13)[of v] va by (auto split: if_splits)
      show "handler_inv cx (Suc k) ?vs ?G ?s'"
        using hi by (simp add: handler_inv_def)
      show "worker_inv cx (is_work_running tr) ws ?s'"
        using F'(5) by (subst worker_inv_cong[where s = s]) simp_all
      show "groups_of (frames (cx_H cx) (take (Suc k) (cx_arr cx))) = D @ W @ ?G" by (rule groups)
      show "set all - set free = owned cx (Suc k) W ?G \<union> cx_out cx" "owned cx (Suc k) W ?G \<inter> cx_out cx = {}"
        using F'(20,21) by (simp_all add: same)
      show "header_of ?s' d = cx_H cx d" "body_of ?s' d = cx_B cx d" if "d \<in> owned cx (Suc k) W ?G" for d
        using F'(17,18)[of d] that by (simp_all add: same)
      show "\<exists>n. work_chunks ?s' (wc_wr_id (fst (cx_arr cx ! i)))
        = Some \<lparr>wc_transport = cx_t cx, wc_chunk = Some (snd (cx_arr cx ! i)), wc_len = n\<rparr>"
        if "i < length (cx_arr cx)" "pending cx (Suc k) ?s' \<le> i" for i
        using wk that by (simp add: pending_def)
      show "?G = [] \<or> \<not> complete cx (hd ?G)" if "\<And>wc. hpc ?s' \<noteq> Stored wc"
        using that[of wc] by simp
    qed (use F' hi(1) in simp_all)
    ultimately show ?thesis by blast
  qed
qed
text \<open>The head of the queue, as the wake-up and the worker see it.\<close>

lemma queue_head:
  assumes Q: "gqueue Q items" and F: "recv_facts items cx k D W G ws all free tr s"
  shows "g_queue_peek_head Q (work_queue tr) = None \<longleftrightarrow> G = []"
    and "g_queue_peek_head Q (work_queue tr) = Some v \<Longrightarrow> \<exists>g G' vs va. G = g # G' \<and>
      items (work_queue tr) = v # vs \<and> varrays s v = Some va \<and> holds cx (varrays s) v g \<and>
      (va_len va = va_size va \<longleftrightarrow> complete cx g)"
proof -
  note F' = recv_factsD[OF F]
  show "g_queue_peek_head Q (work_queue tr) = None \<longleftrightarrow> G = []"
    using F'(8) by (cases "items (work_queue tr)") (auto simp: gqueue.peek_head[OF Q])
  assume "g_queue_peek_head Q (work_queue tr) = Some v"
  then obtain vs where vs: "items (work_queue tr) = v # vs"
    by (cases "items (work_queue tr)") (auto simp: gqueue.peek_head[OF Q])
  with F'(8) obtain g G' where G: "G = g # G'" "holds cx (varrays s) v g"
    by (auto simp: list_all2_Cons1)
  then obtain va where va: "varrays s v = Some va" by (auto simp: holds_def split: option.splits)
  have "va_len va = va_size va \<longleftrightarrow> unat (va_len va) = unat (va_size va)"
    by (rule word_eq_iff_unsigned)
  then have "va_len va = va_size va \<longleftrightarrow> complete cx g"
    using G(2) va by (simp add: holds_def complete_def)
  with G va vs show "\<exists>g G' vs va. G = g # G' \<and>
      items (work_queue tr) = v # vs \<and> varrays s v = Some va \<and> holds cx (varrays s) v g \<and>
      (va_len va = va_size va \<longleftrightarrow> complete cx g)" by blast
qed

lemma wake_step:
  assumes Q: "gqueue Q items"
    and F: "recv_facts items cx k D W G ws all free tr s" and ok: "arrivals_ok (cx_H cx) (cx_arr cx)"
    and h: "hpc s = Stored wc"
  shows "\<exists>w s1. work_chunk_at s (wc_wr_id wc) = Inr w \<and> recv_wake Q (wc_transport w) s = Inr s1 \<and>
    (\<exists>tr'. recv_facts items cx k D W G ws all free tr' ((free_work_chunk (wc_wr_id wc) s1)\<lparr>hpc := Waiting\<rparr>))"
proof -
  note F' = recv_factsD[OF F]
  have hi: "0 < k" "wc = fst (cx_arr cx ! (k - 1))" "opcode wc = IBV_WC_RECV"
      "todo s = map fst (drop k (cx_arr cx))"
    using F'(4)[unfolded handler_inv_def h handler_pc.case] by blast+
  have p: "pending cx k s = k - 1" using h by (simp add: pending_def)
  have "k - 1 < length (cx_arr cx)" using hi(1) F'(1) by linarith
  then obtain m c where w: "work_chunks s (wc_wr_id wc) = Some \<lparr>wc_transport = cx_t cx, wc_chunk = c, wc_len = m\<rparr>"
    using F'(16)[of "k - 1"] hi(2) p by auto
  have wid: "wc_wr_id (fst (cx_arr cx ! i)) \<noteq> wc_wr_id wc" if "i < length (cx_arr cx)" "k \<le> i" for i
  proof -
    have "distinct (map (wc_wr_id \<circ> fst) (cx_arr cx))" using ok by (simp add: arrivals_ok_def)
    then show ?thesis
      using that hi(1,2) nth_eq_iff_index_eq[of "map (wc_wr_id \<circ> fst) (cx_arr cx)" i "k - 1"] by auto
  qed
  obtain tr' s1 where wake: "recv_wake Q (cx_t cx) s = Inr s1" "transports s1 (cx_t cx) = Some tr'"
      "work_queue tr' = work_queue tr" "remote_ip tr' = remote_ip tr"
      "worker_inv cx (is_work_running tr') ws s1"
      "is_work_running tr' = 0 \<longrightarrow> G = [] \<or> \<not> complete cx (hd G)"
      "work_chunks s1 = work_chunks s" "varrays s1 = varrays s" "fresh s1 = fresh s"
      "deliveries s1 = deliveries s" "header_of s1 = header_of s" "body_of s1 = body_of s"
      "pool_wf all free s1" "todo s1 = todo s"
  proof (cases "is_work_running tr = 0 \<and> G \<noteq> [] \<and> complete cx (hd G)")
    case True
    let ?tr = "tr\<lparr>is_work_running := 1\<rparr>"
    let ?s1 = "s\<lparr>transports := (transports s)(cx_t cx \<mapsto> ?tr), pool_pushes := pool_pushes s @ [cx_t cx]\<rparr>"
    obtain v where v: "g_queue_peek_head Q (work_queue tr) = Some v"
      using True queue_head(1)[OF Q F] by auto
    obtain va where va: "varrays s v = Some va" "va_len va = va_size va \<longleftrightarrow> complete cx (hd G)"
      using queue_head(2)[OF Q F v] by (metis list.sel(1))
    have "recv_wake Q (cx_t cx) s = Inr ?s1"
      using va F'(2) v True by (simp add: recv_wake_def transport_at_def varray_at_def)
    moreover have "worker_inv cx 1 ws ?s1"
      using True F'(5) by (intro worker_inv_push[of cx ws s]) simp_all
    ultimately show thesis using F'(19) by (intro that[of ?s1 ?tr]) simp_all
  next
    case False
    have "recv_wake Q (cx_t cx) s = Inr s"
    proof (cases "g_queue_peek_head Q (work_queue tr)")
      case None
      then show ?thesis using F'(2) by (simp add: recv_wake_def transport_at_def)
    next
      case (Some v)
      obtain va where va: "varrays s v = Some va" "va_len va = va_size va \<longleftrightarrow> complete cx (hd G)" "G \<noteq> []"
        using queue_head(2)[OF Q F Some] by (metis list.sel(1) list.distinct(1))
      then show ?thesis using F'(2) Some False
        by (simp add: recv_wake_def transport_at_def varray_at_def)
    qed
    then show thesis using F'(2,5,19) False by (intro that[of s tr]) auto
  qed
  let ?s' = "(free_work_chunk (wc_wr_id wc) s1)\<lparr>hpc := Waiting\<rparr>"
  have "recv_facts items cx k D W G ws all free tr' ?s'"
  proof (rule recv_factsI)
    show "handler_inv cx k (items (work_queue tr')) G ?s'"
      using hi(4) wake by (simp add: handler_inv_def free_work_chunk_def)
    show "worker_inv cx (is_work_running tr') ws ?s'"
      using wake(5) by (subst worker_inv_cong[where s = s1]) (simp_all add: free_work_chunk_def)
    show "\<exists>n. work_chunks ?s' (wc_wr_id (fst (cx_arr cx ! i)))
        = Some \<lparr>wc_transport = cx_t cx, wc_chunk = Some (snd (cx_arr cx ! i)), wc_len = n\<rparr>"
      if "i < length (cx_arr cx)" "pending cx k ?s' \<le> i" for i
      using F'(16)[OF that(1)] that p wid wake(7) by (simp add: pending_def free_work_chunk_def)
    show "G = [] \<or> \<not> complete cx (hd G)" if "is_work_running tr' = 0"
      using wake(6) that by simp
    show "pool_wf all free ?s'" using wake(13) by (simp add: free_work_chunk_def)
  qed (use F' wake in \<open>simp_all add: free_work_chunk_def\<close>)
  with w wake(1) show ?thesis
    by (auto simp: work_chunk_at_def)
qed

section \<open>The steps of the workers\<close>

text \<open>Taking a complete group off the queue does not disturb a search that found another one.\<close>

lemma handler_inv_pop:
  assumes ok: "arrivals_ok (cx_H cx) (cx_arr cx)" and h: "handler_inv cx k (v # vs) (g # G) s"
    and g: "g \<in> set (groups_of (frames (cx_H cx) (take k (cx_arr cx))))" "complete cx g"
    and s': "hpc s' = hpc s" "todo s' = todo s"
  shows "handler_inv cx k vs G s'"
proof (cases "hpc s")
  case (Looked wc found)
  then have hi: "k < length (cx_arr cx)" "wc = fst (cx_arr cx ! k)" "opcode wc = IBV_WC_RECV"
      "todo s = map fst (drop (Suc k) (cx_arr cx))"
      "found = map_of (zip (map fst (g # G)) (v # vs)) (data_id (cx_H cx (snd (cx_arr cx ! k))))"
    using h[unfolded handler_inv_def Looked handler_pc.case] by blast+
  obtain c where a: "cx_arr cx ! k = (wc, c)" using hi(2) by (cases "cx_arr cx ! k") simp
  have "fst g \<noteq> data_id (cx_H cx c)"
    using next_not_complete[OF ok hi(1) a hi(3) g(1)] g(2) by (auto simp: complete_def)
  with hi a show ?thesis by (simp add: handler_inv_def Looked s')
qed (use h in \<open>simp_all add: handler_inv_def s'\<close>)

lemma take_step:
  assumes Q: "gqueue Q items"
    and F: "recv_facts items cx k D W G ws all free tr s" and ok: "arrivals_ok (cx_H cx) (cx_arr cx)"
    and j: "j < length (pool_pushes s)" "workers s j = Looping"
  shows "\<exists>r s1. work_take Q (pool_pushes s ! j) s = Inr (r, s1) \<and> (case r of
      None \<Rightarrow> \<exists>tr'. recv_facts items cx k D W G ws all free tr' (set_worker j Finished s1)
    | Some v \<Rightarrow> \<exists>W' G' ws' tr'. recv_facts items cx k D W' G' ws' all free tr' (set_worker j (Working v) s1))"
proof -
  note F' = recv_factsD[OF F]
  have "workers s j \<noteq> Finished" using j(2) by simp
  note act = active_worker[OF F'(5) j(1) this]
  have ws: "ws = []" "W = []" using act(5) j(2) F'(9) by auto
  note t = act(4)
  let ?stop = "tr\<lparr>is_work_running := 0\<rparr>"
  let ?sn = "s\<lparr>transports := (transports s)(cx_t cx \<mapsto> ?stop)\<rparr>"
  have stop: "recv_facts items cx k D W G ws all free ?stop (set_worker j Finished ?sn)"
    if g: "G = [] \<or> \<not> complete cx (hd G)"
  proof (rule recv_factsI)
    show "handler_inv cx k (items (work_queue ?stop)) G (set_worker j Finished ?sn)"
      using F'(4) by (simp add: handler_inv_def split: handler_pc.splits)
    show "worker_inv cx (is_work_running ?stop) ws (set_worker j Finished ?sn)"
    proof -
      have "worker_inv cx 0 [] (set_worker j Finished ?sn)"
        by (rule worker_inv_stop[OF F'(5) j]) simp_all
      then show ?thesis by (simp add: ws)
    qed
    show "\<exists>n. work_chunks (set_worker j Finished ?sn) (wc_wr_id (fst (cx_arr cx ! i)))
        = Some \<lparr>wc_transport = cx_t cx, wc_chunk = Some (snd (cx_arr cx ! i)), wc_len = n\<rparr>"
      if "i < length (cx_arr cx)" "pending cx k (set_worker j Finished ?sn) \<le> i" for i
      using F'(16)[OF that(1)] that by (simp add: pending_def)
  qed (use F' g in simp_all)
  show ?thesis
  proof (cases "g_queue_peek_head Q (work_queue tr)")
    case None
    then have "work_take Q (pool_pushes s ! j) s = Inr (None, ?sn)"
      using F'(2) by (simp add: work_take_def transport_at_def t)
    with stop queue_head(1)[OF Q F] None show ?thesis by auto
  next
    case (Some v)
    obtain g G' vs va where v: "G = g # G'" "items (work_queue tr) = v # vs" "varrays s v = Some va"
        "holds cx (varrays s) v g" "va_len va = va_size va \<longleftrightarrow> complete cx g"
      using queue_head(2)[OF Q F Some] by blast
    show ?thesis
    proof (cases "complete cx g")
      case False
      then have "work_take Q (pool_pushes s ! j) s = Inr (None, ?sn)"
        using F'(2) v Some by (simp add: work_take_def transport_at_def varray_at_def t)
      with stop False v(1) show ?thesis by auto
    next
      case True
      let ?tr = "tr\<lparr>work_queue := g_queue_pop_head Q (work_queue tr)\<rparr>"
      let ?s1 = "s\<lparr>transports := (transports s)(cx_t cx \<mapsto> ?tr)\<rparr>"
      let ?s' = "set_worker j (Working v) ?s1"
      have items: "items (work_queue ?tr) = vs" by (simp add: gqueue.items_pop_head[OF Q] v(2))
      have "work_take Q (pool_pushes s ! j) s = Inr (Some v, ?s1)"
        using F'(2) v Some True by (simp add: work_take_def transport_at_def varray_at_def t)
      moreover have "recv_facts items cx k D [g] G' [v] all free ?tr ?s'"
      proof (rule recv_factsI)
        show "handler_inv cx k (items (work_queue ?tr)) G' ?s'"
          unfolding items
          by (rule handler_inv_pop[OF ok, of k v vs g G' s]) (use F'(4,6) v True in simp_all)
        show "worker_inv cx (is_work_running ?tr) [v] ?s'"
          using worker_inv_set[OF F'(5) j(1), of ?s' "Working v" "[v]"] j(2) act(1) by simp
        show "\<exists>n. work_chunks ?s' (wc_wr_id (fst (cx_arr cx ! i)))
            = Some \<lparr>wc_transport = cx_t cx, wc_chunk = Some (snd (cx_arr cx ! i)), wc_len = n\<rparr>"
          if "i < length (cx_arr cx)" "pending cx k ?s' \<le> i" for i
          using F'(16)[OF that(1)] that by (simp add: pending_def)
        show "groups_of (frames (cx_H cx) (take k (cx_arr cx))) = D @ [g] @ G'"
          using F'(6) ws v by simp
        show "complete cx g'" if "g' \<in> set D \<union> set [g]" for g'
          using that F'(7)[of g'] True by auto
        show "list_all2 (holds cx (varrays ?s')) (items (work_queue ?tr)) G'"
          unfolding items using F'(8) v by simp
        show "list_all2 (holds cx (varrays ?s')) [v] [g]" using v by simp
        show "distinct ([v] @ items (work_queue ?tr))" unfolding items using F'(10) v by simp
        show "dom (varrays ?s') = cx_others cx \<union> set ([v] @ items (work_queue ?tr))"
          unfolding items using F'(11) v ws by simp
        show "cx_others cx \<inter> set ([v] @ items (work_queue ?tr)) = {}"
          unfolding items using F'(12) v ws by simp
        show "G' = [] \<or> \<not> complete cx (hd G')" if "is_work_running ?tr = 0"
          using that act(1) by simp
        have same: "owned cx k [g] G' = owned cx k W G" by (simp add: owned_def v(1) ws)
        show "set all - set free = owned cx k [g] G' \<union> cx_out cx" "owned cx k [g] G' \<inter> cx_out cx = {}"
          using F'(20,21) by (simp_all add: same)
        show "header_of ?s' d = cx_H cx d" "body_of ?s' d = cx_B cx d" if "d \<in> owned cx k [g] G'" for d
          using F'(17,18)[of d] that by (simp_all add: same)
      qed (use F' in simp_all)
      ultimately show ?thesis by auto
    qed
  qed
qed

lemma deliver_step:
  assumes F: "recv_facts items cx k D W G ws all free tr s" and ok: "arrivals_ok (cx_H cx) (cx_arr cx)"
    and j: "j < length (pool_pushes s)" "workers s j = Working v"
  shows "\<exists>s1. work_message (pool_pushes s ! j) v s = Inr s1 \<and>
    (\<exists>D' free'. recv_facts items cx k D' [] G [] all free' tr (set_worker j Looping s1))"
proof -
  note F' = recv_factsD[OF F]
  have "workers s j \<noteq> Finished" using j(2) by simp
  note act = active_worker[OF F'(5) j(1) this]
  have ws: "ws = [v]" using act(5) j(2) by auto
  then obtain g where W: "W = [g]" and hold: "holds cx (varrays s) v g"
    using F'(9) by (auto simp: list_all2_Cons1)
  obtain did cs where g: "g = (did, cs)" by (cases g)
  have cpl: "complete cx g" using F'(7) W by simp
  have mem: "(did, cs) \<in> set (groups_of (frames (cx_H cx) (take k (cx_arr cx))))"
    using F'(6) W g by simp
  note gf = group_facts[OF ok mem]
  obtain va where va: "varrays s v = Some va" using hold by (auto simp: holds_def split: option.splits)
  have all_cs: "of_id did (cx_frames cx) = cs"
    using gf(3) cpl by (simp add: complete_def g)
  have vaf: "va_data_id va = did" "unat (va_len va) = length cs" "unat (va_size va) = length cs"
      "va_data va = map Some cs"
    using hold va by (simp_all add: holds_def g all_cs)
  then have "va_len va = va_size va" by (intro iffD2[OF word_eq_iff_unsigned[where 'a = nat]]) simp
  have hdm: "hd cs \<in> set cs" using gf(1) by simp
  have own: "owned cx k W G = set cs \<union> owned cx k [] G" by (simp add: W g owned_done)
  have H: "header_of s c = cx_H cx c" "body_of s c = cx_B cx c" if "c \<in> set cs" for c
    using F'(17,18)[of c] that own by auto
  have tot: "total_len (header_of s) cs = total_len (cx_H cx) cs" by (rule total_len_cong) (rule H)
  have del: "message_delivery (header_of s) (body_of s) ip (did, cs) = message_delivery (cx_H cx) (cx_B cx) ip (did, cs)"
    for ip by (rule message_delivery_cong) (simp add: H)
  have "\<exists>s1. work_message (cx_t cx) v s = Inr s1 \<and> pool_wf all (rev cs @ free) s1 \<and>
      finished v (message_delivery (header_of s) (body_of s) (remote_ip tr) (did, cs)) s s1"
  proof (rule work_message_delivers[OF F'(19) F'(2) act(1) va])
    show "set cs \<subseteq> set all - set free" using F'(23) W g by simp
    show "data_len (header_of s (hd cs)) = total_len (header_of s) cs"
      using gf(6) hdm all_cs by (simp add: H tot list_all_iff)
    show "list_all (\<lambda>c. data_id (header_of s c) = did) cs"
      "list_all (\<lambda>c. unat (chunk_len (header_of s c)) \<le> body_size) cs"
      using gf(4,5) H by (simp_all add: list_all_iff)
  qed (use gf vaf \<open>va_len va = va_size va\<close> in simp_all)
  then obtain s1 where s1: "work_message (cx_t cx) v s = Inr s1" "pool_wf all (rev cs @ free) s1"
      and fin: "finished v (message_delivery (cx_H cx) (cx_B cx) (cx_ip cx) g) s s1"
    by (auto simp: F'(3) g del)
  let ?d = "message_delivery (cx_H cx) (cx_B cx) (cx_ip cx) g"
  let ?t = "s\<lparr>varrays := (varrays s)(v := None), deliveries := deliveries s @ [?d]\<rparr>"
  have more: "mem.more s1 = mem.more ?t" and fs: "header_of s1 = header_of s" "body_of s1 = body_of s" "fresh s1 = fresh s"
    using fin by (simp_all add: finished_def)
  note fields = rt_fields_cong[OF more]
  have sys: "hpc s1 = hpc s" "workers s1 = workers s" "todo s1 = todo s"
    using more by (cases s; cases s1; simp)+
  let ?s' = "set_worker j Looping s1"
  have vn: "v \<notin> set (items (work_queue tr))" "v \<notin> cx_others cx" using F'(10,12) ws by auto
  have "recv_facts items cx k (D @ [g]) [] G [] all (rev cs @ free) tr ?s'"
  proof (rule recv_factsI)
    show "handler_inv cx k (items (work_queue tr)) G ?s'"
      using F'(4) by (simp add: handler_inv_def sys split: handler_pc.splits)
    show "worker_inv cx (is_work_running tr) [] ?s'"
      using worker_inv_set[OF F'(5) j(1), of ?s' Looping "[]"] j(2) act(1) by (simp add: fields sys)
    show "\<exists>n. work_chunks ?s' (wc_wr_id (fst (cx_arr cx ! i)))
        = Some \<lparr>wc_transport = cx_t cx, wc_chunk = Some (snd (cx_arr cx ! i)), wc_len = n\<rparr>"
      if "i < length (cx_arr cx)" "pending cx k ?s' \<le> i" for i
      using F'(16)[OF that(1)] that by (simp add: pending_def fields sys)
    show "groups_of (frames (cx_H cx) (take k (cx_arr cx))) = (D @ [g]) @ [] @ G"
      using F'(6) W by simp
    show "complete cx g'" if "g' \<in> set (D @ [g]) \<union> set []" for g'
      using that F'(7)[of g'] cpl by auto
    show "list_all2 (holds cx (varrays ?s')) (items (work_queue tr)) G"
      using F'(8) vn by (subst list_all2_holds_cong[where vm = "varrays s"]) (auto simp: fields)
    show "distinct ([] @ items (work_queue tr))" using F'(10) by simp
    show "cx_others cx \<inter> set ([] @ items (work_queue tr)) = {}" using F'(12) by auto
    show "dom (varrays ?s') = cx_others cx \<union> set ([] @ items (work_queue tr))"
      using F'(11) vn ws by (auto simp: fields)
    show "u < fresh ?s'" if "u \<in> dom (varrays ?s')" for u
      using that F'(13)[of u] by (auto simp: fields fs split: if_splits)
    show "G = [] \<or> \<not> complete cx (hd G)" if "is_work_running tr = 0"
      using that act(1) by simp
    show "pool_wf all (rev cs @ free) ?s'" using s1(2) by simp
    have dis: "set cs \<inter> group_chunks G = {}" "set cs \<inter> snd ` set (drop k (cx_arr cx)) = {}"
    proof -
      have "c \<notin> set cs'" if c: "c \<in> set cs" and g': "(d', cs') \<in> set G" for c d' cs'
      proof
        assume "c \<in> set cs'"
        moreover have "(d', cs') \<in> set (groups_of (frames (cx_H cx) (take k (cx_arr cx))))"
          using F'(6) g' by simp
        note group_facts(4)[OF ok this]
        ultimately have "d' = did" using gf(4) c by (auto simp: list_all_iff)
        moreover have "distinct (map fst (D @ W @ G))" using groups_of_ids(1) F'(6) by metis
        ultimately show False using g' W g by force
      qed
      then show "set cs \<inter> group_chunks G = {}" by (auto simp: group_chunks_def)
      have "distinct (map snd (take k (cx_arr cx) @ drop k (cx_arr cx)))"
        using ok by (simp add: arrivals_ok_def)
      then have "snd ` set (take k (cx_arr cx)) \<inter> snd ` set (drop k (cx_arr cx)) = {}"
        unfolding map_append distinct_append set_map by blast
      then show "set cs \<inter> snd ` set (drop k (cx_arr cx)) = {}" using gf(7) by blast
    qed
    have out: "set cs \<inter> owned cx k [] G = {}" using dis by (auto simp: owned_def)
    show "set all - set (rev cs @ free) = owned cx k [] G \<union> cx_out cx" "owned cx k [] G \<inter> cx_out cx = {}"
      using F'(20,21) out unfolding own by auto
    show "header_of ?s' d = cx_H cx d" "body_of ?s' d = cx_B cx d" if "d \<in> owned cx k [] G" for d
      using F'(17,18)[of d] that unfolding own by (simp_all add: fs)
  qed (use F' fs in \<open>simp_all add: fields\<close>)
  with s1(1) act(4) show ?thesis by auto
qed
section \<open>Every step\<close>

text \<open>The statuses and opcodes of the completions rule out the aborts of \<open>handle_thread\<close>.\<close>

lemma next_kind:
  assumes F: "recv_facts items cx k D W G ws all free tr s" and ok: "arrivals_ok (cx_H cx) (cx_arr cx)"
    and h: "hpc s = Waiting" "todo s = wc # rest"
  shows "status wc = IBV_WC_SUCCESS" "opcode wc \<in> {IBV_WC_SEND, IBV_WC_RECV}"
proof -
  note F' = recv_factsD[OF F]
  have "wc # rest = map fst (drop k (cx_arr cx))" using F'(4) h by (simp add: handler_inv_def)
  then have "wc \<in> fst ` set (drop k (cx_arr cx))" by (metis list.set_intros(1) set_map)
  then obtain c where "(wc, c) \<in> set (cx_arr cx)" by (auto dest: in_set_dropD)
  from arrivals_okD[OF ok this] show "status wc = IBV_WC_SUCCESS" "opcode wc \<in> {IBV_WC_SEND, IBV_WC_RECV}"
    by (simp_all add: arrival_ok_def)
qed

lemma recv_inv_step:
  assumes inv: "recv_inv Q items E cx s" and step: "recv_step Q E s s'"
  shows "recv_inv Q items E cx s'"
proof -
  have Q: "gqueue Q items" and E: "calls_succeed E" and ok: "arrivals_ok (cx_H cx) (cx_arr cx)"
    using inv by (auto simp: recv_inv_def)
  obtain k D W G ws all free tr where F: "recv_facts items cx k D W G ws all free tr s"
    using inv by (auto simp: recv_inv_def)
  have "\<exists>k D W G ws all free tr. recv_facts items cx k D W G ws all free tr s'"
    using step
  proof cases
    case (handle_bad wc rest)
    with next_kind[OF F ok handle_bad(2,3)] show ?thesis by auto
  next
    case (handle_send wc rest s1)
    with handle_send_step[OF F ok handle_send(2,3,5)] show ?thesis by (simp, blast)
  next
    case (handle_send_crash wc rest e)
    with handle_send_step[OF F ok handle_send_crash(2,3,5)] show ?thesis by auto
  next
    case (look wc rest found)
    with look_step[OF Q F ok look(2,3,5)] show ?thesis by (simp, blast)
  next
    case (look_crash wc rest e)
    with look_step[OF Q F ok look_crash(2,3,5)] show ?thesis by auto
  next
    case (store wc found s1)
    with store_step[OF Q E F ok store(2)] show ?thesis by (simp, blast)
  next
    case (store_crash wc found e)
    with store_step[OF Q E F ok store_crash(2)] show ?thesis by auto
  next
    case (wake wc w s1)
    with wake_step[OF Q F ok wake(2)] show ?thesis by (simp, blast)
  next
    case (wake_crash wc e)
    with wake_step[OF Q F ok wake_crash(2)] show ?thesis by auto
  next
    case (take j v s1)
    with take_step[OF Q F ok take(2,3)] show ?thesis by (simp, blast)
  next
    case (stop j s1)
    with take_step[OF Q F ok stop(2,3)] show ?thesis by (simp, blast)
  next
    case (take_crash j e)
    with take_step[OF Q F ok take_crash(2,3)] show ?thesis by auto
  next
    case (deliver j v s1)
    with deliver_step[OF F ok deliver(2,3)] show ?thesis by (simp, blast)
  next
    case (deliver_crash j v e)
    with deliver_step[OF F ok deliver_crash(2,3)] show ?thesis by auto
  qed
  with Q E ok show ?thesis by (auto simp: recv_inv_def)
qed

text \<open>
  The start: no completion handled yet, no worker at work, an empty queue; a receive or a send is
  posted for every completion to come, with a chunk that is out of the pool.
\<close>

definition recv_start ::
  "'q gqueue_ops \<Rightarrow> ('q \<Rightarrow> nat list) \<Rightarrow> env \<Rightarrow> recv_ctx \<Rightarrow> 'q recv_sys \<Rightarrow> bool" where
  "recv_start Q items E cx s \<longleftrightarrow> gqueue Q items \<and> calls_succeed E \<and> arrivals_ok (cx_H cx) (cx_arr cx) \<and>
     todo s = map fst (cx_arr cx) \<and> hpc s = Waiting \<and>
     set (pool_pushes s) \<subseteq> {cx_t cx} \<and>
     (\<forall>j. workers s j = (if j < length (pool_pushes s) then Finished else Looping)) \<and>
     (case transports s (cx_t cx) of None \<Rightarrow> False
      | Some tr \<Rightarrow> items (work_queue tr) = [] \<and> is_work_running tr = 0 \<and> remote_ip tr = cx_ip cx) \<and>
     dom (varrays s) = cx_others cx \<and> (\<forall>v \<in> cx_others cx. v < fresh s) \<and>
     deliveries s = cx_before cx \<and> header_of s = cx_H cx \<and> body_of s = cx_B cx \<and>
     list_all (\<lambda>(wc, c). map_option (\<lambda>w. (wc_transport w, wc_chunk w)) (work_chunks s (wc_wr_id wc))
        = Some (cx_t cx, Some c)) (cx_arr cx) \<and>
     (\<exists>all free. pool_wf all free s \<and> snd ` set (cx_arr cx) \<subseteq> set all - set free \<and>
        cx_out cx = set all - set free - snd ` set (cx_arr cx))"

lemma recv_start_inv:
  assumes "recv_start Q items E cx s"
  shows "recv_inv Q items E cx s"
proof -
  obtain tr where tr: "transports s (cx_t cx) = Some tr" "items (work_queue tr) = []"
      "is_work_running tr = 0" "remote_ip tr = cx_ip cx"
    using assms by (auto simp: recv_start_def split: option.splits)
  obtain all free where pool: "pool_wf all free s" "snd ` set (cx_arr cx) \<subseteq> set all - set free"
      "cx_out cx = set all - set free - snd ` set (cx_arr cx)"
    using assms unfolding recv_start_def by (elim conjE exE) (rule that; assumption)
  have own: "owned cx 0 [] [] = snd ` set (cx_arr cx)" by (simp add: owned_def)
  have "recv_facts items cx 0 [] [] [] [] all free tr s"
  proof (rule recv_factsI)
    show "\<exists>n. work_chunks s (wc_wr_id (fst (cx_arr cx ! i)))
        = Some \<lparr>wc_transport = cx_t cx, wc_chunk = Some (snd (cx_arr cx ! i)), wc_len = n\<rparr>"
      if i: "i < length (cx_arr cx)" for i
    proof -
      have "map_option (\<lambda>w. (wc_transport w, wc_chunk w)) (work_chunks s (wc_wr_id (fst (cx_arr cx ! i))))
          = Some (cx_t cx, Some (snd (cx_arr cx ! i)))"
        using assms i by (auto simp: recv_start_def list_all_length case_prod_beta)
      then obtain w where "work_chunks s (wc_wr_id (fst (cx_arr cx ! i))) = Some w"
          "wc_transport w = cx_t cx" "wc_chunk w = Some (snd (cx_arr cx ! i))" by auto
      then show ?thesis by (cases w) auto
    qed
    show "set all - set free = owned cx 0 [] [] \<union> cx_out cx" "owned cx 0 [] [] \<inter> cx_out cx = {}"
      using pool(2,3) unfolding own by blast+
  qed (use assms tr pool in \<open>auto simp: recv_start_def handler_inv_def worker_inv_def frames_def\<close>)
  with assms show ?thesis by (auto simp: recv_inv_def recv_start_def)
qed

interpretation receiver: step_system "recv_start Q items E cx" "recv_step Q E" "recv_inv Q items E cx"
  for Q items E cx
  by unfold_locales (blast intro: recv_start_inv recv_inv_step)+
end
