(* ===== verification/Receive_Delivery.thy ===== *)
theory Receive_Delivery
  imports Receive_Safety
begin

text \<open>
  What the receiver guarantees, from its invariant: no fault, one worker at a time, delivery in
  order, delivery of everything, termination; and the bytes of the array that Java gets.
\<close>

section \<open>The order of the groups\<close>

lemma map_fst_add_frame_prefix: "\<exists>ds. map fst (add_frame f gs) = map fst gs @ ds"
proof -
  obtain did c where Pair: "f = (did, c)" by (cases f)
  show ?thesis
  proof (cases "did \<in> fst ` set gs")
    case True
    then show ?thesis by (simp add: Pair map_fst_add_frame)
  next
    case False
    then show ?thesis by (simp add: Pair add_frame_new)
  qed
qed

lemma map_fst_groups_prefix: "\<exists>ds. map fst (groups_of (fs @ gs)) = map fst (groups_of fs) @ ds"
proof (induction gs rule: rev_induct)
  case Nil
  then show ?case by simp
next
  case (snoc g gs)
  then obtain ds where "map fst (groups_of (fs @ gs)) = map fst (groups_of fs) @ ds" by blast
  moreover obtain es where "map fst (add_frame g (groups_of (fs @ gs))) = map fst (groups_of (fs @ gs)) @ es"
    using map_fst_add_frame_prefix by blast
  ultimately show ?case by (simp flip: append_assoc) simp
qed

lemma groups_of_map: "groups_of fs = map (\<lambda>d. (d, of_id d fs)) (map fst (groups_of fs))"
proof (rule nth_equalityI)
  fix i assume i: "i < length (groups_of fs)"
  then have "(fst (groups_of fs ! i), snd (groups_of fs ! i)) \<in> set (groups_of fs)" by simp
  from groups_of_members[OF this] i show "groups_of fs ! i = map (\<lambda>d. (d, of_id d fs)) (map fst (groups_of fs)) ! i"
    by (simp add: prod_eq_iff)
qed simp

text \<open>Groups that are complete are a prefix of the groups of everything.\<close>

lemma complete_prefix:
  assumes "groups_of (frames (cx_H cx) (take k (cx_arr cx))) = D @ E" and "\<And>g. g \<in> set D \<Longrightarrow> complete cx g"
  shows "D = take (length D) (groups_of (cx_frames cx))"
proof -
  let ?fs = "frames (cx_H cx) (take k (cx_arr cx))" and ?gs = "frames (cx_H cx) (drop k (cx_arr cx))"
  have split: "cx_frames cx = ?fs @ ?gs" by (rule frames_split)
  obtain ds where ds: "map fst (groups_of (cx_frames cx)) = map fst D @ map fst E @ ds"
    using map_fst_groups_prefix[of ?fs ?gs] by (auto simp: assms(1) simp flip: split)
  have D: "D = map (\<lambda>d. (d, of_id d (cx_frames cx))) (map fst D)"
  proof (rule nth_equalityI)
    fix i assume i: "i < length D"
    obtain did cs where g: "D ! i = (did, cs)" by (cases "D ! i")
    have "(did, cs) \<in> set (groups_of ?fs)" using i g assms(1) by (metis UnCI nth_mem set_append)
    from groups_of_members[OF this] have "of_id did (cx_frames cx) = cs @ of_id did ?gs"
      by (subst split) simp
    moreover have "complete cx (did, cs)" using assms(2)[OF nth_mem[OF i]] g by simp
    ultimately have "of_id did (cx_frames cx) = cs" by (simp add: complete_def)
    then show "D ! i = map (\<lambda>d. (d, of_id d (cx_frames cx))) (map fst D) ! i" using i g by simp
  qed simp
  have "take (length D) (groups_of (cx_frames cx))
      = map (\<lambda>d. (d, of_id d (cx_frames cx))) (take (length D) (map fst (groups_of (cx_frames cx))))"
    by (subst groups_of_map) (simp add: take_map)
  also have "\<dots> = map (\<lambda>d. (d, of_id d (cx_frames cx))) (map fst D)" by (simp add: ds)
  finally show ?thesis using D by simp
qed

section \<open>Safety\<close>

abbreviation "recv_reach Q items E cx \<equiv> reach (recv_start Q items E cx) (recv_step Q E)"

abbreviation "cx_messages cx \<equiv>
  map (message_delivery (cx_H cx) (cx_B cx) (cx_ip cx)) (groups_of (cx_frames cx))"

lemma recv_reach_facts:
  assumes "recv_reach Q items E cx s"
  obtains k D W G ws all free tr where "gqueue Q items" "calls_succeed E" "arrivals_ok (cx_H cx) (cx_arr cx)"
    "recv_facts items cx k D W G ws all free tr s"
  using receiver.reach_inv[OF assms] by (auto simp: recv_inv_def)

text \<open>What the invariant says of the threads and of what was handed over.\<close>

lemma recv_inv_no_fault:
  assumes "recv_inv Q items E cx s"
  shows "hpc s \<noteq> Handler_crashed e \<and> (j < length (pool_pushes s) \<longrightarrow> workers s j \<noteq> Worker_crashed e)"
proof -
  obtain k D W G ws all free tr where F: "recv_facts items cx k D W G ws all free tr s"
    using assms by (auto simp: recv_inv_def)
  note F' = recv_factsD[OF F]
  have "hpc s \<noteq> Handler_crashed e" using F'(4) by (auto simp: handler_inv_def)
  moreover have "workers s j \<noteq> Worker_crashed e" if "j < length (pool_pushes s)"
    using active_worker(5)[OF F'(5) that] by auto
  ultimately show ?thesis by blast
qed

lemma recv_inv_prefix:
  assumes "recv_inv Q items E cx s"
  shows "\<exists>n. deliveries s = cx_before cx @ take n (cx_messages cx)"
proof -
  obtain k D W G ws all free tr where F: "recv_facts items cx k D W G ws all free tr s"
    using assms by (auto simp: recv_inv_def)
  note F' = recv_factsD[OF F]
  have "D = take (length D) (groups_of (cx_frames cx))"
    using complete_prefix[OF F'(6)] F'(7) by blast
  then show ?thesis using F'(15) by (metis take_map)
qed


text \<open>
  C25: At most one worker serves a connection at a time, and \<open>is_work_running\<close> says whether one
  does: it is 1 exactly while a pushed worker has not finished.
\<close>

theorem one_worker_at_a_time:
  assumes "recv_reach Q items E cx s"
  shows "\<exists>tr. transports s (cx_t cx) = Some tr \<and> is_work_running tr \<in> {0, 1} \<and>
    card {j. j < length (pool_pushes s) \<and> workers s j \<noteq> Finished} = nat (is_work_running tr)"
proof -
  obtain k D W G ws all free tr where F: "recv_facts items cx k D W G ws all free tr s"
    using recv_reach_facts[OF assms] by metis
  note F' = recv_factsD[OF F]
  show ?thesis
  proof (cases "is_work_running tr = 0")
    case True
    then have "{j. j < length (pool_pushes s) \<and> workers s j \<noteq> Finished} = {}"
      using F'(5) by (auto simp: worker_inv_def)
    with True F'(2) show ?thesis by simp
  next
    case False
    then obtain m where m: "is_work_running tr = 1" "length (pool_pushes s) = Suc m"
        "\<forall>j < m. workers s j = Finished" "workers s m \<noteq> Finished"
      using F'(5) by (auto simp: worker_inv_def)
    then have "{j. j < length (pool_pushes s) \<and> workers s j \<noteq> Finished} = {m}"
      by (auto simp: less_Suc_eq)
    with m F'(2) show ?thesis by simp
  qed
qed

text \<open>
  At every moment the messages handed to Java are a prefix of the messages that the frames
  make up, in the order of their first frames, each exactly once.
\<close>

lemma deliveries_in_order:
  assumes "recv_reach Q items E cx s"
  shows "\<exists>n. deliveries s = cx_before cx @ take n (cx_messages cx)"
  by (rule recv_inv_prefix[OF receiver.reach_inv[OF assms]])

section \<open>Every message is delivered\<close>

text \<open>All completions are handled and no worker runs: only such a receiver is stuck.\<close>

definition receiver_done :: "'q recv_sys \<Rightarrow> bool" where
  "receiver_done s \<longleftrightarrow> hpc s = Waiting \<and> todo s = [] \<and>
     list_all (\<lambda>j. workers s j = Finished) [0..<length (pool_pushes s)]"

lemma stuck_inv_done:
  assumes inv: "recv_inv Q items E cx s" and stuck: "\<And>s'. \<not> recv_step Q E s s'"
  shows "receiver_done s"
proof -
  obtain k D W G ws all free tr where Q: "gqueue Q items" and E: "calls_succeed E"
      and ok: "arrivals_ok (cx_H cx) (cx_arr cx)" and F: "recv_facts items cx k D W G ws all free tr s"
    using inv by (auto simp: recv_inv_def)
  note F' = recv_factsD[OF F]
  have w: "hpc s = Waiting"
  proof (cases "hpc s")
    case (Looked wc found)
    from store_step[OF Q E F ok Looked] recv_step.store[OF Looked] stuck show ?thesis by blast
  next
    case (Stored wc)
    from wake_step[OF Q F ok Stored] recv_step.wake[OF Stored] stuck show ?thesis by blast
  qed (use F'(4) in \<open>auto simp: handler_inv_def\<close>)
  have "todo s = []"
  proof (cases "todo s")
    case (Cons wc rest)
    note kind = next_kind[OF F ok w Cons]
    show ?thesis
    proof (cases "opcode wc = IBV_WC_SEND")
      case True
      from handle_send_step[OF F ok w Cons True] recv_step.handle_send[OF w Cons kind(1) True] stuck
      show ?thesis by blast
    next
      case False
      then have r: "opcode wc = IBV_WC_RECV" using kind(2) by simp
      from look_step[OF Q F ok w Cons r] recv_step.look[OF w Cons kind(1) r] stuck
      show ?thesis by blast
    qed
  qed simp
  moreover have "workers s j = Finished" if j: "j < length (pool_pushes s)" for j
  proof (rule ccontr)
    assume "workers s j \<noteq> Finished"
    from active_worker(5)[OF F'(5) j this] show False
    proof (elim disjE exE conjE)
      assume l: "workers s j = Looping"
      obtain r s1 where "work_take Q (pool_pushes s ! j) s = Inr (r, s1)"
        using take_step[OF Q F ok j l] by blast
      then show False
        using recv_step.take[OF j l] recv_step.stop[OF j l] stuck by (cases r) blast+
    next
      fix v assume l: "workers s j = Working v"
      from deliver_step[OF F ok j l] recv_step.deliver[OF j l] stuck show False by blast
    qed
  qed
  ultimately show ?thesis using w by (simp add: receiver_done_def list_all_iff)
qed

lemma stuck_receiver_done:
  "recv_reach Q items E cx s \<Longrightarrow> (\<And>s'. \<not> recv_step Q E s s') \<Longrightarrow> receiver_done s"
  by (rule stuck_inv_done[OF receiver.reach_inv])

lemma quiescent_inv:
  assumes inv: "recv_inv Q items E cx s" and stuck: "\<And>s'. \<not> recv_step Q E s s'"
  shows "deliveries s = cx_before cx @ cx_messages cx \<and> dom (varrays s) = cx_others cx \<and>
    (\<exists>tr. transports s (cx_t cx) = Some tr \<and> items (work_queue tr) = [] \<and> is_work_running tr = 0) \<and>
    (\<exists>all free. pool_wf all free s \<and> snd ` set (cx_arr cx) \<subseteq> set all \<and> set all - set free = cx_out cx)"
proof -
  obtain k D W G ws all free tr where F: "recv_facts items cx k D W G ws all free tr s"
    using inv by (auto simp: recv_inv_def)
  note F' = recv_factsD[OF F]
  have w: "hpc s = Waiting" "todo s = []" and fin: "\<And>j. j < length (pool_pushes s) \<Longrightarrow> workers s j = Finished"
    using stuck_inv_done[OF assms] by (auto simp: receiver_done_def list_all_iff)
  then have k: "k = length (cx_arr cx)" using F'(1,4) by (simp add: handler_inv_def)
  have run: "is_work_running tr = 0" "ws = []"
    using F'(5) fin by (auto simp: worker_inv_def split: if_splits)
  then have W: "W = []" using F'(9) by simp
  have all_complete: "complete cx g" if "g \<in> set (groups_of (cx_frames cx))" for g
    using groups_of_members[of "fst g" "snd g" "cx_frames cx"] that by (simp add: complete_def)
  have groups: "groups_of (cx_frames cx) = D @ G" using F'(6) W k by simp
  have "G = []"
  proof (cases G)
    case (Cons g G')
    with F'(14)[OF run(1)] w all_complete[of g] groups show ?thesis by simp
  qed simp
  then have q: "items (work_queue tr) = []" using F'(8) by simp
  have "owned cx k W G = {}" using k W \<open>G = []\<close> by (simp add: owned_def)
  then have "\<exists>all free. pool_wf all free s \<and> snd ` set (cx_arr cx) \<subseteq> set all \<and> set all - set free = cx_out cx"
    using F'(19,20,22) by (intro exI[of _ all] exI[of _ free]) simp
  moreover have "deliveries s = cx_before cx @ cx_messages cx" "dom (varrays s) = cx_others cx"
    using F'(11,15) run q groups \<open>G = []\<close> by simp_all
  ultimately show ?thesis using F'(2) run(1) q by blast
qed

lemma quiescent_delivers:
  assumes reach: "recv_reach Q items E cx s" and stuck: "\<And>s'. \<not> recv_step Q E s s'"
  shows "deliveries s = cx_before cx @ cx_messages cx \<and> dom (varrays s) = cx_others cx \<and>
    (\<exists>tr. transports s (cx_t cx) = Some tr \<and> items (work_queue tr) = [] \<and> is_work_running tr = 0) \<and>
    (\<exists>all free. pool_wf all free s \<and> snd ` set (cx_arr cx) \<subseteq> set free)"
proof -
  have "snd ` set (cx_arr cx) \<inter> cx_out cx = {}"
    using reach_start[OF reach] by (auto simp: recv_start_def)
  note q = quiescent_inv[OF receiver.reach_inv[OF reach] stuck]
  from q obtain all free where "pool_wf all free s" "snd ` set (cx_arr cx) \<subseteq> set all" "set all - set free = cx_out cx"
    by (elim conjE exE) (rule that; assumption)
  then have "pool_wf all free s \<and> snd ` set (cx_arr cx) \<subseteq> set free"
    using \<open>snd ` set (cx_arr cx) \<inter> cx_out cx = {}\<close> by auto
  then have "\<exists>all free. pool_wf all free s \<and> snd ` set (cx_arr cx) \<subseteq> set free" by blast
  with q show ?thesis by (elim conjE) (intro conjI; assumption)
qed

text \<open>
  C4: When no thread can take a step, everything is delivered, in the order of the first frames;
  every chunk of a received or completed frame is back in the pool, the queue is empty, the arrays
  are freed, and no worker runs. A lost wake-up would leave a complete message in the queue.
\<close>

theorem quiescent_receiver_has_delivered:
  assumes reach: "recv_reach Q items E cx s" and stuck: "\<And>s'. \<not> recv_step Q E s s'"
  shows "deliveries s = cx_before cx @ cx_messages cx \<and> dom (varrays s) = cx_others cx \<and>
    (\<exists>tr. transports s (cx_t cx) = Some tr \<and> items (work_queue tr) = [] \<and> is_work_running tr = 0) \<and>
    (\<exists>all free. pool_wf all free s \<and> snd ` set (cx_arr cx) \<subseteq> set free)"
  using assms by (rule quiescent_delivers)

section \<open>Every run ends\<close>

text \<open>
  A measure that every step decreases: what a completion, the place of the handle thread, a group in
  the queue and a worker may still cause.
\<close>

definition queue_len :: "('q \<Rightarrow> nat list) \<Rightarrow> nat \<Rightarrow> ('q, 'z) rt_scheme \<Rightarrow> nat" where
  "queue_len items t s = (case transports s t of None \<Rightarrow> 0 | Some tr \<Rightarrow> length (items (work_queue tr)))"

definition handler_weight :: "handler_pc \<Rightarrow> nat" where
  "handler_weight p = (case p of Looked wc found \<Rightarrow> 5 | Stored wc \<Rightarrow> 2 | _ \<Rightarrow> 0)"

definition worker_weight :: "worker_pc \<Rightarrow> nat" where
  "worker_weight p = (case p of Looping \<Rightarrow> 1 | Working v \<Rightarrow> 2 | _ \<Rightarrow> 0)"

definition workers_weight :: "'q recv_sys \<Rightarrow> nat" where
  "workers_weight s = (\<Sum>j < length (pool_pushes s). worker_weight (workers s j))"

definition recv_measure :: "('q \<Rightarrow> nat list) \<Rightarrow> nat \<Rightarrow> 'q recv_sys \<Rightarrow> nat" where
  "recv_measure items t s = 6 * length (todo s) + handler_weight (hpc s) + 2 * queue_len items t s
     + workers_weight s"

lemma workers_weight_set:
  assumes "j < length (pool_pushes s)" "pool_pushes s' = pool_pushes s" "workers s' = (workers s)(j := p)"
  shows "workers_weight s' + worker_weight (workers s j) = workers_weight s + worker_weight p"
proof -
  have "(\<Sum>i < length (pool_pushes s). worker_weight (((workers s)(j := p)) i))
      = worker_weight p + (\<Sum>i \<in> {..<length (pool_pushes s)} - {j}. worker_weight (workers s i))"
    using assms(1) by (subst sum.remove[of _ j]) (auto intro!: sum.cong)
  moreover have "workers_weight s
      = worker_weight (workers s j) + (\<Sum>i \<in> {..<length (pool_pushes s)} - {j}. worker_weight (workers s i))"
    unfolding workers_weight_def using assms(1) by (subst sum.remove[of _ j]) auto
  ultimately show ?thesis by (simp add: workers_weight_def assms(2,3))
qed

lemma recv_store_Some:
  assumes "recv_store Q E wc (Some v) s = Inr s1"
  shows "\<exists>va. s1 = s\<lparr>varrays := va\<rparr>"
  using assms
  by (auto simp: recv_store_def bind_res_def Let_def split: sum.splits if_splits)

lemma recv_store_None:
  assumes "recv_store Q E wc None s = Inr s1"
  shows "\<exists>n va t tr v. transports s t = Some tr \<and>
    s1 = s\<lparr>fresh := n, varrays := va, transports := (transports s)(t \<mapsto>
      tr\<lparr>work_queue := g_queue_push_tail Q (work_queue tr) v\<rparr>)\<rparr>"
  using assms
  by (auto simp: recv_store_def bind_res_def Let_def VARRY_MALLOC0_def malloc_def transport_at_def
      deref_def split: sum.splits if_splits option.splits prod.splits) blast

lemma recv_store_effect:
  assumes Q: "gqueue Q items" and st: "recv_store Q E wc found s = Inr s1"
  shows "queue_len items t s1 \<le> Suc (queue_len items t s)" "pool_pushes s1 = pool_pushes s"
    "rt.more s1 = rt.more s"
proof -
  have "queue_len items t s1 \<le> Suc (queue_len items t s) \<and> pool_pushes s1 = pool_pushes s \<and> rt.more s1 = rt.more s"
  proof (cases found)
    case None
    from recv_store_None[OF st[unfolded None]] show ?thesis
      by (auto simp: queue_len_def gqueue.items_push_tail[OF Q])
  next
    case (Some v)
    from recv_store_Some[OF st[unfolded Some]] show ?thesis by (auto simp: queue_len_def)
  qed
  then show "queue_len items t s1 \<le> Suc (queue_len items t s)" "pool_pushes s1 = pool_pushes s"
    "rt.more s1 = rt.more s" by auto
qed

lemma recv_wake_cases:
  assumes "recv_wake Q t s = Inr s1"
  shows "s1 = s \<or> (\<exists>tr. transports s t = Some tr \<and>
    s1 = s\<lparr>transports := (transports s)(t \<mapsto> tr\<lparr>is_work_running := 1\<rparr>), pool_pushes := pool_pushes s @ [t]\<rparr>)"
  using assms
  by (auto simp: recv_wake_def bind_res_def transport_at_def split: sum.splits if_splits option.splits)

lemma recv_wake_effect:
  assumes "recv_wake Q t' s = Inr s1"
  shows "queue_len items t s1 = queue_len items t s" "rt.more s1 = rt.more s"
    "pool_pushes s1 = pool_pushes s \<or> pool_pushes s1 = pool_pushes s @ [t']"
  using recv_wake_cases[OF assms] by (auto simp: queue_len_def)

lemma work_take_cases:
  assumes "work_take Q t s = Inr (r, s1)"
  shows "\<exists>tr. transports s t = Some tr \<and>
    (r = None \<and> s1 = s\<lparr>transports := (transports s)(t \<mapsto> tr\<lparr>is_work_running := 0\<rparr>)\<rparr> \<or>
     r = g_queue_peek_head Q (work_queue tr) \<and> r \<noteq> None \<and>
     s1 = s\<lparr>transports := (transports s)(t \<mapsto> tr\<lparr>work_queue := g_queue_pop_head Q (work_queue tr)\<rparr>)\<rparr>)"
  using assms
  by (auto simp: work_take_def bind_res_def transport_at_def Let_def split: sum.splits if_splits option.splits)

lemma work_take_effect:
  assumes Q: "gqueue Q items" and t: "work_take Q t s = Inr (r, s1)"
  shows "queue_len items t s1 + (if r = None then 0 else 1) = queue_len items t s"
    "pool_pushes s1 = pool_pushes s" "rt.more s1 = rt.more s"
proof -
  obtain tr where tr: "transports s t = Some tr"
    "r = None \<and> s1 = s\<lparr>transports := (transports s)(t \<mapsto> tr\<lparr>is_work_running := 0\<rparr>)\<rparr> \<or>
     r = g_queue_peek_head Q (work_queue tr) \<and> r \<noteq> None \<and>
     s1 = s\<lparr>transports := (transports s)(t \<mapsto> tr\<lparr>work_queue := g_queue_pop_head Q (work_queue tr)\<rparr>)\<rparr>"
    using work_take_cases[OF t] by blast
  from tr(2) show "pool_pushes s1 = pool_pushes s" "rt.more s1 = rt.more s" by auto
  show "queue_len items t s1 + (if r = None then 0 else 1) = queue_len items t s"
    using tr
    by (cases "items (work_queue tr)")
      (auto simp: queue_len_def gqueue.peek_head[OF Q] gqueue.items_pop_head[OF Q])
qed

lemma more_effect:
  fixes s s1 :: "('q, 'z) rt_scheme"
  assumes "mem.more s1 = mem.more s"
  shows "queue_len items t s1 = queue_len items t s" "pool_pushes s1 = pool_pushes s" "rt.more s1 = rt.more s"
  using rt_fields_cong[OF assms] assms by (simp_all add: queue_len_def)

lemma work_message_effect:
  assumes "work_message t' v s = Inr s1"
  shows "queue_len items t s1 = queue_len items t s" "pool_pushes s1 = pool_pushes s" "rt.more s1 = rt.more s"
proof -
  have "\<exists>ds va s2 n. for_loop 0 n (release_turn va) (s\<lparr>deliveries := ds\<rparr>) = Inr s2
      \<and> s1 = s2\<lparr>varrays := (varrays s2)(v := None)\<rparr>"
    using assms
    by (auto simp: work_message_def bind_res_def Let_def split: sum.splits if_splits prod.splits)
  then obtain ds va s2 n where s2: "for_loop 0 n (release_turn va) (s\<lparr>deliveries := ds\<rparr>) = Inr s2"
      "s1 = s2\<lparr>varrays := (varrays s2)(v := None)\<rparr>" by blast
  have "mem.more s2 = mem.more (s\<lparr>deliveries := ds\<rparr>)" using release_loop_frame[OF s2(1)] by simp
  note e = more_effect[OF this]
  show "queue_len items t s1 = queue_len items t s" using e(1)[of items t] by (simp add: s2(2) queue_len_def)
  show "pool_pushes s1 = pool_pushes s" "rt.more s1 = rt.more s" using e(2,3) by (simp_all add: s2(2))
qed

text \<open>The fields that only the system has.\<close>

lemma sys_fields:
  fixes s s1 :: "'q recv_sys"
  assumes "rt.more s1 = rt.more s"
  shows "todo s1 = todo s" "hpc s1 = hpc s" "workers s1 = workers s"
  using assms by (cases s; cases s1; simp)+

lemma recv_measure_decreases:
  assumes inv: "recv_inv Q items E cx s" and step: "recv_step Q E s s'"
  shows "recv_measure items (cx_t cx) s' < recv_measure items (cx_t cx) s"
proof -
  have Q: "gqueue Q items" and E: "calls_succeed E" and ok: "arrivals_ok (cx_H cx) (cx_arr cx)"
    using inv by (auto simp: recv_inv_def)
  obtain k D W G ws all free tr where F: "recv_facts items cx k D W G ws all free tr s"
    using inv by (auto simp: recv_inv_def)
  note F' = recv_factsD[OF F]
  let ?t = "cx_t cx"
  show ?thesis
    using step
  proof cases
    case (handle_bad wc rest)
    with next_kind[OF F ok handle_bad(2,3)] show ?thesis by auto
  next
    case (handle_send wc rest s1)
    obtain w s2 where s2: "release_rdma_chunk_to_pool w s = Inr s2" "s1 = free_work_chunk (wc_wr_id wc) s2"
      using handle_send(6) by (auto simp: handle_send_event_def bind_res_Inr_iff)
    have "mem.more s2 = mem.more s" using release_frame[OF s2(1)] by simp
    note e = more_effect[OF this] sys_fields[OF more_effect(3)[OF this]]
    from e(1)[of items ?t] e(2,4-6) handle_send(1-3) show ?thesis
      by (simp add: s2(2) recv_measure_def queue_len_def workers_weight_def free_work_chunk_def)
  next
    case (handle_send_crash wc rest e)
    with handle_send_step[OF F ok handle_send_crash(2,3,5)] show ?thesis by auto
  next
    case (look wc rest found)
    then show ?thesis by (simp add: recv_measure_def handler_weight_def queue_len_def workers_weight_def)
  next
    case (look_crash wc rest e)
    with look_step[OF Q F ok look_crash(2,3,5)] show ?thesis by auto
  next
    case (store wc found s1)
    note e = recv_store_effect[OF Q store(3)] sys_fields[OF recv_store_effect(3)[OF Q store(3)]]
    from e(1)[of ?t] e(2,4-6) show ?thesis
      by (simp add: store(1,2) recv_measure_def handler_weight_def queue_len_def workers_weight_def)
  next
    case (store_crash wc found e)
    with store_step[OF Q E F ok store_crash(2)] show ?thesis by auto
  next
    case (wake wc w s1)
    note e = recv_wake_effect[OF wake(4)] sys_fields[OF recv_wake_effect(2)[OF wake(4)]]
    have "workers_weight ((free_work_chunk (wc_wr_id wc) s1)\<lparr>hpc := Waiting\<rparr>) \<le> Suc (workers_weight s)"
      using e(3,6) F'(5) by (auto simp: workers_weight_def free_work_chunk_def worker_inv_def worker_weight_def)
    with e(1)[of items ?t] e(4-6) show ?thesis
      by (simp add: wake(1,2) recv_measure_def handler_weight_def queue_len_def free_work_chunk_def)
  next
    case (wake_crash wc e)
    with wake_step[OF Q F ok wake_crash(2)] show ?thesis by auto
  next
    case (take j v s1)
    note e = work_take_effect[OF Q take(4)] sys_fields[OF work_take_effect(3)[OF Q take(4)]]
    have t: "pool_pushes s ! j = ?t" using active_worker(4)[OF F'(5) take(2)] take(3) by simp
    have "workers_weight (set_worker j (Working v) s1) + 1 = workers_weight s + 2"
      using workers_weight_set[OF take(2), of "set_worker j (Working v) s1" "Working v"] e take(3)
      by (simp add: worker_weight_def)
    with e show ?thesis
      by (simp add: take(1) t recv_measure_def queue_len_def)
  next
    case (stop j s1)
    note e = work_take_effect[OF Q stop(4)] sys_fields[OF work_take_effect(3)[OF Q stop(4)]]
    have t: "pool_pushes s ! j = ?t" using active_worker(4)[OF F'(5) stop(2)] stop(3) by simp
    have "workers_weight (set_worker j Finished s1) + 1 = workers_weight s"
      using workers_weight_set[OF stop(2), of "set_worker j Finished s1" Finished] e stop(3)
      by (simp add: worker_weight_def)
    with e show ?thesis
      by (simp add: stop(1) t recv_measure_def queue_len_def)
  next
    case (take_crash j e)
    with take_step[OF Q F ok take_crash(2,3)] show ?thesis by auto
  next
    case (deliver j v s1)
    note e = work_message_effect[OF deliver(4)]
    note f = sys_fields[OF e(3)]
    have "workers_weight (set_worker j Looping s1) + 2 = workers_weight s + 1"
      using workers_weight_set[OF deliver(2), of "set_worker j Looping s1" Looping] e f deliver(3)
      by (simp add: worker_weight_def)
    with e f show ?thesis
      by (simp add: deliver(1) recv_measure_def queue_len_def)
  next
    case (deliver_crash j v e)
    with deliver_step[OF F ok deliver_crash(2,3)] show ?thesis by auto
  qed
qed

text \<open>
  Every run of the receiver ends, after a number of steps bounded by the completions: neither
  the handle thread nor the workers can go round for ever.
\<close>

lemma receiver_terminates:
  assumes "recv_start Q items E cx (f 0)" and "\<And>i. i < n \<Longrightarrow> recv_step Q E (f i) (f (Suc i))"
  shows "n \<le> 6 * length (cx_arr cx)"
proof -
  have "recv_inv Q items E cx (f i) \<and> recv_measure items (cx_t cx) (f i) + i \<le> recv_measure items (cx_t cx) (f 0)"
    if "i \<le> n" for i
    using that
  proof (induction i)
    case 0
    then show ?case using recv_start_inv[OF assms(1)] by simp
  next
    case (Suc i)
    then have inv: "recv_inv Q items E cx (f i)" and st: "recv_step Q E (f i) (f (Suc i))"
      using assms(2) by simp_all
    from recv_measure_decreases[OF inv st] recv_inv_step[OF inv st] Suc show ?case by simp
  qed
  from this[of n] have "n \<le> recv_measure items (cx_t cx) (f 0)" by simp
  also have "\<dots> = 6 * length (cx_arr cx)"
    using assms(1)
    by (auto simp: recv_start_def recv_measure_def handler_weight_def queue_len_def workers_weight_def
        worker_weight_def
        split: option.splits)
  finally show ?thesis .
qed
text \<open>Hence a state where everything is delivered can always be reached.\<close>

lemma receiver_can_finish:
  assumes "recv_inv Q items E cx s"
  shows "\<exists>s'. (recv_step Q E)\<^sup>*\<^sup>* s s' \<and> (\<forall>s''. \<not> recv_step Q E s' s'')"
  using assms
proof (induction "recv_measure items (cx_t cx) s" arbitrary: s rule: less_induct)
  case less
  show ?case
  proof (cases "\<exists>s'. recv_step Q E s s'")
    case True
    then obtain s' where st: "recv_step Q E s s'" by blast
    from less.hyps[OF recv_measure_decreases[OF less.prems st] recv_inv_step[OF less.prems st]]
    obtain s'' where "(recv_step Q E)\<^sup>*\<^sup>* s' s''" "\<forall>u. \<not> recv_step Q E s'' u" by blast
    with st show ?thesis by (meson converse_rtranclp_into_rtranclp)
  next
    case False
    then show ?thesis by blast
  qed
qed

section \<open>The bytes that Java gets\<close>

text \<open>\<open>SetByteArrayRegion\<close>, and the array after all of a delivery's writes.\<close>

definition set_region :: "int \<times> int \<times> u8 list \<Rightarrow> u8 list \<Rightarrow> u8 list" where
  "set_region r a = (case r of (pos, n, bs) \<Rightarrow> take (nat pos) a @ bs @ drop (nat pos + length bs) a)"

definition array_of :: "delivery \<Rightarrow> u8 list" where
  "array_of d = fold set_region (dv_regions d) (replicate (nat (dv_alloc d)) 0)"

definition received_bytes ::
  "(caddr \<Rightarrow> rdma_chunk_header) \<Rightarrow> (caddr \<Rightarrow> chunk_body) \<Rightarrow> caddr list \<Rightarrow> u8 list" where
  "received_bytes H B cs = concat (map (\<lambda>c. map (B c) [0..<unat (chunk_len (H c))]) cs)"

lemma received_bytes_simps [simp]:
  "received_bytes H B [] = []"
  "received_bytes H B (c # cs) = map (B c) [0..<unat (chunk_len (H c))] @ received_bytes H B cs"
  by (simp_all add: received_bytes_def)

lemma sint_small: "unat (w :: u32) < 2 ^ 31 \<Longrightarrow> sint w = int (unat w)"
proof -
  assume w: "unat w < 2 ^ 31"
  have "nat (uint w) < 2147483648" using w by simp
  then have u: "uint w < 2147483648" by linarith
  have z: "0 \<le> uint w" by simp
  have "sint w = signed_take_bit 31 (uint w)" by (simp add: sint_uint)
  also have "\<dots> = uint w"
  proof (rule signed_take_bit_int_eq_self)
    show "- (2 ^ 31) \<le> uint w" by (rule order_trans[OF _ z]) simp
    show "uint w < 2 ^ 31" using u by simp
  qed
  finally show ?thesis by simp
qed

lemma unat_total_len:
  "length (received_bytes H B cs) < 2 ^ 32 \<Longrightarrow> unat (total_len H cs) = length (received_bytes H B cs)"
proof (induction cs)
  case Nil
  then show ?case by (simp add: total_len_def)
next
  case (Cons c cs)
  then show ?case by (simp add: total_len_def unat_plus_if')
qed

lemma fold_regions:
  assumes "unat pos + length (received_bytes H B cs) < 2 ^ 31"
    and "length pre = unat pos" and "length rest = length (received_bytes H B cs)"
  shows "fold set_region (regions_from H B pos cs) (pre @ rest @ tail)
    = pre @ received_bytes H B cs @ tail"
  using assms
proof (induction cs arbitrary: pos pre rest)
  case Nil
  then show ?case by simp
next
  case (Cons c cs)
  let ?n = "unat (chunk_len (H c))" and ?bs = "map (B c) [0..<unat (chunk_len (H c))]"
  have "sint pos = int (unat pos)" using Cons.prems(1) by (intro sint_small) simp
  then have w: "set_region (sint pos, sint (chunk_len (H c)), ?bs) (pre @ rest @ tail)
      = (pre @ ?bs) @ drop ?n rest @ tail"
    using Cons.prems by (simp add: set_region_def)
  have p: "unat (pos + chunk_len (H c)) = unat pos + ?n"
    using Cons.prems(1) by (simp add: unat_plus_if')
  have "fold set_region (regions_from H B (pos + chunk_len (H c)) cs) ((pre @ ?bs) @ drop ?n rest @ tail)
      = (pre @ ?bs) @ received_bytes H B cs @ tail"
    using Cons.prems p by (intro Cons.IH) auto
  then show ?case by (simp add: w)
qed

lemma array_of_message:
  assumes "length (received_bytes H B cs) < 2 ^ 31"
  shows "array_of (message_delivery H B ip (did, cs)) = received_bytes H B cs"
    and "dv_len (message_delivery H B ip (did, cs)) = int (length (received_bytes H B cs))"
proof -
  have u: "unat (total_len H cs) = length (received_bytes H B cs)"
    using assms by (intro unat_total_len) simp
  then have t: "sint (total_len H cs) = int (length (received_bytes H B cs))"
    using assms by (simp add: sint_small)
  show "dv_len (message_delivery H B ip (did, cs)) = int (length (received_bytes H B cs))"
    by (simp add: message_delivery_def t)
  show "array_of (message_delivery H B ip (did, cs)) = received_bytes H B cs"
    using fold_regions[of 0 H B cs "[]" "replicate (length (received_bytes H B cs)) 0" "[]"] assms
    by (simp add: array_of_def message_delivery_def t)
qed
end
