(* ===== verification/Wire_Messages.thy ===== *)
theory Wire_Messages
  imports Receive_Delivery Client_Message
begin

text \<open>
  The messages of a sender as they reach a receiver: what the chunks of a connection hold when every
  frame of every message has arrived, and that this is what the receiver needs. At the end a
  receiver to evaluate the properties of \<open>Receive_Delivery\<close> on.
\<close>

section \<open>Messages on the wire\<close>

text \<open>
  \<open>cs\<close> are the chunks that received the frames of a message, in the order of the frames: each holds
  what the adapter stored in it, over whatever it held before.
\<close>

definition carries ::
  "(caddr \<Rightarrow> rdma_chunk_header) \<Rightarrow> (caddr \<Rightarrow> chunk_body)
    \<Rightarrow> (caddr \<Rightarrow> rdma_chunk_header \<times> chunk_body) \<Rightarrow> u32 \<Rightarrow> u8 list \<Rightarrow> caddr list \<Rightarrow> bool" where
  "carries H B old did p cs \<longleftrightarrow> length cs = frame_count (length p) \<and>
     list_all (\<lambda>i. (H (cs ! i), B (cs ! i)) = store_bytes (frame_wire did p i) (old (cs ! i)))
       [0..<length cs]"

text \<open>
  The completions of a connection over which the messages \<open>msgs\<close> were sent: every message has an id
  of its own, is not empty and shorter than 2 GiB, and its frames arrive in order, mixed in any way
  with those of the other messages and with completions of sends; each completion reports the
  length of what was received.
\<close>

definition messages_arrive ::
  "(caddr \<Rightarrow> rdma_chunk_header) \<Rightarrow> (caddr \<Rightarrow> chunk_body)
    \<Rightarrow> (caddr \<Rightarrow> rdma_chunk_header \<times> chunk_body) \<Rightarrow> (u32 \<times> u8 list) list \<Rightarrow> arrival list \<Rightarrow> bool" where
  "messages_arrive H B old msgs arr \<longleftrightarrow>
     distinct (map fst msgs) \<and> list_all (\<lambda>(did, p). p \<noteq> [] \<and> length p < 2 ^ 31) msgs \<and>
     distinct (map (wc_wr_id \<circ> fst) arr) \<and> distinct (map snd arr) \<and>
     list_all (\<lambda>(wc, c). status wc = IBV_WC_SUCCESS \<and>
       (opcode wc = IBV_WC_SEND \<or>
        opcode wc = IBV_WC_RECV \<and> byte_len wc = chunk_len (H c) + RDMA_HEADER_SIZE)) arr \<and>
     list_all (\<lambda>(did, p). carries H B old did p (of_id did (frames H arr))) msgs \<and>
     list_all (\<lambda>f. fst f \<in> fst ` set msgs) (frames H arr)"

lemma carries_chunk:
  assumes "carries H B old did p cs" "i < length cs"
  shows "H (cs ! i) = frame_header did p i"
    "map (B (cs ! i)) [0..<unat (chunk_len (H (cs ! i)))] = frame_bytes p i"
proof -
  have e: "(H (cs ! i), B (cs ! i)) = store_bytes (frame_wire did p i) (old (cs ! i))"
    using assms by (simp add: carries_def list_all_iff)
  then show h: "H (cs ! i) = frame_header did p i" by (simp add: store_frame_wire)
  show "map (B (cs ! i)) [0..<unat (chunk_len (H (cs ! i)))] = frame_bytes p i"
    unfolding h using e
    by (intro nth_equalityI) (simp_all add: frame_header_def unat_frame_len store_frame_wire)
qed

lemma carries_bytes:
  assumes "carries H B old did p cs"
  shows "received_bytes H B cs = p"
proof -
  have n: "length cs = frame_count (length p)" using assms by (simp add: carries_def)
  have "map (\<lambda>c. map (B c) [0..<unat (chunk_len (H c))]) cs = map (frame_bytes p) [0..<length cs]"
    using carries_chunk(2)[OF assms] by (intro nth_equalityI) (simp_all del: map_eq_conv)
  then show ?thesis by (simp add: received_bytes_def n frames_complete)
qed

lemma messages_arrive_ok:
  assumes "messages_arrive H B old msgs arr"
  shows "arrivals_ok H arr"
proof -
  have "arrival_ok H (frames H arr) (wc, c)" if a: "(wc, c) \<in> set arr" for wc c
  proof (cases "opcode wc = IBV_WC_RECV")
    case False
    with assms a show ?thesis by (auto simp: messages_arrive_def list_all_iff arrival_ok_def)
  next
    case True
    obtain did where did: "data_id (H c) = did" by blast
    let ?fs = "frames H arr"
    let ?cs = "of_id did ?fs"
    have f: "(did, c) \<in> set ?fs" using a True did by (force simp: frames_def)
    then obtain p where p: "(did, p) \<in> set msgs"
      using assms by (auto simp: messages_arrive_def list_all_iff)
    then have car: "carries H B old did p ?cs" and lp: "length p < 2 ^ 31"
      using assms by (auto simp: messages_arrive_def list_all_iff)
    have "c \<in> set ?cs" using f by (force simp: of_id_def)
    then obtain i where i: "i < length ?cs" "c = ?cs ! i" by (metis in_set_conv_nth)
    have h: "H c = frame_header did p i" using carries_chunk(1)[OF car i(1)] i(2) by simp
    have n: "length ?cs = frame_count (length p)" using car by (simp add: carries_def)
    have "frame_count (length p) < 2 ^ 32"
      using frame_count_small[of "of_nat (length p)"] lp by (simp add: unat_of_nat)
    then have "unat (chunk_num (H c)) = length ?cs"
      unfolding h n by (simp add: frame_header_def unat_of_nat)
    moreover have "unat (chunk_len (H c)) \<le> body_size"
      unfolding h by (simp add: frame_header_def unat_frame_len) (simp add: length_frame_bytes)
    moreover have "unat (total_len H ?cs) = length p"
      using unat_total_len[of H B ?cs] carries_bytes[OF car] lp by simp
    then have "data_len (H c) = total_len H ?cs"
      unfolding h by (simp add: frame_header_def) (metis of_nat_unat ucast_id)
    moreover have "byte_len wc = chunk_len (H c) + RDMA_HEADER_SIZE" "status wc = IBV_WC_SUCCESS"
      using assms a True by (auto simp: messages_arrive_def list_all_iff)
    ultimately show ?thesis using True did by (simp add: arrival_ok_def)
  qed
  with assms show ?thesis by (auto simp: messages_arrive_def arrivals_ok_def list_all_iff)
qed

text \<open>The ids in the order of their first frames.\<close>

definition arrival_order :: "(u32 \<times> caddr) list \<Rightarrow> u32 list" where
  "arrival_order fs = map fst (groups_of fs)"

section \<open>A receiver to evaluate on\<close>

text \<open>Two messages of one frame each; the frame of the second one arrives first.\<close>

definition demo_msgs :: "(u32 \<times> u8 list) list" where
  "demo_msgs = [(42, [1, 2, 3]), (43, [4])]"

definition demo_stored :: "caddr \<Rightarrow> rdma_chunk_header \<times> chunk_body" where
  "demo_stored c =
     (if c = (1, 0) then store_bytes (frame_wire 43 [4] 0) (demo_header, \<lambda>_. 0)
      else if c = (1, 1) then store_bytes (frame_wire 42 [1, 2, 3] 0) (demo_header, \<lambda>_. 0)
      else (demo_header, \<lambda>_. 0))"

definition demo_wc :: "nat \<Rightarrow> nat \<Rightarrow> ibv_wc" where
  "demo_wc w n = \<lparr>wc_wr_id = w, status = IBV_WC_SUCCESS, opcode = IBV_WC_RECV,
     byte_len = of_nat n + RDMA_HEADER_SIZE\<rparr>"

definition demo_arr :: "arrival list" where
  "demo_arr = [(demo_wc 7 1, (1, 0)), (demo_wc 8 3, (1, 1))]"

definition demo_cx :: recv_ctx where
  "demo_cx = \<lparr>cx_t = 0, cx_arr = demo_arr, cx_H = fst \<circ> demo_stored, cx_B = snd \<circ> demo_stored,
     cx_ip = ''10.0.0.2'', cx_before = [], cx_others = {}, cx_out = {}\<rparr>"

definition demo_recv0 :: "nat list recv_sys" where
  "demo_recv0 = \<lparr>link_head = None, free_list = None, total_size = 0, free_size = 0, pool_pd = 0,
     next_of = \<lambda>_. None, mr_of = \<lambda>_. \<lparr>mr_id = 0, lkey = 0\<rparr>, header_of = fst \<circ> demo_stored,
     body_of = snd \<circ> demo_stored, buffers = Map.empty, links = Map.empty, fresh = 0, registered = [],
     work_chunks = [7 \<mapsto> \<lparr>wc_transport = 0, wc_chunk = Some (1, 0), wc_len = RDMA_CHUNK_SIZE\<rparr>,
                    8 \<mapsto> \<lparr>wc_transport = 0, wc_chunk = Some (1, 1), wc_len = RDMA_CHUNK_SIZE\<rparr>],
     varrays = Map.empty, transports = [0 \<mapsto> demo_transport],
     recv_calls = [], send_calls = [], pool_pushes = [], deliveries = [],
     todo = map fst demo_arr, hpc = Waiting, workers = \<lambda>_. Looping\<rparr>"

definition demo_recv :: "nat list recv_sys" where
  "demo_recv = popped (1, 1) (popped (1, 0) (grown \<lparr>mr_id = 1, lkey = 7\<rparr> 4096 demo_recv0))"

definition demo_free :: "nat \<Rightarrow> caddr list" where
  "demo_free n = map (Pair 1) [2..<n]"

lemma two_block_addrs: "1 < n \<Longrightarrow> block_addrs 1 n = (1, 0) # (1, 1) # demo_free n"
  by (simp add: block_addrs_def demo_free_def upt_conv_Cons numeral_2_eq_2)

lemma demo_free_not [simp]: "(1, 0) \<notin> set (demo_free n)" "(1, 1) \<notin> set (demo_free n)"
  by (auto simp: demo_free_def)

lemmas demo_free_not_Suc [simp] = demo_free_not[unfolded One_nat_def]

lemma demo_recv_wf: "pool_wf (block_addrs 1 4096) (demo_free 4096) demo_recv"
proof -
  have "pool_inv (grown \<lparr>mr_id = 1, lkey = 7\<rparr> 4096 demo_recv0) [(0, 1, 4096)] (block_addrs 1 4096)"
    using pool_inv_grown[OF pool_inv_empty[of demo_recv0], of 4096 "\<lparr>mr_id = 1, lkey = 7\<rparr>"]
    by (simp add: demo_recv0_def)
  then have "pool_inv (grown \<lparr>mr_id = 1, lkey = 7\<rparr> 4096 demo_recv0) [(0, 1, 4096)]
      ((1, 0) # (1, 1) # demo_free 4096)"
    by (subst (asm) two_block_addrs) simp_all
  from pop_chunk_Cons(2)[OF pop_chunk_Cons(2)[OF this]] show ?thesis
    by (auto simp: pool_wf_def demo_recv_def intro!: exI[of _ "[(0, 1, 4096)]"])
qed

lemma demo_recv_fields [simp]:
  "todo demo_recv = map fst demo_arr" "hpc demo_recv = Waiting" "workers demo_recv j = Looping"
  "pool_pushes demo_recv = []" "transports demo_recv = [0 \<mapsto> demo_transport]"
  "varrays demo_recv = Map.empty" "deliveries demo_recv = []"
  "header_of demo_recv = fst \<circ> demo_stored" "body_of demo_recv = snd \<circ> demo_stored"
  "work_chunks demo_recv = work_chunks demo_recv0"
  by (simp_all add: demo_recv_def popped_def grown_def Let_def) (simp_all add: demo_recv0_def)

lemma demo_counts_frames [simp]: "frame_count (Suc 0) = 1" "frame_count (Suc (Suc (Suc 0))) = 1"
  by (simp_all add: frame_count_def body_size_def)

lemma demo_stored_headers [simp]:
  "fst (demo_stored (Suc 0, 0)) = frame_header 43 [4] 0"
  "fst (demo_stored (Suc 0, Suc 0)) = frame_header 42 [1, 2, 3] 0"
  by (simp_all add: demo_stored_def store_frame_wire)

lemma demo_frames: "frames (fst \<circ> demo_stored) demo_arr = [(43, (1, 0)), (42, (1, 1))]"
  by (simp add: frames_def demo_arr_def demo_wc_def frame_header_def)

lemma demo_messages_arrive:
  "messages_arrive (cx_H demo_cx) (cx_B demo_cx) (\<lambda>_. (demo_header, \<lambda>_. 0)) demo_msgs (cx_arr demo_cx)"
  unfolding messages_arrive_def demo_cx_def recv_ctx.simps demo_frames demo_msgs_def
  by (simp add: carries_def)
    (simp add: demo_stored_def store_frame_wire demo_arr_def demo_wc_def frame_header_def frame_bytes_def
      body_size_def)

lemma demo_recv_start: "recv_start list_gqueue (\<lambda>q. q) demo_env demo_cx demo_recv"
  unfolding recv_start_def
proof (intro conjI)
  show "gqueue list_gqueue (\<lambda>q. q)" by (rule list_queue.gqueue_axioms)
  show "calls_succeed demo_env" by (rule demo_calls)
  show "arrivals_ok (cx_H demo_cx) (cx_arr demo_cx)" by (rule messages_arrive_ok[OF demo_messages_arrive])
  show "\<exists>all free. pool_wf all free demo_recv \<and> snd ` set (cx_arr demo_cx) \<subseteq> set all - set free \<and>
      cx_out demo_cx = set all - set free - snd ` set (cx_arr demo_cx)"
    by (rule exI[of _ "block_addrs 1 4096"], rule exI[of _ "demo_free 4096"])
      (use demo_recv_wf two_block_addrs[of 4096] in \<open>auto simp: demo_cx_def demo_arr_def\<close>)
  show "list_all (\<lambda>(wc, c). map_option (\<lambda>w. (wc_transport w, wc_chunk w)) (work_chunks demo_recv (wc_wr_id wc))
        = Some (cx_t demo_cx, Some c)) (cx_arr demo_cx)"
    by (simp add: demo_cx_def demo_arr_def demo_wc_def) (simp add: demo_recv0_def)
qed (simp_all add: demo_cx_def)
lemma demo_before [simp]: "cx_before demo_cx = []"
  by (simp add: demo_cx_def)

lemma demo_recv_reach: "recv_reach list_gqueue (\<lambda>q. q) demo_env demo_cx demo_recv"
  by (rule reach_init[where init = "recv_start list_gqueue (\<lambda>q. q) demo_env demo_cx"]) (rule demo_recv_start)

lemma demo_recv_end:
  "\<exists>s. recv_reach list_gqueue (\<lambda>q. q) demo_env demo_cx s \<and> (\<forall>s'. \<not> recv_step list_gqueue demo_env s s')"
  using receiver_can_finish[OF recv_start_inv[OF demo_recv_start]] reach_steps[OF _ demo_recv_reach] by blast

lemma demo_order: "arrival_order (cx_frames demo_cx) = [43, 42]"
  unfolding demo_cx_def recv_ctx.simps demo_frames by (simp add: arrival_order_def groups_of_def)


theorem one_worker_at_a_time_witness:
  "card {j. j < length (pool_pushes demo_recv) \<and> workers demo_recv j \<noteq> Finished} = 0"
  using one_worker_at_a_time[OF demo_recv_reach] by (simp add: demo_cx_def)

lemma deliveries_in_order_example:
  "\<exists>s n. recv_reach list_gqueue (\<lambda>q. q) demo_env demo_cx s \<and> deliveries s = take n (cx_messages demo_cx)"
  using deliveries_in_order[OF demo_recv_reach] demo_recv_reach by (auto simp: demo_cx_def)

theorem quiescent_receiver_has_delivered_witness:
  "\<exists>s. recv_reach list_gqueue (\<lambda>q. q) demo_env demo_cx s \<and> deliveries s = cx_messages demo_cx"
proof -
  obtain s where s: "recv_reach list_gqueue (\<lambda>q. q) demo_env demo_cx s"
      "\<And>s'. \<not> recv_step list_gqueue demo_env s s'"
    using demo_recv_end by blast
  from quiescent_receiver_has_delivered[OF s] show ?thesis
    using s(1) by (intro exI[of _ s]) (auto simp: demo_cx_def)
qed

lemma receiver_terminates_example:
  "\<exists>s. recv_step list_gqueue demo_env demo_recv s \<and> 1 \<le> 6 * length demo_arr"
proof -
  have "\<not> (\<forall>s'. \<not> recv_step list_gqueue demo_env demo_recv s')"
  proof
    assume "\<forall>s'. \<not> recv_step list_gqueue demo_env demo_recv s'"
    then have "deliveries demo_recv = cx_before demo_cx @ cx_messages demo_cx"
      using quiescent_delivers[OF demo_recv_reach] by blast
    moreover have "groups_of (cx_frames demo_cx) = [(43, [(1, 0)]), (42, [(1, 1)])]"
      unfolding demo_cx_def recv_ctx.simps demo_frames by (simp add: groups_of_def)
    ultimately show False by simp
  qed
  then obtain s where s: "recv_step list_gqueue demo_env demo_recv s" by blast
  then have "1 \<le> 6 * length (cx_arr demo_cx)"
    using receiver_terminates[of list_gqueue "\<lambda>q. q" demo_env demo_cx "\<lambda>i. if i = 0 then demo_recv else s" 1]
      demo_recv_start by simp
  with s show ?thesis by (auto simp: demo_cx_def)
qed

end
