(* ===== verification/Receive_Types.thy ===== *)
theory Receive_Types
  imports Wire_Messages
begin

text \<open>
  The objects of the receiver as typed pointers: what a queue entry, a work chunk and a variable of
  a thread point to, in every state that the threads can reach. A state that is well typed is at
  rest or can go on to a state that is well typed.
\<close>

section \<open>The types\<close>

text \<open>A completion of connection \<open>t\<close>: its \<open>wr_id\<close> is a work chunk of \<open>t\<close> that leads to a live chunk.\<close>

definition completion_typed :: "nat \<Rightarrow> 'q recv_sys \<Rightarrow> ibv_wc \<Rightarrow> bool" where
  "completion_typed t s wc \<longleftrightarrow> status wc = IBV_WC_SUCCESS \<and> opcode wc \<in> {IBV_WC_SEND, IBV_WC_RECV} \<and>
     (case work_chunks s (wc_wr_id wc) of None \<Rightarrow> False
      | Some w \<Rightarrow> wc_transport w = t \<and> (case wc_chunk w of None \<Rightarrow> False | Some c \<Rightarrow> chunk_live s c))"

text \<open>
  An array for the chunks of a message: as many slots as \<open>size\<close> says; the first \<open>len\<close> hold
  different live chunks of the message, the others are NULL.
\<close>

definition slot_typed :: "'q recv_sys \<Rightarrow> varray_t \<Rightarrow> caddr option \<Rightarrow> bool" where
  "slot_typed s va p \<longleftrightarrow> (case p of None \<Rightarrow> False
     | Some c \<Rightarrow> chunk_live s c \<and> data_id (header_of s c) = va_data_id va \<and> unat (chunk_len (header_of s c)) \<le> body_size)"

definition array_typed :: "'q recv_sys \<Rightarrow> varray_t \<Rightarrow> bool" where
  "array_typed s va \<longleftrightarrow> length (va_data va) = unat (va_size va) \<and> 0 < va_len va \<and> va_len va \<le> va_size va \<and>
     list_all (slot_typed s va) (take (unat (va_len va)) (va_data va)) \<and>
     list_all (\<lambda>p. p = None) (drop (unat (va_len va)) (va_data va)) \<and>
     distinct (take (unat (va_len va)) (va_data va))"

text \<open>A pointer to such an array.\<close>

definition pointer_typed :: "'q recv_sys \<Rightarrow> nat \<Rightarrow> bool" where
  "pointer_typed s v \<longleftrightarrow> (case varrays s v of None \<Rightarrow> False | Some va \<Rightarrow> array_typed s va)"

text \<open>The variables of the handle thread and of a worker; \<open>vs\<close> are the entries of the queue.\<close>

definition handler_typed :: "nat \<Rightarrow> nat list \<Rightarrow> 'q recv_sys \<Rightarrow> bool" where
  "handler_typed t vs s \<longleftrightarrow> (case hpc s of Waiting \<Rightarrow> True
     | Looked wc found \<Rightarrow> completion_typed t s wc \<and> (case found of None \<Rightarrow> True | Some v \<Rightarrow> v \<in> set vs)
     | Stored wc \<Rightarrow> completion_typed t s wc
     | Handler_crashed e \<Rightarrow> False)"

definition worker_typed :: "nat list \<Rightarrow> 'q recv_sys \<Rightarrow> worker_pc \<Rightarrow> bool" where
  "worker_typed vs s p \<longleftrightarrow> (case p of Working v \<Rightarrow> pointer_typed s v \<and> v \<notin> set vs
     | Worker_crashed e \<Rightarrow> False | _ \<Rightarrow> True)"

text \<open>The whole state, for the connection \<open>t\<close>.\<close>

definition heap_typed :: "('q \<Rightarrow> nat list) \<Rightarrow> nat \<Rightarrow> 'q recv_sys \<Rightarrow> bool" where
  "heap_typed items t s \<longleftrightarrow> (case transports s t of None \<Rightarrow> False
     | Some tr \<Rightarrow> distinct (items (work_queue tr)) \<and> list_all (pointer_typed s) (items (work_queue tr)) \<and>
         list_all (completion_typed t s) (todo s) \<and> handler_typed t (items (work_queue tr)) s \<and>
         list_all (\<lambda>j. worker_typed (items (work_queue tr)) s (workers s j)) [0..<length (pool_pushes s)])"

section \<open>Reachable states are well typed\<close>

lemma pending_completion_typed:
  assumes F: "recv_facts items cx k D W G ws all free tr s" and ok: "arrivals_ok (cx_H cx) (cx_arr cx)"
    and i: "pending cx k s \<le> i" "i < length (cx_arr cx)"
  shows "completion_typed (cx_t cx) s (fst (cx_arr cx ! i))"
proof -
  note F = recv_factsD[OF F]
  obtain wc c where a: "cx_arr cx ! i = (wc, c)" by (rule prod.exhaust)
  then have m: "(wc, c) \<in> set (cx_arr cx)" using i(2) by (metis nth_mem)
  then have "c \<in> set all" using F(22) by force
  then have "chunk_live s c" by (rule pool_wf_live[OF F(19)])
  moreover have "status wc = IBV_WC_SUCCESS" "opcode wc \<in> {IBV_WC_SEND, IBV_WC_RECV}"
    using arrivals_okD[OF ok m] by (simp_all add: arrival_ok_def)
  ultimately show ?thesis using F(16)[OF i(2,1)] a by (auto simp: completion_typed_def)
qed

lemma held_array_typed:
  assumes F: "recv_facts items cx k D W G ws all free tr s" and ok: "arrivals_ok (cx_H cx) (cx_arr cx)"
    and g: "g \<in> set (W @ G)" and h: "holds cx (varrays s) v g"
  shows "pointer_typed s v"
proof -
  note F = recv_factsD[OF F]
  obtain did cs where gd: "g = (did, cs)" by fastforce
  then have mem: "(did, cs) \<in> set (groups_of (frames (cx_H cx) (take k (cx_arr cx))))" using g F(6) by auto
  note gf = group_facts[OF ok mem]
  obtain va where va: "varrays s v = Some va" "va_data_id va = did" "unat (va_len va) = length cs"
      "unat (va_size va) = length (of_id did (cx_frames cx))"
      "va_data va = map Some cs @ replicate (length (of_id did (cx_frames cx)) - length cs) None"
    using h gd by (auto simp: holds_def split: option.splits)
  have le: "length cs \<le> length (of_id did (cx_frames cx))" by (simp add: gf(3))
  have cs: "set cs \<subseteq> group_chunks (W @ G)" using g gd by (force simp: group_chunks_def)
  then have "set cs \<subseteq> set all" using F(23) by blast
  then have live: "chunk_live s c" if "c \<in> set cs" for c using that pool_wf_live[OF F(19)] by blast
  have "header_of s c = cx_H cx c" if "c \<in> set cs" for c
    using F(17)[of c] that cs by (auto simp: owned_def)
  then have "list_all (slot_typed s va) (map Some cs)"
    using live gf(4,5) va(2) by (simp add: list_all_iff slot_typed_def)
  then show ?thesis
    using va le gf(1,2)
    by (auto simp: pointer_typed_def array_typed_def distinct_map word_le_nat_alt word_less_nat_alt list_all_iff)
qed

lemma list_all2_member: "list_all2 P xs ys \<Longrightarrow> x \<in> set xs \<Longrightarrow> \<exists>y \<in> set ys. P x y"
  by (induction rule: list_all2_induct) auto

lemma recv_facts_typed:
  assumes F: "recv_facts items cx k D W G ws all free tr s" and ok: "arrivals_ok (cx_H cx) (cx_arr cx)"
  shows "heap_typed items (cx_t cx) s"
proof -
  note F' = recv_factsD[OF F]
  note C = pending_completion_typed[OF F ok]
  let ?vs = "items (work_queue tr)"
  have q: "pointer_typed s v" if "v \<in> set ?vs" for v
    using list_all2_member[OF F'(8) that] held_array_typed[OF F ok] by auto
  have w: "pointer_typed s v" if "v \<in> set ws" for v
    using list_all2_member[OF F'(9) that] held_array_typed[OF F ok] by auto
  have rest: "list_all (completion_typed (cx_t cx) s) (map fst (drop n (cx_arr cx)))" if "pending cx k s \<le> n" for n
  proof (unfold list_all_iff, rule ballI)
    fix wc assume "wc \<in> set (map fst (drop n (cx_arr cx)))"
    then obtain i where "i < length (cx_arr cx) - n" "wc = fst (cx_arr cx ! (n + i))"
      by (auto simp: in_set_conv_nth)
    then show "completion_typed (cx_t cx) s wc" using C[of "n + i"] that by simp
  qed
  have h: "list_all (completion_typed (cx_t cx) s) (todo s) \<and> handler_typed (cx_t cx) ?vs s"
  proof (cases "hpc s")
    case Waiting
    then show ?thesis using F'(4) rest[of k] by (simp add: handler_inv_def handler_typed_def pending_def)
  next
    case (Looked wc found)
    have "v \<in> set ?vs" if "found = Some v" for v
    proof -
      have "map_of (zip (map fst G) ?vs) (data_id (cx_H cx (snd (cx_arr cx ! k)))) = Some v"
        using F'(4) Looked that by (simp add: handler_inv_def)
      from set_zip_rightD[OF map_of_SomeD[OF this]] show ?thesis .
    qed
    then show ?thesis
      using F'(4) rest[of "Suc k"] C[of k] Looked
      by (auto simp: handler_inv_def handler_typed_def pending_def split: option.split)
  next
    case (Stored wc)
    then show ?thesis
      using F'(1,4) rest[of k] C[of "k - 1"] by (auto simp: handler_inv_def handler_typed_def pending_def)
  next
    case (Handler_crashed e)
    then show ?thesis using F'(4) by (simp add: handler_inv_def)
  qed
  have wk: "worker_typed ?vs s (workers s j)" if "j < length (pool_pushes s)" for j
    using active_worker(5)[OF F'(5) that] w F'(10) by (cases "workers s j") (auto simp: worker_typed_def)
  show ?thesis
    using F'(2,10) q h wk by (simp add: heap_typed_def list_all_iff)
qed

text \<open>
  C11: Type soundness of the receiver. In every reachable state the queue holds different pointers to
  arrays of chunks, no slot below \<open>len\<close> is NULL, dangling or of another message, every completion
  still to be handled leads to a work chunk of the connection and a live chunk, and the variables of
  the threads point to what their places in the code need; and such a state is at rest, or a thread
  can step, to a state of the same kind.
\<close>

theorem receiver_well_typed:
  assumes "recv_reach Q items E cx s"
  shows "heap_typed items (cx_t cx) s \<and> (receiver_done s \<or> (\<exists>s'. recv_step Q E s s' \<and> heap_typed items (cx_t cx) s'))"
proof -
  have typed: "heap_typed items (cx_t cx) r" if "recv_reach Q items E cx r" for r
    using recv_reach_facts[OF that] recv_facts_typed by metis
  then show ?thesis using assms stuck_receiver_done[OF assms] reach_step by metis
qed

theorem receiver_well_typed_witness:
  "heap_typed (\<lambda>q. q) 0 demo_recv \<and> (\<exists>s'. recv_step list_gqueue demo_env demo_recv s' \<and> heap_typed (\<lambda>q. q) 0 s')"
  using receiver_well_typed[OF demo_recv_reach] by (simp add: receiver_done_def demo_cx_def) (simp add: demo_arr_def)

end
