(* ===== verification/Server.thy ===== *)
theory Server
  imports Connection
begin

text \<open>
  Start and end of the process: \<open>rdma_context_init\<close> and \<open>rdma_context_destroy\<close> of
  \<open>src/rdma_utils.c\<close>, and \<open>init_server\<close>, \<open>init_server_socket\<close> and \<open>destroy_server\<close> of
  \<open>src/rdma_transport_server.c\<close>.
\<close>

section \<open>State\<close>

text \<open>
  \<open>struct rdma_context\<close> without the two hash tables, which are fields of the connections; the
  context lies at an address, since \<open>rdma_context_destroy\<close> frees it and leaves the global pointer.
  \<open>accepting\<close> is the argument of the running \<open>accept_thread\<close>; \<open>closed\<close> are the sockets closed.
\<close>

record rdma_context =
  ctx_context :: "nat option"
  ctx_pd :: "nat option"
  ctx_rbp :: "nat option"
  ctx_thread_pool :: "nat option"
  ctx_sfd :: int

record accept_thread_arg =
  arg_sfd :: int
  arg_ip_str :: string
  arg_port :: u16

record 'q server_rt = "'q conn_rt" +
  g_rdma_context :: "nat option"
  contexts :: "nat \<rightharpoonup> rdma_context"
  accepting :: "accept_thread_arg option"
  closed :: "int list"

text \<open>
  What the calls of the start return: the devices of \<open>ibv_get_device_list\<close> as the entries of
  the array it returns, up to its closing NULL; the verbs; the socket calls, of which \<open>bind\<close> gets
  the port; \<open>pthread_create\<close> and \<open>g_thread_pool_new\<close>; and the sizes of two structs.
\<close>

record boot =
  device_list :: "nat option list option"
  open_device :: "nat \<Rightarrow> nat option"
  alloc_pd :: "nat \<Rightarrow> nat option"
  socket_rc :: int
  setsockopt_rc :: int
  bind_rc :: "u16 \<Rightarrow> int"
  listen_rc :: int
  v_accept_thread :: "int \<times> nat option"
  new_thread_pool :: "nat option"
  sizeof_context :: nat
  sizeof_pool :: nat
  sizeof_accept_arg :: nat

definition context_at :: "('q, 'z) server_rt_scheme \<Rightarrow> (nat \<times> rdma_context) res" where
  "context_at s = bind_res (deref (g_rdma_context s)) (\<lambda>c.
     case contexts s c of None \<Rightarrow> Inl BadAddress | Some ctx \<Rightarrow> Inr (c, ctx))"

definition set_context :: "nat \<Rightarrow> rdma_context \<Rightarrow> ('q, 'z) server_rt_scheme \<Rightarrow> ('q, 'z) server_rt_scheme" where
  "set_context c ctx s = s\<lparr>contexts := (contexts s)(c \<mapsto> ctx)\<rparr>"

section \<open>The context\<close>

definition first_device :: "nat option list option \<Rightarrow> nat option res" where
  "first_device dev_list = (case dev_list of None \<Rightarrow> Inl Aborted
     | Some [] \<Rightarrow> Inl OutOfBounds | Some (d # _) \<Rightarrow> Inr d)"

definition rdma_context_init ::
  "env \<Rightarrow> boot \<Rightarrow> ('q, 'z) server_rt_scheme \<Rightarrow> (int \<times> ('q, 'z) server_rt_scheme) res" where
  "rdma_context_init E B s =
     (let (c, s1) = malloc (env_os E) (sizeof_context B) s in
      bind_res (GPR_ASSERT (c \<noteq> None)) (\<lambda>_. bind_res (deref c) (\<lambda>c.
      bind_res (first_device (device_list B)) (\<lambda>ib_dev.
      bind_res (GPR_ASSERT (ib_dev \<noteq> None)) (\<lambda>_. bind_res (deref ib_dev) (\<lambda>ib_dev.
      bind_res (GPR_ASSERT (open_device B ib_dev \<noteq> None)) (\<lambda>_. bind_res (deref (open_device B ib_dev)) (\<lambda>context.
      bind_res (GPR_ASSERT (alloc_pd B context \<noteq> None)) (\<lambda>_. bind_res (deref (alloc_pd B context)) (\<lambda>pd.
      let (rbp, s2) = malloc (env_os E) (sizeof_pool B) s1 in
      bind_res (GPR_ASSERT (rbp \<noteq> None)) (\<lambda>_.
      bind_res (init_rdma_buffer_pool (env_os E) pd s2) (\<lambda>(rc, s3).
      if rc < 0 then Inl Aborted
      else Inr (0, s3\<lparr>g_rdma_context := Some c, contexts := (contexts s3)(c \<mapsto>
          \<lparr>ctx_context = Some context, ctx_pd = Some pd, ctx_rbp = rbp, ctx_thread_pool = None,
           ctx_sfd = 0\<rparr>), hash_table := [], host2ipstr := []\<rparr>)))))))))))))"

text \<open>
  \<open>rdma_context_destroy\<close>: \<open>fuel\<close> bounds the walk over the nodes of the pool. The struct of the pool
  itself is not freed, the devices are; the tables free their keys and values.
\<close>

definition rdma_context_destroy ::
  "nat \<Rightarrow> ('q, 'z) server_rt_scheme \<Rightarrow> ('q, 'z) server_rt_scheme res option" where
  "rdma_context_destroy fuel s =
     (case context_at s of
        Inl e \<Rightarrow> Some (Inl e)
      | Inr (c, ctx) \<Rightarrow>
          map_option (\<lambda>r. bind_res r (\<lambda>s1.
            bind_res (GPR_ASSERT (ctx_pd ctx \<noteq> None)) (\<lambda>_.
            bind_res (GPR_ASSERT (ctx_context ctx \<noteq> None)) (\<lambda>_.
              Inr (s1\<lparr>hash_table := [], host2ipstr := [], contexts := (contexts s1)(c := None)\<rparr>)))))
            (destroy_rdma_buffer_pool fuel s))"

section \<open>Starting the server\<close>

definition init_server_socket ::
  "env \<Rightarrow> 'q net \<Rightarrow> boot \<Rightarrow> string \<Rightarrow> u16 \<Rightarrow> ('q, 'z) server_rt_scheme
    \<Rightarrow> (int \<times> ('q, 'z) server_rt_scheme) res" where
  "init_server_socket E V B host port s =
     (let port = (if port = 0 then IB_SERVER_PORT else port) in
      bind_res (set_ip_from_host V host None) (\<lambda>ip_str.
      if socket_rc B < 0 then Inr (- 1, s)
      else bind_res (context_at s) (\<lambda>(c, ctx).
      let s1 = set_context c (ctx\<lparr>ctx_sfd := socket_rc B\<rparr>) s in
      if setsockopt_rc B < 0 then Inr (- 1, s1)
      else if bind_rc B port < 0 then Inr (- 1, s1)
      else if listen_rc B < 0 then Inr (- 1, s1)
      else
        let (arg, s2) = malloc (env_os E) (sizeof_accept_arg B) s1 in
        bind_res (deref arg) (\<lambda>_. bind_res (read_str ip_str) (\<lambda>ip_str.
        bind_res (strcpy_buf IP_CHAR_SIZE ip_str) (\<lambda>ip_str.
        bind_res (create_thread (v_accept_thread B)) (\<lambda>_.
          Inr (0, s2\<lparr>accepting := Some \<lparr>arg_sfd = socket_rc B, arg_ip_str = ip_str, arg_port = port\<rparr>\<rparr>))))))))"

text \<open>\<open>init_server\<close> as its two halves: until the accept thread runs, and the pool of workers.\<close>

definition start_accepting ::
  "env \<Rightarrow> 'q net \<Rightarrow> boot \<Rightarrow> string \<Rightarrow> u16 \<Rightarrow> ('q, 'z) server_rt_scheme
    \<Rightarrow> ('q, 'z) server_rt_scheme res" where
  "start_accepting E V B host port s =
     bind_res (rdma_context_init E B s) (\<lambda>(_, s1).
     bind_res (init_server_socket E V B host port s1) (\<lambda>(rc, s2).
       if rc < 0 then Inl Aborted else Inr s2))"

definition init_server ::
  "env \<Rightarrow> 'q net \<Rightarrow> boot \<Rightarrow> string \<Rightarrow> u16 \<Rightarrow> ('q, 'z) server_rt_scheme
    \<Rightarrow> (int \<times> ('q, 'z) server_rt_scheme) res" where
  "init_server E V B host port s =
     bind_res (start_accepting E V B host port s) (\<lambda>s1.
     bind_res (context_at s1) (\<lambda>(c, ctx).
       Inr (0, set_context c (ctx\<lparr>ctx_thread_pool := new_thread_pool B\<rparr>) s1)))"

section \<open>Stopping the server\<close>

text \<open>
  \<open>g_hash_table_foreach\<close> with \<open>shutdown_connect\<close>: over the entries in the order of the list,
  where GLib promises none. \<open>g_thread_pool_free\<close> waits for the workers; here no worker runs.
\<close>

fun shutdown_all ::
  "'q net \<Rightarrow> (string \<times> nat) list \<Rightarrow> ('q, 'z) conn_rt_scheme \<Rightarrow> ('q, 'z) conn_rt_scheme res" where
  "shutdown_all V [] s = Inr s"
| "shutdown_all V ((key, t) # entries) s =
     bind_res (rdma_shutdown_connect V t s) (shutdown_all V entries)"

definition destroy_server ::
  "nat \<Rightarrow> 'q net \<Rightarrow> ('q, 'z) server_rt_scheme \<Rightarrow> ('q, 'z) server_rt_scheme res option" where
  "destroy_server fuel V s =
     (case context_at s of
        Inl e \<Rightarrow> Some (Inl e)
      | Inr (c, ctx) \<Rightarrow>
          (case shutdown_all V (hash_table s) (set_context c (ctx\<lparr>ctx_thread_pool := None\<rparr>) s) of
             Inl e \<Rightarrow> Some (Inl e)
           | Inr s1 \<Rightarrow> rdma_context_destroy fuel (s1\<lparr>closed := closed s1 @ [ctx_sfd ctx]\<rparr>)))"

end
