(* ===== verification/Server_Run.thy ===== *)
theory Server_Run
  imports Server Connection_Threads
begin

text \<open>
  Start and stop of the server when the calls outside the program succeed, and what stops them.
\<close>

text \<open>Every call of the start succeeds.\<close>

definition boot_succeeds :: "boot \<Rightarrow> 'q net \<Rightarrow> string \<Rightarrow> nat \<Rightarrow> string \<Rightarrow> bool" where
  "boot_succeeds B V host tp ip \<longleftrightarrow>
     (\<exists>d ds x pd. device_list B = Some (Some d # ds) \<and> open_device B d = Some x \<and> alloc_pd B x = Some pd) \<and>
     0 \<le> socket_rc B \<and> 0 \<le> setsockopt_rc B \<and> (\<forall>p. 0 \<le> bind_rc B p) \<and> 0 \<le> listen_rc B \<and>
     0 \<le> fst (v_accept_thread B) \<and> snd (v_accept_thread B) \<noteq> None \<and> new_thread_pool B = Some tp \<and>
     resolve V host = Some ip \<and> length ip < IP_CHAR_SIZE"

section \<open>One server\<close>

text \<open>
  A host whose calls succeed, the state of a new process, and a server with one connection, whose
  transport is at address 9 and whose context is at 8.
\<close>

definition demo_boot :: boot where
  "demo_boot = \<lparr>device_list = Some [Some 1], open_device = \<lambda>_. Some 2, alloc_pd = \<lambda>_. Some 3,
     socket_rc = 5, setsockopt_rc = 0, bind_rc = \<lambda>_. 0, listen_rc = 0, v_accept_thread = (0, Some 13),
     new_thread_pool = Some 6, sizeof_context = 48, sizeof_pool = 72, sizeof_accept_arg = 28\<rparr>"

definition demo_process :: "nat list server_rt" where
  "demo_process = \<lparr>link_head = None, free_list = None, total_size = 0, free_size = 0, pool_pd = 0,
     next_of = \<lambda>_. None, mr_of = \<lambda>_. \<lparr>mr_id = 0, lkey = 0\<rparr>, header_of = \<lambda>_. demo_header,
     body_of = \<lambda>_ _. 0, buffers = Map.empty, links = Map.empty, fresh = 20, registered = [],
     work_chunks = Map.empty, varrays = Map.empty, transports = [9 \<mapsto> demo_transport],
     recv_calls = [], send_calls = [], pool_pushes = [], deliveries = [],
     hash_table = [(''10.0.0.2'', 9)], host2ipstr = [], qp_calls = [], killed = [],
     g_rdma_context = Some 8, contexts = [8 \<mapsto> \<lparr>ctx_context = Some 2, ctx_pd = Some 3,
       ctx_rbp = Some 7, ctx_thread_pool = Some 6, ctx_sfd = 5\<rparr>], accepting = None, closed = []\<rparr>"

definition demo_server :: "nat list server_rt" where
  "demo_server = grown \<lparr>mr_id = 1, lkey = 7\<rparr> 4096 demo_process"

lemma demo_server_inv: "pool_inv demo_server [(20, 21, 4096)] (block_addrs 21 4096)"
  using pool_inv_grown[OF pool_inv_empty[of demo_process], of 4096 "\<lparr>mr_id = 1, lkey = 7\<rparr>"]
  by (simp add: demo_server_def demo_process_def)

lemma demo_server_fields [simp]:
  "hash_table demo_server = [(''10.0.0.2'', 9)]" "transports demo_server = [9 \<mapsto> demo_transport]"
  "closed demo_server = []" "buffers demo_server = [21 \<mapsto> 4096]"
  "context_at demo_server = Inr (8, \<lparr>ctx_context = Some 2, ctx_pd = Some 3, ctx_rbp = Some 7,
     ctx_thread_pool = Some 6, ctx_sfd = 5\<rparr>)"
  by (simp_all add: demo_server_def demo_process_def grown_def Let_def context_at_def)

lemma demo_boot_accept: "socket_rc demo_boot = 5"
  by (simp add: demo_boot_def)

lemma demo_boot_succeeds: "boot_succeeds demo_boot demo_net ''node1'' 6 ''10.0.0.2''"
  by (simp add: boot_succeeds_def demo_boot_def IP_CHAR_SIZE_def)

section \<open>Starting\<close>

lemma init_pool_succeeds:
  assumes "calls_succeed E"
  shows "\<exists>s'. init_rdma_buffer_pool (env_os E) pd s = Inr (0, s')"
  unfolding init_rdma_buffer_pool_def by (rule append_succeeds[OF assms]) simp_all

lemma init_pool_outcome:
  assumes "init_rdma_buffer_pool os pd s = Inr (0, s')"
  shows "pool_inv s' [(fresh s, Suc (fresh s), 4096)] (block_addrs (Suc (fresh s)) 4096)"
    "mem.more s' = mem.more s"
proof -
  let ?s0 = "s\<lparr>link_head := None, free_list := None, total_size := 0, free_size := 0, pool_pd := pd\<rparr>"
  have app: "append_rdma_buffer_pool os RDMA_BUFFER_SIZE ?s0 = Inr (0, s')"
    using assms by (simp add: init_rdma_buffer_pool_def)
  then show "mem.more s' = mem.more s" using append_frame[OF app] by simp
  have "pool_inv ?s0 [] []" by (simp add: pool_inv_empty)
  moreover have "unat (total_size ?s0) + round_up (unat RDMA_BUFFER_SIZE) < 2 ^ 32" by simp
  ultimately show "pool_inv s' [(fresh s, Suc (fresh s), 4096)] (block_addrs (Suc (fresh s)) 4096)"
    using app by (cases rule: append_cases[OF app]) auto
qed

lemma init_server_socket_succeeds:
  assumes "calls_succeed E" and "boot_succeeds B V host tp ip"
    and "g_rdma_context s = Some c" and "contexts s c = Some ctx"
  shows "init_server_socket E V B host port s =
    Inr (0, (set_context c (ctx\<lparr>ctx_sfd := socket_rc B\<rparr>) s)\<lparr>fresh := Suc (fresh s),
      accepting := Some \<lparr>arg_sfd = socket_rc B, arg_ip_str = ip,
        arg_port = (if port = 0 then IB_SERVER_PORT else port)\<rparr>\<rparr>)"
proof -
  have B: "\<not> socket_rc B < 0" "\<not> setsockopt_rc B < 0" "\<And>p. \<not> bind_rc B p < 0" "\<not> listen_rc B < 0"
      "resolve V host = Some ip" "length ip < IP_CHAR_SIZE"
    using assms(2) by (auto simp: boot_succeeds_def not_less)
  obtain pid where acc: "create_thread (v_accept_thread B) = Inr pid"
  proof -
    have "0 \<le> fst (v_accept_thread B)" "snd (v_accept_thread B) \<noteq> None"
      using assms(2) by (simp_all add: boot_succeeds_def)
    then obtain p where "\<not> fst (v_accept_thread B) < 0" "snd (v_accept_thread B) = Some p" by auto
    then show thesis using that[of p] by (simp add: create_thread_def split_beta)
  qed
  have m: "malloc (env_os E) n s' = (Some (fresh s'), s'\<lparr>fresh := Suc (fresh s')\<rparr>)"
    for n and s' :: "('a, 'z) server_rt_scheme"
    using assms(1) by (simp add: malloc_def)
  have ip: "set_ip_from_host V host None = Inr (Some ip)" using B(5,6) by (simp add: set_ip_from_host_def)
  have ctx: "context_at s = Inr (c, ctx)" using assms(3,4) by (simp add: context_at_def)
  show ?thesis
    by (simp only: init_server_socket_def Let_def ip ctx m bind_res_simps B(1-4) acc read_str_def
        strcpy_buf_def B(6) if_True if_False split_conv option.case deref_simps)
      (simp add: set_context_def)
qed

lemma init_server_ok:
  assumes "calls_succeed E" and "boot_succeeds B V host tp ip"
  shows "\<exists>s1 s' c ctx ns free.
    start_accepting E V B host port s = Inr s1 \<and> init_server E V B host port s = Inr (0, s') \<and>
    accepting s1 = Some \<lparr>arg_sfd = socket_rc B, arg_ip_str = ip,
      arg_port = (if port = 0 then IB_SERVER_PORT else port)\<rparr> \<and> accepting s' = accepting s1 \<and>
    context_at s1 = Inr (c, ctx) \<and> ctx_thread_pool ctx = None \<and>
    context_at s' = Inr (c, ctx\<lparr>ctx_thread_pool := Some tp\<rparr>) \<and>
    ctx_sfd ctx = socket_rc B \<and> hash_table s' = [] \<and>
    pool_inv s' ns free \<and> length free = 4096"
proof -
  obtain d ds x pd where B: "device_list B = Some (Some d # ds)" "open_device B d = Some x"
      "alloc_pd B x = Some pd" "new_thread_pool B = Some tp"
    using assms(2) by (auto simp: boot_succeeds_def)
  obtain s3 where s3: "init_rdma_buffer_pool (env_os E) pd (s\<lparr>fresh := Suc (Suc (fresh s))\<rparr>) = Inr (0, s3)"
    using init_pool_succeeds[OF assms(1)] by blast
  note pool = init_pool_outcome(1)[OF s3]
  let ?ctx0 = "\<lparr>ctx_context = Some x, ctx_pd = Some pd, ctx_rbp = Some (Suc (fresh s)), ctx_thread_pool = None, ctx_sfd = 0\<rparr>"
  let ?s4 = "s3\<lparr>g_rdma_context := Some (fresh s), contexts := (contexts s3)(fresh s \<mapsto> ?ctx0), hash_table := [], host2ipstr := []\<rparr>"
  have i: "rdma_context_init E B s = Inr (0, ?s4)"
    using assms(1) B(1-3) s3 by (simp add: rdma_context_init_def first_device_def)
  let ?port = "if port = 0 then IB_SERVER_PORT else port"
  let ?ctx = "?ctx0\<lparr>ctx_sfd := socket_rc B\<rparr>"
  let ?s5 = "(set_context (fresh s) ?ctx ?s4)\<lparr>fresh := Suc (fresh ?s4),
    accepting := Some \<lparr>arg_sfd = socket_rc B, arg_ip_str = ip, arg_port = ?port\<rparr>\<rparr>"
  have "init_server_socket E V B host port ?s4 = Inr (0, ?s5)"
    by (rule init_server_socket_succeeds[OF assms]) simp_all
  then have a: "start_accepting E V B host port s = Inr ?s5" by (simp add: start_accepting_def i)
  have c: "context_at ?s5 = Inr (fresh s, ?ctx)" by (simp add: context_at_def set_context_def)
  let ?s6 = "set_context (fresh s) (?ctx\<lparr>ctx_thread_pool := Some tp\<rparr>) ?s5"
  have i: "init_server E V B host port s = Inr (0, ?s6)"
    using B(4) by (simp only: init_server_def a bind_res_simps c split_conv)
  have c6: "context_at ?s6 = Inr (fresh s, ?ctx\<lparr>ctx_thread_pool := Some tp\<rparr>)"
    by (simp add: context_at_def set_context_def)
  have acc: "accepting ?s5 = Some \<lparr>arg_sfd = socket_rc B, arg_ip_str = ip, arg_port = ?port\<rparr>"
    "accepting ?s6 = accepting ?s5" "hash_table ?s6 = []"
    by (simp_all add: set_context_def)
  have ctx: "ctx_thread_pool ?ctx = None" "ctx_sfd ?ctx = socket_rc B" by simp_all
  have pool: "pool_inv ?s6 [(Suc (Suc (fresh s)), Suc (Suc (Suc (fresh s))), 4096)]
      (block_addrs (Suc (Suc (Suc (fresh s)))) 4096)"
    by (intro pool_inv_cong[OF pool[simplified]]) (simp_all add: set_context_def)
  have n: "length (block_addrs (Suc (Suc (Suc (fresh s)))) 4096) = 4096" by simp
  show ?thesis
    by (intro exI conjI) (rule a, rule i, rule acc(1), rule acc(2), rule c, rule ctx(1), rule c6,
        rule ctx(2), rule acc(3), rule pool, rule n)
qed

text \<open>
  C29: When the calls outside the program succeed, \<open>init_server\<close> returns 0 with a context whose
  pool has one block of 4096 free chunks, no connection, a thread that accepts on the given port, or
  on 6789 when it is 0, and a pool of workers. But the accept thread runs before there is a pool
  of workers: a message that arrives in between is pushed to a NULL pool.
\<close>

theorem init_server_spec:
  assumes "calls_succeed E" and "boot_succeeds B V host tp ip"
  shows "\<exists>s1 s' c ctx ns free.
    start_accepting E V B host port s = Inr s1 \<and> init_server E V B host port s = Inr (0, s') \<and>
    accepting s1 = Some \<lparr>arg_sfd = socket_rc B, arg_ip_str = ip,
      arg_port = (if port = 0 then IB_SERVER_PORT else port)\<rparr> \<and> accepting s' = accepting s1 \<and>
    context_at s1 = Inr (c, ctx) \<and> ctx_thread_pool ctx = None \<and>
    context_at s' = Inr (c, ctx\<lparr>ctx_thread_pool := Some tp\<rparr>) \<and>
    ctx_sfd ctx = socket_rc B \<and> hash_table s' = [] \<and>
    pool_inv s' ns free \<and> length free = 4096"
  by (rule init_server_ok[OF assms])

theorem init_server_spec_witness:
  "\<exists>s' ns free. init_server demo_env demo_net demo_boot ''node1'' 0 demo_process = Inr (0, s') \<and>
     accepting s' = Some \<lparr>arg_sfd = 5, arg_ip_str = ''10.0.0.2'', arg_port = 6789\<rparr> \<and>
     pool_inv s' ns free \<and> length free = 4096"
  using init_server_spec[OF demo_calls demo_boot_succeeds, where port = 0 and s = demo_process]
proof (elim exE conjE)
  fix s1 s' :: "nat list server_rt" and ns free
  assume "init_server demo_env demo_net demo_boot ''node1'' 0 demo_process = Inr (0, s')"
    "accepting s1 = Some \<lparr>arg_sfd = socket_rc demo_boot, arg_ip_str = ''10.0.0.2'',
      arg_port = (if (0::u16) = 0 then IB_SERVER_PORT else 0)\<rparr>" "accepting s' = accepting s1"
    "pool_inv s' ns free" "length free = 4096"
  then show ?thesis by (intro exI[of _ s'] exI[of _ ns] exI[of _ free]) (simp add: IB_SERVER_PORT_def demo_boot_accept)
qed

text \<open>\<open>init_server\<close> aborts or returns 0: the -1 that \<open>Java_io_rdma_RdmaServer_init\<close> tests for never comes.\<close>

lemma init_server_result: "init_server E V B host port s = Inr (rc, s') \<Longrightarrow> rc = 0"
  by (auto simp: init_server_def bind_res_Inr_iff)

section \<open>Stopping\<close>

definition connected :: "'q net \<Rightarrow> ('q, 'z) rt_scheme \<Rightarrow> nat \<Rightarrow> bool" where
  "connected V s t \<longleftrightarrow> (\<exists>tr qp. transports s t = Some tr \<and> rc_qp tr = Some qp \<and> tr_cq tr \<noteq> None \<and>
     comp_channel tr \<noteq> None \<and> 0 \<le> v_destroy_qp V qp)"

lemma shutdown_connected:
  assumes "connected V s t"
  shows "\<exists>ks. rdma_shutdown_connect V t s
    = Inr (s\<lparr>killed := killed s @ ks, transports := (transports s)(t := None)\<rparr>)"
  using assms by (auto simp: connected_def rdma_shutdown_connect_def transport_at_def Let_def)

lemma shutdown_all_connected:
  assumes "distinct (map snd entries)" and "list_all (\<lambda>(k, t). connected V s t) entries"
  shows "\<exists>ks. shutdown_all V entries s = Inr (s\<lparr>killed := killed s @ ks,
    transports := (\<lambda>t. if t \<in> snd ` set entries then None else transports s t)\<rparr>)"
  using assms
proof (induction entries arbitrary: s)
  case Nil
  then show ?case by (intro exI[of _ "[]"]) simp
next
  case (Cons e entries)
  obtain key t where e: "e = (key, t)" by (cases e)
  obtain ks where ks: "rdma_shutdown_connect V t s
      = Inr (s\<lparr>killed := killed s @ ks, transports := (transports s)(t := None)\<rparr>)"
    using shutdown_connected[of V s t] Cons.prems(2) e by auto
  let ?s1 = "s\<lparr>killed := killed s @ ks, transports := (transports s)(t := None)\<rparr>"
  have "list_all (\<lambda>(k, t). connected V ?s1 t) entries"
    using Cons.prems e by (auto simp: list_all_iff connected_def image_iff split: prod.splits)
  then obtain ks2 where "shutdown_all V entries ?s1 = Inr (?s1\<lparr>killed := killed ?s1 @ ks2,
      transports := (\<lambda>t. if t \<in> snd ` set entries then None else transports ?s1 t)\<rparr>)"
    using Cons.IH[of ?s1] Cons.prems(1) by auto
  moreover have "(\<lambda>t'. if t' \<in> snd ` set entries then None else transports ?s1 t')
      = (\<lambda>t'. if t' \<in> snd ` set (e # entries) then None else transports s t')"
    by (auto simp: fun_eq_iff e)
  ultimately show ?case
    using ks by (intro exI[of _ "ks @ ks2"]) (simp add: e)
qed

text \<open>
  C33: \<open>destroy_server\<close> with every connection of the table set up ends without a fault, after one
  turn per node of the pool: every transport of the table is freed, every block of the pool, the
  context, and the tables are empty.
\<close>

theorem destroy_server_frees:
  assumes "context_at s = Inr (c, ctx)" "ctx_pd ctx \<noteq> None" "ctx_context ctx \<noteq> None"
    and "pool_inv s ns xs" and "length ns \<le> fuel"
    and "distinct (map snd (hash_table s))" and "list_all (\<lambda>(ip, t). connected V s t) (hash_table s)"
  shows "\<exists>s'. destroy_server fuel V s = Some (Inr s') \<and>
    (\<forall>t. transports s' t = (if t \<in> snd ` set (hash_table s) then None else transports s t)) \<and>
    (\<forall>b. buffers s' b = (if b \<in> (fst \<circ> snd) ` set ns then None else buffers s b)) \<and>
    hash_table s' = [] \<and> contexts s' c = None \<and> closed s' = closed s @ [ctx_sfd ctx]"
proof -
  let ?ctx = "ctx\<lparr>ctx_thread_pool := None\<rparr>"
  let ?s1 = "set_context c ?ctx s"
  have "list_all (\<lambda>(k, t). connected V ?s1 t) (hash_table s)"
    using assms(7) by (simp add: connected_def set_context_def)
  from shutdown_all_connected[OF assms(6) this] obtain ks where
    sh: "shutdown_all V (hash_table s) ?s1 = Inr (?s1\<lparr>killed := killed ?s1 @ ks,
      transports := (\<lambda>t. if t \<in> snd ` set (hash_table s) then None else transports ?s1 t)\<rparr>)" by blast
  let ?s2 = "?s1\<lparr>killed := killed ?s1 @ ks,
      transports := (\<lambda>t. if t \<in> snd ` set (hash_table s) then None else transports ?s1 t)\<rparr>"
  let ?s3 = "?s2\<lparr>closed := closed ?s2 @ [ctx_sfd ctx]\<rparr>"
  have inv: "pool_inv ?s3 ns xs" by (rule pool_inv_cong[OF assms(4)]) (simp_all add: set_context_def)
  have g: "g_rdma_context s = Some c" using assms(1) by (cases "g_rdma_context s") (auto simp: context_at_def split: option.splits)
  have c: "context_at ?s3 = Inr (c, ?ctx)" by (simp add: context_at_def set_context_def g)
  obtain s4 where s4: "destroy_links fuel (link_head ?s3) ?s3 = Some (Inr s4)" and
    b: "\<forall>b. buffers s4 b = (if b \<in> (fst \<circ> snd) ` set ns then None else buffers s b)" and
    m: "mem.more s4 = mem.more ?s3"
    using destroy_links_frees[of ?s3 "link_head ?s3" ns fuel] pool_invD(1,2)[OF inv] assms(5)
      chain_distinct[OF node_chain_nodes[OF pool_invD(1)[OF inv]]]
    by (auto simp: set_context_def)
  have f: "transports s4 = transports ?s3" "rt.more s4 = rt.more ?s3"
    using rt_fields_cong(3)[OF m] m by (cases s4; cases ?s3; simp)+
  then have "closed s4 = closed ?s3" "contexts s4 = contexts ?s3"
    by (cases s4; cases ?s3; simp)+
  with c s4 b f assms(2,3) show ?thesis
    by (simp add: destroy_server_def assms(1) sh rdma_context_destroy_def destroy_rdma_buffer_pool_def)
      (simp add: set_context_def)
qed

theorem destroy_server_frees_witness:
  "\<exists>s'. destroy_server 1 demo_net demo_server = Some (Inr s') \<and> transports s' 9 = None \<and>
     buffers s' = Map.empty \<and> hash_table s' = [] \<and> closed s' = [5]"
proof -
  have "list_all (\<lambda>(ip, t). connected demo_net demo_server t) (hash_table demo_server)"
    by (simp add: connected_def demo_transport_def) (simp add: demo_net_def)
  with destroy_server_frees[OF demo_server_fields(5) _ _ demo_server_inv, of 1 demo_net]
  show ?thesis by (auto simp: fun_eq_iff)
qed

text \<open>
  \<open>destroy_server\<close> aborts the process when an entry has no queue pair yet: a sender or an accepted
  connection that is between the insertion of its entry and \<open>rdma_create_connect\<close>.
\<close>

lemma destroy_server_aborts:
  assumes "context_at s = Inr (c, ctx)" and "hash_table s = (ip, t) # entries"
    and "transports s t = Some tr" and "rc_qp tr = None"
  shows "destroy_server fuel V s = Some (Inl Aborted)"
  using assms by (simp add: destroy_server_def rdma_shutdown_connect_def transport_at_def set_context_def Let_def)

end
