(* ===== verification/Poll.thy ===== *)
theory Poll
  imports Receive
begin

text \<open>
  \<open>poll_thread\<close> and \<open>handle_thread\<close> of \<open>src/rdma_transport.c\<close>: how completions are taken off the
  completion queue, how the receives they used up are replaced, and how they are handed from the
  poll thread to the handle thread. The functions are cut at their locked sections;
  \<open>Poll_Threads\<close> interleaves them. The handlers of the single completions are in \<open>Receive\<close>.
\<close>

section \<open>Data\<close>

text \<open>
  \<open>dynarray_t\<close>, used for the completions of one poll: \<open>dy_data\<close> are the entries that were written.
  \<open>dy_user_id\<close> is the address of the transport.
\<close>

record dynarray_t =
  dy_len :: int
  dy_size :: u32
  dy_user_id :: nat
  dy_data :: "ibv_wc list"

definition sizeof_dynarray_t :: nat where
  "sizeof_dynarray_t = 4 + 4 + 8"

record 'q poll_rt = "'q rt" +
  dynarrays :: "nat \<rightharpoonup> dynarray_t"

text \<open>\<open>DYNARRY_MALLOC0(len)\<close>: a zeroed struct with \<open>len\<close> bytes behind it.\<close>

definition DYNARRY_MALLOC0 ::
  "os \<Rightarrow> nat \<Rightarrow> ('q, 'z) poll_rt_scheme \<Rightarrow> nat option \<times> ('q, 'z) poll_rt_scheme" where
  "DYNARRY_MALLOC0 os len s =
     (case malloc os (sizeof_dynarray_t + len) s of
        (None, s1) \<Rightarrow> (None, s1)
      | (Some a, s1) \<Rightarrow> (Some a, s1\<lparr>dynarrays := (dynarrays s1)(a \<mapsto>
          \<lparr>dy_len = 0, dy_size = 0, dy_user_id = 0, dy_data = []\<rparr>)\<rparr>))"

definition dynarray_at :: "('q, 'z) poll_rt_scheme \<Rightarrow> nat \<Rightarrow> dynarray_t res" where
  "dynarray_at s a = (case dynarrays s a of None \<Rightarrow> Inl BadAddress | Some da \<Rightarrow> Inr da)"

definition free_dynarray :: "nat \<Rightarrow> ('q, 'z) poll_rt_scheme \<Rightarrow> ('q, 'z) poll_rt_scheme" where
  "free_dynarray a s = s\<lparr>dynarrays := (dynarrays s)(a := None)\<rparr>"

definition MAX_EVENT_PER_POLL :: nat where
  "MAX_EVENT_PER_POLL = 128"

section \<open>The poll thread\<close>

text \<open>
  One call of \<open>ibv_poll_cq\<close>, into an array that is allocated for it without a check. What the call
  returns and writes are arguments, and so is the size of a completion. The result is the array,
  or \<open>None\<close> where nothing was polled, which frees the array and ends the inner loop.
\<close>

definition poll_batch ::
  "env \<Rightarrow> nat \<Rightarrow> nat \<Rightarrow> int \<Rightarrow> ibv_wc list \<Rightarrow> ('q, 'z) poll_rt_scheme
    \<Rightarrow> (nat option \<times> ('q, 'z) poll_rt_scheme) res" where
  "poll_batch E sizeof_ibv_wc server event_num wc s =
     (let (wc_array, s1) = DYNARRY_MALLOC0 (env_os E) (MAX_EVENT_PER_POLL * sizeof_ibv_wc) s in
      bind_res (deref wc_array) (\<lambda>wc_array.
      if event_num < 0 then Inl Aborted
      else if event_num > 0 then Inr (Some wc_array, s1\<lparr>dynarrays := (dynarrays s1)(wc_array \<mapsto>
        \<lparr>dy_len = event_num, dy_size = of_nat MAX_EVENT_PER_POLL, dy_user_id = server,
         dy_data = wc\<rparr>)\<rparr>)
      else Inr (None, free_dynarray wc_array s1)))"

text \<open>
  One turn of the loop over the polled completions: the first chunk of a message tells how many
  chunks the message uses up; as many receives are posted. The result of \<open>rdma_transport_recv\<close>
  is dropped. The opcode is read whatever the status of the completion is.
\<close>

definition replace_receives ::
  "env \<Rightarrow> ibv_wc \<Rightarrow> ('q, 'z) rt_scheme \<Rightarrow> ('q, 'z) rt_scheme res" where
  "replace_receives E wc s =
     (if opcode wc \<noteq> IBV_WC_RECV then Inr s
      else bind_res (work_chunk_at s (wc_wr_id wc)) (\<lambda>work_chunk.
           bind_res (chunk_at s (wc_chunk work_chunk)) (\<lambda>chunk.
           if chunk_id (header_of s chunk) \<noteq> 0 then Inr s
           else let chunk_num = chunk_num (header_of s chunk) in
             if chunk_num = 1
             then bind_res (rdma_transport_recv E (wc_transport work_chunk) s) (\<lambda>(_, s1). Inr s1)
             else rdma_transport_recv_with_num E (wc_transport work_chunk) chunk_num s)))"

definition replace_turn ::
  "env \<Rightarrow> dynarray_t \<Rightarrow> nat \<Rightarrow> ('q, 'z) rt_scheme \<Rightarrow> ('q, 'z) rt_scheme res" where
  "replace_turn E wc_array i s =
     (if i < length (dy_data wc_array) then replace_receives E (dy_data wc_array ! i) s
      else Inl UninitRead)"

definition replace_loop ::
  "env \<Rightarrow> dynarray_t \<Rightarrow> ('q, 'z) rt_scheme \<Rightarrow> ('q, 'z) rt_scheme res" where
  "replace_loop E wc_array s = for_loop 0 (nat (dy_len wc_array)) (replace_turn E wc_array) s"

text \<open>
  The two locked sections that hand an array over: the push, and, under another lock, the test of
  \<open>is_handle_running\<close>. The result of the second says whether \<open>handle_cv\<close> is signalled.
\<close>

definition hand_over ::
  "'q gqueue_ops \<Rightarrow> nat \<Rightarrow> nat \<Rightarrow> ('q, 'z) rt_scheme \<Rightarrow> ('q, 'z) rt_scheme res" where
  "hand_over Q t wc_array s =
     bind_res (transport_at s t) (\<lambda>server.
       Inr (s\<lparr>transports := (transports s)(t \<mapsto>
         server\<lparr>handle_queue := g_queue_push_tail Q (handle_queue server) wc_array\<rparr>)\<rparr>))"

definition wake_handler :: "nat \<Rightarrow> ('q, 'z) rt_scheme \<Rightarrow> (bool \<times> ('q, 'z) rt_scheme) res" where
  "wake_handler t s =
     bind_res (transport_at s t) (\<lambda>server.
       if is_handle_running server = 0
       then Inr (True, s\<lparr>transports := (transports s)(t \<mapsto> server\<lparr>is_handle_running := 1\<rparr>)\<rparr>)
       else Inr (False, s))"

section \<open>The handle thread\<close>

definition handle_peek :: "'q gqueue_ops \<Rightarrow> nat \<Rightarrow> ('q, 'z) rt_scheme \<Rightarrow> nat option res" where
  "handle_peek Q t s =
     bind_res (transport_at s t) (\<lambda>transport. Inr (g_queue_peek_head Q (handle_queue transport)))"

text \<open>Before \<open>pthread_cond_wait\<close>, with \<open>handle_cv_lock\<close> held.\<close>

definition handle_sleep :: "nat \<Rightarrow> ('q, 'z) rt_scheme \<Rightarrow> ('q, 'z) rt_scheme res" where
  "handle_sleep t s =
     bind_res (transport_at s t) (\<lambda>transport.
       Inr (s\<lparr>transports := (transports s)(t \<mapsto> transport\<lparr>is_handle_running := 0\<rparr>)\<rparr>))"

definition handle_pop :: "'q gqueue_ops \<Rightarrow> nat \<Rightarrow> ('q, 'z) rt_scheme \<Rightarrow> ('q, 'z) rt_scheme res" where
  "handle_pop Q t s =
     bind_res (transport_at s t) (\<lambda>transport.
       Inr (s\<lparr>transports := (transports s)(t \<mapsto>
         transport\<lparr>handle_queue := g_queue_pop_head Q (handle_queue transport)\<rparr>)\<rparr>))"

definition handle_check :: "nat \<Rightarrow> ('q, 'z) rt_scheme \<Rightarrow> unit res" where
  "handle_check t s =
     bind_res (transport_at s t) (\<lambda>transport. GPR_ASSERT (is_handle_running transport = 1))"

definition handle_turn ::
  "'q gqueue_ops \<Rightarrow> env \<Rightarrow> dynarray_t \<Rightarrow> nat \<Rightarrow> ('q, 'z) rt_scheme \<Rightarrow> ('q, 'z) rt_scheme res" where
  "handle_turn Q E head i s =
     (if i < length (dy_data head) then handle_event Q E (dy_data head ! i) s else Inl UninitRead)"

definition handle_batch ::
  "'q gqueue_ops \<Rightarrow> env \<Rightarrow> nat \<Rightarrow> ('q, 'z) poll_rt_scheme \<Rightarrow> ('q, 'z) poll_rt_scheme res" where
  "handle_batch Q E a s =
     bind_res (dynarray_at s a) (\<lambda>head.
     bind_res (for_loop 0 (nat (dy_len head)) (handle_turn Q E head) s) (\<lambda>s1.
       Inr (free_dynarray a s1)))"

end
