(* ===== verification/Shutdown_Threads.thy ===== *)
theory Shutdown_Threads
  imports Server_Run Poll
begin

text \<open>
  \<open>rdma_shutdown_connect\<close> while the two threads of the connection run: the signals that it sends,
  \<open>quit_thread\<close> of \<open>src/thread.c\<close> that handles them, and the struct that it frees without waiting.
\<close>

section \<open>The threads of a connection that is shut down\<close>

text \<open>
  What the two threads of a connection do before their loops: \<open>poll_thread\<close> reads the transport and
  checks two of its fields, \<open>handle_thread\<close> reads its queue. Then each installs \<open>quit_thread\<close> as the
  handler of \<open>SIGQUIT\<close>, for the whole process.
\<close>

definition poll_thread_begin :: "nat \<Rightarrow> ('q, 'z) rt_scheme \<Rightarrow> unit res" where
  "poll_thread_begin t s =
     bind_res (transport_at s t) (\<lambda>server.
     bind_res (GPR_ASSERT (comp_channel server \<noteq> None)) (\<lambda>_. GPR_ASSERT (tr_cq server \<noteq> None)))"

definition handle_thread_begin :: "nat \<Rightarrow> ('q, 'z) rt_scheme \<Rightarrow> 'q res" where
  "handle_thread_begin t s = bind_res (transport_at s t) (\<lambda>transport. Inr (handle_queue transport))"

text \<open>A thread has not installed the handler yet, runs its loop, or has ended.\<close>

datatype life = Starting | Serving | Ended

text \<open>
  \<open>lives\<close> are the threads by their id, \<open>quit_handler\<close> says whether \<open>quit_thread\<close> is installed,
  \<open>lost\<close> is the fault that ended the process.
\<close>

record 'q stop_sys = "'q conn_rt" +
  lives :: "nat \<Rightarrow> life"
  quit_handler :: bool
  shut_down :: bool
  lost :: "fault option"

text \<open>\<open>quit_thread\<close>: the thread \<open>k\<close> that gets the signal ends.\<close>

definition quit_thread :: "nat \<Rightarrow> 'q stop_sys \<Rightarrow> 'q stop_sys" where
  "quit_thread k s = s\<lparr>lives := (lives s)(k := Ended)\<rparr>"

abbreviation begun :: "nat \<Rightarrow> 'q stop_sys \<Rightarrow> 'q stop_sys" where
  "begun k s \<equiv> s\<lparr>lives := (lives s)(k := Serving), quit_handler := True\<rparr>"

text \<open>
  One step: a thread begins; the handle thread, in its loop, looks at its queue; the connection is
  shut down; a signal that was sent arrives. \<open>SIGQUIT\<close> without a handler ends the process, which is
  \<open>Aborted\<close> here.
\<close>

inductive stop_step :: "'q gqueue_ops \<Rightarrow> 'q net \<Rightarrow> nat \<Rightarrow> nat \<Rightarrow> nat \<Rightarrow> 'q stop_sys \<Rightarrow> 'q stop_sys \<Rightarrow> bool"
  for Q V t p h where
  begin_poll: "lost s = None \<Longrightarrow> lives s p = Starting \<Longrightarrow> poll_thread_begin t s = Inr () \<Longrightarrow>
     stop_step Q V t p h s (begun p s)"
| begin_poll_crash: "lost s = None \<Longrightarrow> lives s p = Starting \<Longrightarrow> poll_thread_begin t s = Inl e \<Longrightarrow>
     stop_step Q V t p h s (s\<lparr>lost := Some e\<rparr>)"
| begin_handle: "lost s = None \<Longrightarrow> lives s h = Starting \<Longrightarrow> handle_thread_begin t s = Inr q \<Longrightarrow>
     stop_step Q V t p h s (begun h s)"
| begin_handle_crash: "lost s = None \<Longrightarrow> lives s h = Starting \<Longrightarrow> handle_thread_begin t s = Inl e \<Longrightarrow>
     stop_step Q V t p h s (s\<lparr>lost := Some e\<rparr>)"
| peek: "lost s = None \<Longrightarrow> lives s h = Serving \<Longrightarrow> handle_peek Q t s = Inr head \<Longrightarrow> stop_step Q V t p h s s"
| peek_crash: "lost s = None \<Longrightarrow> lives s h = Serving \<Longrightarrow> handle_peek Q t s = Inl e \<Longrightarrow>
     stop_step Q V t p h s (s\<lparr>lost := Some e\<rparr>)"
| shutdown: "lost s = None \<Longrightarrow> \<not> shut_down s \<Longrightarrow> rdma_shutdown_connect V t s = Inr s1 \<Longrightarrow>
     stop_step Q V t p h s (s1\<lparr>shut_down := True\<rparr>)"
| shutdown_crash: "lost s = None \<Longrightarrow> \<not> shut_down s \<Longrightarrow> rdma_shutdown_connect V t s = Inl e \<Longrightarrow>
     stop_step Q V t p h s (s\<lparr>lost := Some e\<rparr>)"
| signal: "lost s = None \<Longrightarrow> k \<in> set (killed s) \<Longrightarrow> lives s k \<noteq> Ended \<Longrightarrow>
     stop_step Q V t p h s (if quit_handler s then quit_thread k s else s\<lparr>lost := Some Aborted\<rparr>)"

text \<open>A connection that is set up, with the threads \<open>p\<close> and \<open>h\<close> just created.\<close>

definition stop_start :: "'q net \<Rightarrow> nat \<Rightarrow> nat \<Rightarrow> nat \<Rightarrow> 'q stop_sys \<Rightarrow> bool" where
  "stop_start V t p h s \<longleftrightarrow> connected V s t \<and> p \<noteq> h \<and>
     (case transports s t of None \<Rightarrow> False | Some tr \<Rightarrow> poll_pid tr = p \<and> handle_pid tr = h) \<and>
     killed s = [] \<and> lives s p = Starting \<and> lives s h = Starting \<and> \<not> quit_handler s \<and> \<not> shut_down s \<and> lost s = None"

section \<open>When the process is lost\<close>

definition stop_inv :: "'q net \<Rightarrow> nat \<Rightarrow> 'q stop_sys \<Rightarrow> bool" where
  "stop_inv V t s \<longleftrightarrow> (if shut_down s then transports s t = None
       else connected V s t \<and> killed s = [] \<and> lost s = None) \<and>
     (case lost s of None \<Rightarrow> True
      | Some e \<Rightarrow> shut_down s \<and> (e = BadAddress \<or> e = Aborted \<and> \<not> quit_handler s))"

lemma connected_begins:
  assumes "connected V s t"
  shows "poll_thread_begin t s = Inr ()" "\<exists>q. handle_thread_begin t s = Inr q" "\<exists>hd. handle_peek Q t s = Inr hd"
  using assms by (auto simp: connected_def poll_thread_begin_def handle_thread_begin_def handle_peek_def transport_at_def)

lemma freed_faults:
  assumes "transports s t = None"
  shows "poll_thread_begin t s = Inl BadAddress" "handle_thread_begin t s = Inl BadAddress"
    "handle_peek Q t s = Inl BadAddress"
  using assms by (simp_all add: poll_thread_begin_def handle_thread_begin_def handle_peek_def transport_at_def)

lemma connected_stop [simp]:
  "connected V (s\<lparr>lives := l\<rparr>) t = connected V s t" "connected V (s\<lparr>quit_handler := q\<rparr>) t = connected V s t"
  "connected V (s\<lparr>lost := x\<rparr>) t = connected V s t"
  by (simp_all add: connected_def)

lemma stop_step_inv:
  assumes inv: "stop_inv V t s" and step: "stop_step Q V t p h s s'"
  shows "stop_inv V t s'"
proof (cases "shut_down s")
  case True
  then have tr: "transports s t = None" using inv by (simp add: stop_inv_def)
  from step freed_faults[OF tr] True tr show ?thesis
    by cases (auto simp: stop_inv_def quit_thread_def)
next
  case False
  then have c: "connected V s t" "killed s = []" "lost s = None" using inv by (simp_all add: stop_inv_def)
  obtain ks where sd: "rdma_shutdown_connect V t s
      = Inr (s\<lparr>killed := killed s @ ks, transports := (transports s)(t := None)\<rparr>)"
    using shutdown_connected[OF c(1)] by blast
  from step connected_begins(1,2)[OF c(1)] connected_begins(3)[OF c(1), of Q] sd False c show ?thesis
    by cases (auto simp: stop_inv_def)
qed

lemma stop_start_inv: "stop_start V t p h s \<Longrightarrow> stop_inv V t s"
  by (simp add: stop_start_def stop_inv_def)

interpretation stopping: step_system "stop_start V t p h" "stop_step Q V t p h" "stop_inv V t"
  by unfold_locales (erule stop_start_inv, erule (1) stop_step_inv)


definition demo_stop :: "nat list stop_sys" where
  "demo_stop = conn_rt.extend (conn_rt.truncate demo_process)
     \<lparr>lives = \<lambda>_. Starting, quit_handler = False, shut_down = False, lost = None\<rparr>"

lemma demo_stop_fields [simp]:
  "transports demo_stop = [9 \<mapsto> demo_transport]" "killed demo_stop = []" "lives demo_stop k = Starting"
  "\<not> quit_handler demo_stop" "\<not> shut_down demo_stop" "lost demo_stop = None"
  by (simp_all add: demo_stop_def conn_rt.extend_def conn_rt.truncate_def demo_process_def)

lemma demo_stop_start: "stop_start demo_net 9 1 2 demo_stop"
  by (simp add: stop_start_def connected_def) (simp add: demo_transport_def demo_net_def)


end
