(* ===== verification/Pool_Threads.thy ===== *)
theory Pool_Threads
  imports Buffer_Pool
begin

text \<open>
  The pool under concurrency. \<open>get_rdma_chunk_from_pool\<close> and \<open>get_rdma_chunk_list_from_pool\<close> lock
  the pool twice: once to read \<open>free_size\<close>, once to take the chunks. Every locked section is one
  atomic step here, and the steps of any number of threads interleave. The step that grows the
  pool is one step: until its own locked section it touches memory that no other thread can
  reach.
\<close>

section \<open>Steps\<close>

datatype pool_call = Get_one | Get_list u32

text \<open>
  Where a thread is: outside the pool; after the first locked section, with the size it read;
  before the second locked section; or dead, in the growing or in the taking of chunks.
\<close>

datatype pool_pc = Ready | Sized pool_call u32 | Taking pool_call
  | Crashed_growing fault | Crashed_taking fault

record pool_sys = mem +
  pcs :: "nat \<Rightarrow> pool_pc"
  owned :: "nat \<Rightarrow> caddr list"

fun needs_growth :: "pool_call \<Rightarrow> u32 \<Rightarrow> bool" where
  "needs_growth Get_one free = (free = 0)"
| "needs_growth (Get_list count) free = (free < count)"

fun growth :: "pool_call \<Rightarrow> u32 \<Rightarrow> u32" where
  "growth Get_one free = RDMA_BUFFER_SIZE"
| "growth (Get_list count) free = count - free"

abbreviation set_pc :: "nat \<Rightarrow> pool_pc \<Rightarrow> pool_sys \<Rightarrow> pool_sys" where
  "set_pc t p s \<equiv> s\<lparr>pcs := (pcs s)(t := p)\<rparr>"

abbreviation give :: "nat \<Rightarrow> caddr list \<Rightarrow> pool_sys \<Rightarrow> pool_sys" where
  "give t cs s \<equiv> s\<lparr>owned := (owned s)(t := cs @ owned s t)\<rparr>"

text \<open>
  \<open>pool_step os t s s'\<close>: thread \<open>t\<close> takes one step. A list call with count zero returns before
  the first lock and is no step. A thread owns the chunks its calls returned until it releases
  them. The premise of the \<open>grow\<close> rules on the total size leaves out pools of \<open>2^32\<close> chunks
  (256 TiB), where the counters would wrap.
\<close>

inductive pool_step :: "os \<Rightarrow> nat \<Rightarrow> pool_sys \<Rightarrow> pool_sys \<Rightarrow> bool" for os t where
  read_size: "pcs s t = Ready \<Longrightarrow> call \<noteq> Get_list 0 \<Longrightarrow>
     pool_step os t s (set_pc t (Sized call (free_size s)) s)"
| enough: "pcs s t = Sized call free \<Longrightarrow> \<not> needs_growth call free \<Longrightarrow>
     pool_step os t s (set_pc t (Taking call) s)"
| grow: "pcs s t = Sized call free \<Longrightarrow> needs_growth call free \<Longrightarrow>
     unat (total_size s) + round_up (unat (growth call free)) < 2 ^ 32 \<Longrightarrow>
     append_rdma_buffer_pool os (growth call free) s = Inr (rc, s1) \<Longrightarrow>
     pool_step os t s (set_pc t (if rc < 0 then Ready else Taking call) s1)"
| grow_crash: "pcs s t = Sized call free \<Longrightarrow> needs_growth call free \<Longrightarrow>
     append_rdma_buffer_pool os (growth call free) s = Inl e \<Longrightarrow>
     pool_step os t s (set_pc t (Crashed_growing e) s)"
| take_one: "pcs s t = Taking Get_one \<Longrightarrow> pop_chunk s = Inr (c, s1) \<Longrightarrow>
     pool_step os t s (give t [c] (set_pc t Ready s1))"
| take_one_crash: "pcs s t = Taking Get_one \<Longrightarrow> pop_chunk s = Inl e \<Longrightarrow>
     pool_step os t s (set_pc t (Crashed_taking e) s)"
| take_list: "pcs s t = Taking (Get_list count) \<Longrightarrow> take_chunks count s = Inr (Some p, s1) \<Longrightarrow>
     chain (next_of s1) (Some p) cs \<Longrightarrow>
     pool_step os t s (give t cs (set_pc t Ready s1))"
| take_null: "pcs s t = Taking (Get_list count) \<Longrightarrow> take_chunks count s = Inr (None, s1) \<Longrightarrow>
     pool_step os t s (set_pc t Ready s1)"
| take_list_crash: "pcs s t = Taking (Get_list count) \<Longrightarrow> take_chunks count s = Inl e \<Longrightarrow>
     pool_step os t s (set_pc t (Crashed_taking e) s)"
| release: "pcs s t = Ready \<Longrightarrow> a \<in> set (owned s t) \<Longrightarrow>
     release_rdma_chunk_to_pool (Some a) s = Inr s1 \<Longrightarrow>
     pool_step os t s (s1\<lparr>owned := (owned s)(t := remove1 a (owned s t))\<rparr>)"

text \<open>The start: a well-formed pool, all of it free, and threads that own nothing.\<close>

definition pool_start :: "pool_sys \<Rightarrow> bool" where
  "pool_start s \<longleftrightarrow> (\<exists>ns xs. pool_inv s ns xs) \<and> (\<forall>t. pcs s t = Ready) \<and> (\<forall>t. owned s t = [])"

definition any_pool_step :: "os \<Rightarrow> pool_sys \<Rightarrow> pool_sys \<Rightarrow> bool" where
  "any_pool_step os s s' \<longleftrightarrow> (\<exists>t. pool_step os t s s')"

section \<open>Ownership\<close>

definition ownership :: "(nat \<Rightarrow> caddr list) \<Rightarrow> node list \<Rightarrow> caddr list \<Rightarrow> bool" where
  "ownership own ns xs \<longleftrightarrow>
     (\<forall>t. distinct (own t) \<and> set (own t) \<subseteq> set (chunk_addrs ns) - set xs) \<and>
     (\<forall>t u. t \<noteq> u \<longrightarrow> set (own t) \<inter> set (own u) = {})"

definition pool_sys_inv :: "pool_sys \<Rightarrow> bool" where
  "pool_sys_inv s \<longleftrightarrow>
     (\<exists>ns xs. pool_inv s ns xs \<and> ownership (owned s) ns xs) \<and>
     (\<forall>t call free. pcs s t \<in> {Sized call free, Taking call} \<longrightarrow> call \<noteq> Get_list 0)"

lemma pool_inv_more [simp]:
  "pool_inv (s\<lparr>pcs := p\<rparr>) ns xs = pool_inv s ns xs"
  "pool_inv (s\<lparr>owned := f\<rparr>) ns xs = pool_inv s ns xs"
  by (auto elim!: pool_inv_cong)

lemma pool_sys_invI:
  assumes "pool_inv s ns xs" "ownership (owned s) ns xs"
    "\<And>t call free. pcs s t \<in> {Sized call free, Taking call} \<Longrightarrow> call \<noteq> Get_list 0"
  shows "pool_sys_inv s"
  using assms unfolding pool_sys_inv_def by blast

lemma ownershipD:
  assumes "ownership own ns xs"
  shows "distinct (own t)" "a \<in> set (own t) \<Longrightarrow> a \<in> set (chunk_addrs ns)"
    "a \<in> set (own t) \<Longrightarrow> a \<notin> set xs" "a \<in> set (own t) \<Longrightarrow> a \<in> set (own u) \<Longrightarrow> t = u"
  using assms unfolding ownership_def by blast+

lemma ownershipI [inv_intros]:
  assumes "\<And>t. distinct (own t)" "\<And>t a. a \<in> set (own t) \<Longrightarrow> a \<in> set (chunk_addrs ns) \<and> a \<notin> set xs"
    "\<And>t u a. a \<in> set (own t) \<Longrightarrow> a \<in> set (own u) \<Longrightarrow> t = u"
  shows "ownership own ns xs"
  using assms unfolding ownership_def by blast

lemma ownership_take:
  assumes own: "ownership own ns (cs @ xs)" and dist: "distinct (cs @ xs)"
    and sub: "set cs \<subseteq> set (chunk_addrs ns)"
  shows "ownership (own(t := cs @ own t)) ns xs"
proof (intro inv_intros)
  note d = ownershipD[OF own]
  show "distinct ((own(t := cs @ own t)) u)" for u
    using d(1)[of u] d(1)[of t] d(3)[of _ t] dist by auto
  show "a \<in> set (chunk_addrs ns) \<and> a \<notin> set xs" if "a \<in> set ((own(t := cs @ own t)) u)" for u a
    using that d(2,3)[of a u] d(2,3)[of a t] dist sub by (auto split: if_splits)
  show "u = v" if "a \<in> set ((own(t := cs @ own t)) u)" "a \<in> set ((own(t := cs @ own t)) v)" for u v a
    using that d(3)[of a u] d(3)[of a v] d(4)[of a u v] d(4)[of a t u] d(4)[of a t v]
    by (auto split: if_splits)
qed

lemma ownership_release:
  assumes own: "ownership own ns xs" and a: "a \<in> set (own t)"
  shows "ownership (own(t := remove1 a (own t))) ns (a # xs)"
proof (intro inv_intros)
  note d = ownershipD[OF own]
  have r: "set (remove1 a (own t)) = set (own t) - {a}"
    using d(1)[of t] by (rule set_remove1_eq)
  show "distinct ((own(t := remove1 a (own t))) u)" for u
    using d(1)[of u] d(1)[of t] by (simp add: distinct_remove1)
  have sub: "b \<in> set (own u)" "b \<noteq> a" if "b \<in> set ((own(t := remove1 a (own t))) u)" for u b
    using that r d(4)[OF a, of u] by (auto split: if_splits)
  show "b \<in> set (chunk_addrs ns) \<and> b \<notin> set (a # xs)"
    if "b \<in> set ((own(t := remove1 a (own t))) u)" for u b
    using sub[OF that] d(2,3) by simp
  show "u = v" if "b \<in> set ((own(t := remove1 a (own t))) u)"
      "b \<in> set ((own(t := remove1 a (own t))) v)" for u v b
    using sub(1)[OF that(1)] sub(1)[OF that(2)] by (rule d(4))
qed

lemma ownership_grow:
  assumes own: "ownership own ns xs" and new: "set cs \<inter> set (chunk_addrs ns) = {}"
    and sub: "set (chunk_addrs ns) \<subseteq> set (chunk_addrs ns')"
  shows "ownership own ns' (cs @ xs)"
proof (intro inv_intros)
  note d = ownershipD[OF own]
  show "distinct (own t)" for t by (rule d(1))
  show "a \<in> set (chunk_addrs ns') \<and> a \<notin> set (cs @ xs)" if "a \<in> set (own t)" for t a
    using d(2,3)[OF that] new sub by auto
  show "t = u" if "a \<in> set (own t)" "a \<in> set (own u)" for t u a
    using that by (rule d(4))
qed

lemma append_sys:
  assumes "append_rdma_buffer_pool os sz s = Inr (rc, s')"
  shows "pcs s' = pcs s" "owned s' = owned s"
  using append_outcomes[OF assms] by (auto simp: leaked_def grown_def Let_def)

lemma release_sys:
  "release_rdma_chunk_to_pool (Some a) s = Inr s' \<Longrightarrow> pcs s' = pcs s \<and> owned s' = owned s"
  by (auto simp: release_rdma_chunk_to_pool_def res_simps)

lemma pool_step_inv:
  assumes "pool_step os t s s'" and "pool_sys_inv s"
  shows "pool_sys_inv s'"
proof -
  from assms(2) obtain ns xs where inv: "pool_inv s ns xs" and own: "ownership (owned s) ns xs"
    and calls: "\<And>u call free. pcs s u \<in> {Sized call free, Taking call} \<Longrightarrow> call \<noteq> Get_list 0"
    unfolding pool_sys_inv_def by blast
  note facts = pool_invD[OF inv]
  from assms(1) show ?thesis
  proof cases
    case (read_size call)
    with inv own calls show ?thesis
      by (intro pool_sys_invI[of _ ns xs]) (auto split: if_splits)
  next
    case (enough call free)
    with inv own calls show ?thesis
      by (intro pool_sys_invI[of _ ns xs]) (auto split: if_splits)
  next
    case (grow call free rc s1)
    note sys = append_sys[OF grow(5)]
    from grow(5) inv grow(4) show ?thesis
    proof (cases rule: append_cases)
      case failed
      with grow own calls sys show ?thesis
        by (intro pool_sys_invI[of _ ns xs]) (auto split: if_splits)
    next
      case (ok mr)
      let ?k = "round_up (unat (growth call free))"
      have "set (block_addrs (Suc (fresh s)) ?k) \<inter> set (chunk_addrs ns) = {}"
        using facts(3) by (fastforce simp: in_chunk_addrs)
      then have "ownership (owned s) ((fresh s, Suc (fresh s), ?k) # ns)
          (block_addrs (Suc (fresh s)) ?k @ xs)"
        by (intro ownership_grow[OF own]) auto
      with ok grow calls sys show ?thesis
        by (intro pool_sys_invI[OF _ _]) (auto split: if_splits)
    qed
  next
    case (grow_crash call free e)
    with inv own calls show ?thesis
      by (intro pool_sys_invI[of _ ns xs]) (auto split: if_splits)
  next
    case (take_one c s1)
    have "xs \<noteq> []" using take_one(3) pop_chunk_Nil inv by force
    then obtain a as where xs: "xs = a # as" by (cases xs) auto
    with take_one(3) pop_chunk_Cons[OF inv[unfolded xs]]
    have c: "c = a" "s1 = popped a s" "pool_inv s1 ns as" by auto
    have "ownership ((owned s)(t := [a] @ owned s t)) ns as"
      using own facts(5,8) xs by (intro ownership_take) auto
    with c take_one calls show ?thesis
      by (intro pool_sys_invI[of _ ns as]) (auto simp: popped_def split: if_splits)
  next
    case (take_one_crash e)
    with inv own calls show ?thesis
      by (intro pool_sys_invI[of _ ns xs]) (auto split: if_splits)
  next
    case (take_list count p s1 cs)
    from take_list(2) calls[of t "Get_list count" 0] have nz: "count \<noteq> 0" by auto
    from take_list(3) have le: "unat count \<le> length xs"
      and s1: "s1 = taken count (xs ! (unat count - 1)) s" and p: "head_of xs = Some p"
      by (auto simp: take_chunks_eq[OF inv nz] split: if_splits)
    note taken = pool_inv_taken[OF inv nz le]
    have cs: "cs = take (unat count) xs"
      using chain_unique[OF take_list(4)] taken(2) by (simp add: s1 p)
    let ?xs = "drop (unat count) xs"
    have "ownership ((owned s)(t := cs @ owned s t)) ns ?xs"
      using own facts(5,8) by (intro ownership_take) (auto simp: cs dest: in_set_takeD)
    with taken(1) take_list calls s1 show ?thesis
      by (intro pool_sys_invI[of _ ns ?xs]) (auto simp: taken_def split: if_splits)
  next
    case (take_null count s1)
    from take_null(2) calls[of t "Get_list count" 0] have nz: "count \<noteq> 0" by auto
    from take_null(3) have "s1 = s"
      using nz by (cases xs) (auto simp: take_chunks_eq[OF inv nz] unat_0_iff split: if_splits)
    with take_null inv own calls show ?thesis
      by (intro pool_sys_invI[of _ ns xs]) (auto split: if_splits)
  next
    case (take_list_crash count e)
    with inv own calls show ?thesis
      by (intro pool_sys_invI[of _ ns xs]) (auto split: if_splits)
  next
    case (release a s1)
    note a = ownershipD(2,3)[OF own release(3)]
    have s1: "s1 = released a s"
      using release(4) release_eq[OF facts(9)[OF a(1)]] by simp
    have "pool_inv s1 ns (a # xs)" using pool_inv_released[OF inv a] s1 by simp
    moreover have "ownership ((owned s)(t := remove1 a (owned s t))) ns (a # xs)"
      by (rule ownership_release[OF own release(3)])
    ultimately show ?thesis
      using release calls s1 by (intro pool_sys_invI[of _ ns "a # xs"]) (auto simp: released_def)
  qed
qed


interpretation pool_threads: step_system pool_start "any_pool_step os" pool_sys_inv for os
proof unfold_locales
  show "pool_sys_inv s" if "pool_start s" for s
    using that unfolding pool_start_def pool_sys_inv_def ownership_def by auto
  show "pool_sys_inv t" if "pool_sys_inv s" "any_pool_step os s t" for s t
    using that pool_step_inv unfolding any_pool_step_def by blast
qed

text \<open>
  C12: Whatever the interleaving, no chunk is handed out twice: two threads never own the same
  chunk, no thread owns a chunk twice, and no owned chunk is in the free list.
\<close>

theorem no_chunk_handed_out_twice:
  assumes "reach pool_start (any_pool_step os) s"
  shows "(\<forall>t. distinct (owned s t)) \<and> (\<forall>t u. t \<noteq> u \<longrightarrow> set (owned s t) \<inter> set (owned s u) = {}) \<and>
    (\<exists>xs. chain (next_of s) (free_list s) xs \<and> (\<forall>t. set (owned s t) \<inter> set xs = {}))"
proof -
  obtain ns xs where "pool_inv s ns xs" "ownership (owned s) ns xs"
    using pool_threads.reach_inv[OF assms] unfolding pool_sys_inv_def by blast
  then show ?thesis
    using pool_invD(4) unfolding ownership_def by blast
qed


section \<open>The race between the two locked sections\<close>

text \<open>The pool after \<open>rdma_context_init\<close>, and threads that have not called it yet.\<close>

definition threads_mem :: pool_sys where
  "threads_mem = \<lparr>link_head = None, free_list = None, total_size = 0, free_size = 0, pool_pd = 0,
     next_of = \<lambda>_. None, mr_of = \<lambda>_. \<lparr>mr_id = 0, lkey = 0\<rparr>, header_of = \<lambda>_. demo_header,
     body_of = \<lambda>_ _. 0, buffers = Map.empty, links = Map.empty, fresh = 0, registered = [],
     pcs = \<lambda>_. Ready, owned = \<lambda>_. []\<rparr>"

definition threads_start :: pool_sys where
  "threads_start = grown \<lparr>mr_id = 1, lkey = 7\<rparr> 4096 threads_mem"

lemma threads_init: "init_rdma_buffer_pool demo_os 0 threads_mem = Inr (0, threads_start)"
proof -
  have "threads_mem\<lparr>link_head := None, free_list := None, total_size := 0, free_size := 0, pool_pd := 0\<rparr>
      = threads_mem"
    by (simp add: threads_mem_def)
  then show ?thesis
    by (simp add: init_rdma_buffer_pool_def append_rdma_buffer_pool_eq sizes demo_os_def
        threads_start_def) (simp add: threads_mem_def)
qed

lemma threads_start_inv: "pool_inv threads_start [(0, 1, 4096)] (block_addrs 1 4096)"
  using pool_inv_grown[OF pool_inv_empty[of threads_mem], of 4096 "\<lparr>mr_id = 1, lkey = 7\<rparr>"]
  by (simp add: threads_start_def threads_mem_def)

lemma threads_start_pcs [simp]: "pcs threads_start t = Ready" "owned threads_start t = []"
  by (simp_all add: threads_start_def grown_def threads_mem_def Let_def)

lemma threads_start_ok: "pool_start threads_start"
  using threads_start_inv by (auto simp: pool_start_def)

lemma pool_steps_step:
  "(any_pool_step os)\<^sup>*\<^sup>* s s' \<Longrightarrow> pool_step os t s' s'' \<Longrightarrow> (any_pool_step os)\<^sup>*\<^sup>* s s''"
  unfolding any_pool_step_def by (blast intro: rtranclp.rtrancl_into_rtrancl)

lemma threads_start_reach: "reach pool_start step threads_start"
  by (rule reach_init[where init = pool_start]) (rule threads_start_ok)

text \<open>
  Two threads that both read a size of one go on to take a chunk each; the second finds the free
  list empty.
\<close>

lemma two_takers_crash:
  assumes inv: "pool_inv s ns [a]" and "pcs s t = Ready" "pcs s u = Ready" "t \<noteq> u"
  shows "\<exists>s'. (any_pool_step os)\<^sup>*\<^sup>* s s' \<and> pcs s' u = Crashed_taking NullDeref"
proof -
  have fs: "free_size s \<noteq> 0" using inv by (auto elim: free_list_cases)
  define s1 where "s1 = set_pc t (Sized Get_one (free_size s)) s"
  define s2 where "s2 = set_pc u (Sized Get_one (free_size s)) s1"
  define s3 where "s3 = set_pc t (Taking Get_one) s2"
  define s4 where "s4 = set_pc u (Taking Get_one) s3"
  define s5 where "s5 = give t [a] (set_pc t Ready (popped a s4))"
  have inv4: "pool_inv s4 ns [a]"
    using inv by (simp add: s4_def s3_def s2_def s1_def)
  note pop = pop_chunk_Cons[OF inv4]
  have inv5: "pool_inv s5 ns []"
    using pop(2) by (simp add: s5_def)
  have "pool_step os t s s1"
    unfolding s1_def by (rule read_size) (use assms in auto)
  moreover have "pool_step os u s1 s2"
    using read_size[of s1 u Get_one os] assms by (simp add: s2_def s1_def)
  moreover have "pool_step os t s2 s3"
    unfolding s3_def by (rule enough[of _ _ Get_one "free_size s"]) (use assms fs in \<open>auto simp: s2_def s1_def\<close>)
  moreover have "pool_step os u s3 s4"
    unfolding s4_def by (rule enough[of _ _ Get_one "free_size s"]) (use assms fs in \<open>auto simp: s3_def s2_def s1_def\<close>)
  moreover have "pool_step os t s4 s5"
    unfolding s5_def by (rule take_one) (use assms pop in \<open>auto simp: s4_def s3_def\<close>)
  moreover have "pool_step os u s5 (set_pc u (Crashed_taking NullDeref) s5)"
    by (rule take_one_crash) (use assms pop_chunk_Nil[OF inv5] in \<open>auto simp: s5_def s4_def popped_def\<close>)
  ultimately have "(any_pool_step os)\<^sup>*\<^sup>* s (set_pc u (Crashed_taking NullDeref) s5)"
    by (intro pool_steps_step[OF pool_steps_step[OF pool_steps_step[OF pool_steps_step[OF
          pool_steps_step[OF pool_steps_step[OF rtranclp.rtrancl_refl]]]]]])
  then show ?thesis by (intro exI[of _ "set_pc u (Crashed_taking NullDeref) s5"]) auto
qed

text \<open>
  C36: The race that the comment \<open>could has bug\<close> suspects: from the pool that
  \<open>rdma_context_init\<close> builds, with every allocation succeeding, three threads reach a state in
  which one of them has dereferenced the NULL at the end of the free list, because the size that
  a thread reads in its first locked section no longer holds in its second.
\<close>

theorem pool_race_reaches_null_dereference:
  "\<exists>s t. reach (\<lambda>s. s = threads_start) (any_pool_step demo_os) s \<and> pcs s t = Crashed_taking NullDeref"
proof -
  define s1 where "s1 = set_pc 0 (Sized (Get_list 4095) 4096) threads_start"
  define s2 where "s2 = set_pc 0 (Taking (Get_list 4095)) s1"
  define s3 where "s3 = give 0 (take 4095 (block_addrs 1 4096))
    (set_pc 0 Ready (taken 4095 (block_addrs 1 4096 ! 4094) s2))"
  have inv2: "pool_inv s2 [(0, 1, 4096)] (block_addrs 1 4096)"
    using threads_start_inv by (simp add: s2_def s1_def)
  have nz: "(4095 :: u32) \<noteq> 0" by simp
  have le: "unat (4095 :: u32) \<le> length (block_addrs 1 4096)" by simp
  have tc: "take_chunks 4095 s2 = Inr (Some (1, 0), taken 4095 (block_addrs 1 4096 ! 4094) s2)"
    using take_chunks_eq[OF inv2 nz] by simp
  have drop: "drop 4095 (block_addrs 1 4096) = [(1, 4095)]"
    by (simp add: block_addrs_def drop_map)
  have inv3: "pool_inv s3 [(0, 1, 4096)] [(1, 4095)]"
    using pool_inv_taken(1)[OF inv2 nz le] by (simp add: s3_def drop del: One_nat_def)
  have "free_size threads_start = 4096"
    by (simp add: threads_start_def grown_def threads_mem_def Let_def)
  then have "pool_step demo_os 0 threads_start s1"
    using read_size[of threads_start 0 "Get_list 4095"] by (simp add: s1_def)
  moreover have "pool_step demo_os 0 s1 s2"
    unfolding s2_def by (rule enough[of _ _ "Get_list 4095" 4096]) (auto simp: s1_def)
  moreover have "pool_step demo_os 0 s2 s3"
    unfolding s3_def
    by (rule take_list[OF _ tc]) (use pool_inv_taken(2)[OF inv2 nz le] in \<open>auto simp: s2_def\<close>)
  ultimately have "(any_pool_step demo_os)\<^sup>*\<^sup>* threads_start s3"
    by (intro pool_steps_step[OF pool_steps_step[OF pool_steps_step[OF rtranclp.rtrancl_refl]]])
  moreover obtain s' where "(any_pool_step demo_os)\<^sup>*\<^sup>* s3 s'" "pcs s' 2 = Crashed_taking NullDeref"
    using two_takers_crash[OF inv3, of 1 2 demo_os]
    by (auto simp: s3_def s2_def s1_def taken_def)
  ultimately show ?thesis
    by (blast intro: reach_from rtranclp_trans)
qed


section \<open>One consumer\<close>

text \<open>
  The steps in which one thread takes chunks and every other thread only releases: the others stay
  outside the taking calls.
\<close>

definition consumer_step :: "os \<Rightarrow> nat \<Rightarrow> pool_sys \<Rightarrow> pool_sys \<Rightarrow> bool" where
  "consumer_step os t s s' \<longleftrightarrow> any_pool_step os s s' \<and> (\<forall>u. u \<noteq> t \<longrightarrow> pcs s' u = Ready)"

fun demand :: "pool_call \<Rightarrow> nat" where
  "demand Get_one = 1"
| "demand (Get_list count) = unat count"

text \<open>What the consumer read is still a lower bound, because only it takes chunks.\<close>

definition consumer_inv :: "nat \<Rightarrow> pool_sys \<Rightarrow> bool" where
  "consumer_inv t s \<longleftrightarrow> pool_sys_inv s \<and> (\<forall>u. u \<noteq> t \<longrightarrow> pcs s u = Ready) \<and>
     (case pcs s t of Sized call free \<Rightarrow> free \<le> free_size s
      | Taking call \<Rightarrow> demand call \<le> unat (free_size s)
      | Crashed_taking e \<Rightarrow> False
      | _ \<Rightarrow> True)"

lemma needs_growth_demand:
  assumes "\<not> needs_growth call free" "free \<le> free'" "call \<noteq> Get_list 0"
  shows "demand call \<le> unat free'"
proof (cases call)
  case Get_one
  with assms have "free' \<noteq> 0" by auto
  with Get_one show ?thesis by (simp add: Suc_le_eq unat_gt_0)
next
  case (Get_list count)
  with assms show ?thesis by (simp add: word_le_nat_alt word_less_nat_alt)
qed

lemma growth_demand:
  assumes "needs_growth call free" "free \<le> free'"
  shows "demand call \<le> unat free' + round_up (unat (growth call free))"
proof (cases call)
  case Get_one
  then show ?thesis by simp
next
  case (Get_list count)
  with assms have "unat (count - free) = unat count - unat free"
    by (simp add: unat_sub word_le_nat_alt word_less_nat_alt)
  with Get_list assms round_up_bounds(1)[of "unat count - unat free"] show ?thesis
    by (simp add: word_le_nat_alt)
qed

text \<open>A thread that only releases: its step is a release, and it makes the free list longer.\<close>

lemma other_step:
  assumes "pool_step os u s s'" "pool_sys_inv s" "pcs s u = Ready" "pcs s' u = Ready"
  shows "pcs s' = pcs s \<and> free_size s \<le> free_size s'"
  using assms(1)
proof cases
  case (release a s1)
  obtain ns xs where inv: "pool_inv s ns xs" and own: "ownership (owned s) ns xs"
    using assms(2) unfolding pool_sys_inv_def by blast
  note a = ownershipD(2,3)[OF own release(3)]
  have s1: "s1 = released a s"
    using release(4) release_eq[OF pool_invD(9)[OF inv a(1)]] by simp
  have "free_size s \<le> free_size s1"
    using pool_invD(6)[OF pool_inv_released[OF inv a]] pool_invD(6)[OF inv] s1
    by (simp add: word_le_nat_alt)
  with release s1 show ?thesis by (simp add: released_def)
qed (use assms in auto)

lemma consumer_step_inv:
  assumes "consumer_inv t s" and "consumer_step os t s s'"
  shows "consumer_inv t s'"
proof -
  from assms obtain u where step: "pool_step os u s s'" and others: "\<And>v. v \<noteq> t \<Longrightarrow> pcs s' v = Ready"
    and sinv: "pool_sys_inv s" and ready: "\<And>v. v \<noteq> t \<Longrightarrow> pcs s v = Ready"
    unfolding consumer_step_def any_pool_step_def consumer_inv_def by blast
  have sinv': "pool_sys_inv s'" by (rule pool_step_inv[OF step sinv])
  obtain ns xs where inv: "pool_inv s ns xs"
    and calls: "\<And>u call free. pcs s u \<in> {Sized call free, Taking call} \<Longrightarrow> call \<noteq> Get_list 0"
    using sinv unfolding pool_sys_inv_def by blast
  show ?thesis
  proof (cases "u = t")
    case False
    then have "pcs s' = pcs s \<and> free_size s \<le> free_size s'"
      using other_step[OF step sinv ready others] by blast
    with assms(1) sinv' show ?thesis
      unfolding consumer_inv_def by (auto simp: word_le_nat_alt split: pool_pc.splits)
  next
    case True
    have old: "case pcs s t of Sized call free \<Rightarrow> free \<le> free_size s
      | Taking call \<Rightarrow> demand call \<le> unat (free_size s) | Crashed_taking e \<Rightarrow> False | _ \<Rightarrow> True"
      using assms(1) unfolding consumer_inv_def by blast
    have "case pcs s' t of Sized call free \<Rightarrow> free \<le> free_size s'
      | Taking call \<Rightarrow> demand call \<le> unat (free_size s') | Crashed_taking e \<Rightarrow> False | _ \<Rightarrow> True"
      using step[unfolded True]
    proof cases
      case (enough call free)
      with old calls[of t call free] show ?thesis
        by (simp add: needs_growth_demand)
    next
      case (grow call free rc s1)
      from grow(5) inv grow(4) show ?thesis
      proof (cases rule: append_cases)
        case (ok mr)
        have "unat (free_size s1) = round_up (unat (growth call free)) + unat (free_size s)"
          using pool_invD(6)[OF ok(4)] pool_invD(6)[OF inv] by simp
        then show ?thesis
          using grow ok(1) old growth_demand[OF grow(3), of "free_size s"] by simp
      qed (use grow in simp)
    next
      case (take_one_crash e)
      with old have "xs \<noteq> []" using pool_invD(6)[OF inv] by auto
      then obtain a as where "xs = a # as" by (cases xs) auto
      with take_one_crash pop_chunk_Cons(1)[of s ns a as] inv show ?thesis by simp
    next
      case (take_list_crash count e)
      have "count \<noteq> 0" using calls[of t "Get_list count"] take_list_crash(2) by auto
      with take_list_crash old pool_invD(6)[OF inv] show ?thesis
        by (simp add: take_chunks_eq[OF inv])
    next
      case (release a s1)
      then show ?thesis by (simp add: release_sys)
    qed simp_all
    with sinv' others show ?thesis
      unfolding consumer_inv_def by blast
  qed
qed

interpretation pool_consumer: step_system pool_start "consumer_step os t" "consumer_inv t" for os t
proof unfold_locales
  show "consumer_inv t s" if "pool_start s" for s
    using that pool_threads.init_inv[OF that] unfolding consumer_inv_def pool_start_def by simp
  show "consumer_inv t s'" if "consumer_inv t s" "consumer_step os t s s'" for s s'
    using that by (rule consumer_step_inv)
qed


theorem no_chunk_handed_out_twice_witness:
  "distinct (owned threads_start 0) \<and> owned threads_start 0 = []"
  using no_chunk_handed_out_twice[OF threads_start_reach] by simp



end
