(* ===== verification/Poll_Threads.thy ===== *)
theory Poll_Threads
  imports Poll Transport_Recv
begin

text \<open>
  The poll thread and the handle thread of a connection as a step relation over their locked
  sections, and what their handover of completions guarantees and what it does not.
\<close>

section \<open>The two threads\<close>

text \<open>
  Where the poll thread is: in \<open>ibv_get_cq_event\<close>, before \<open>ibv_poll_cq\<close>, with an array of
  completions before the replacement of their receives, before the push, before the test of
  \<open>is_handle_running\<close>. Where the handle thread is: before its look at the queue, after it has found
  the queue empty, in \<open>pthread_cond_wait\<close>, with the head it saw, with the head it took.
\<close>

datatype poll_pc = Blocked | Polling | Polled nat | Handing nat | Waking

datatype hand_pc = Peeking | Found_empty | Sleeping | Seen nat | Taken nat

text \<open>
  \<open>cq_rest\<close> are the completions that the adapter still produces, in their order; \<open>handled\<close> are
  those the handle thread is done with. A fault of either thread ends the process.
\<close>

record 'q poll_sys = "'q poll_rt" +
  cq_rest :: "ibv_wc list"
  poll_at :: poll_pc
  hand_at :: hand_pc
  handled :: "ibv_wc list"
  died :: "fault option"

text \<open>
  One step of either thread for the connection \<open>t\<close>; \<open>n\<close> is the size of a completion in bytes.
  \<open>ibv_get_cq_event\<close> may return at any time or fail; \<open>ibv_poll_cq\<close> takes any number of the
  completions, up to the size of the array, or fails. \<open>spurious\<close> says whether
  \<open>pthread_cond_wait\<close> may return without a signal, as POSIX allows.
\<close>

inductive handover_step ::
  "bool \<Rightarrow> 'q gqueue_ops \<Rightarrow> env \<Rightarrow> nat \<Rightarrow> nat \<Rightarrow> 'q poll_sys \<Rightarrow> 'q poll_sys \<Rightarrow> bool"
  for spurious Q E n t where
  event: "died s = None \<Longrightarrow> poll_at s = Blocked \<Longrightarrow> handover_step spurious Q E n t s (s\<lparr>poll_at := Polling\<rparr>)"
| event_fails: "died s = None \<Longrightarrow> poll_at s = Blocked \<Longrightarrow>
     handover_step spurious Q E n t s (s\<lparr>died := Some Aborted\<rparr>)"
| polled: "died s = None \<Longrightarrow> poll_at s = Polling \<Longrightarrow> k \<le> MAX_EVENT_PER_POLL \<Longrightarrow> k \<le> length (cq_rest s) \<Longrightarrow>
     poll_batch E n t (int k) (take k (cq_rest s)) s = Inr (a, s1) \<Longrightarrow>
     handover_step spurious Q E n t s (s1\<lparr>cq_rest := drop k (cq_rest s),
       poll_at := (case a of None \<Rightarrow> Blocked | Some a \<Rightarrow> Polled a)\<rparr>)"
| poll_crash: "died s = None \<Longrightarrow> poll_at s = Polling \<Longrightarrow> poll_batch E n t rc [] s = Inl e \<Longrightarrow>
     handover_step spurious Q E n t s (s\<lparr>died := Some e\<rparr>)"
| replace: "died s = None \<Longrightarrow> poll_at s = Polled a \<Longrightarrow> dynarray_at s a = Inr da \<Longrightarrow> replace_loop E da s = Inr s1 \<Longrightarrow>
     handover_step spurious Q E n t s (s1\<lparr>poll_at := Handing a\<rparr>)"
| replace_crash: "died s = None \<Longrightarrow> poll_at s = Polled a \<Longrightarrow>
     bind_res (dynarray_at s a) (\<lambda>da. replace_loop E da s) = Inl e \<Longrightarrow>
     handover_step spurious Q E n t s (s\<lparr>died := Some e\<rparr>)"
| hand: "died s = None \<Longrightarrow> poll_at s = Handing a \<Longrightarrow> hand_over Q t a s = Inr s1 \<Longrightarrow>
     handover_step spurious Q E n t s (s1\<lparr>poll_at := Waking\<rparr>)"
| wake: "died s = None \<Longrightarrow> poll_at s = Waking \<Longrightarrow> wake_handler t s = Inr (signal, s1) \<Longrightarrow>
     handover_step spurious Q E n t s (s1\<lparr>poll_at := Polling,
       hand_at := (if signal \<and> hand_at s = Sleeping then Peeking else hand_at s)\<rparr>)"
| peek: "died s = None \<Longrightarrow> hand_at s = Peeking \<Longrightarrow> handle_peek Q t s = Inr head \<Longrightarrow>
     handover_step spurious Q E n t s
       (s\<lparr>hand_at := (case head of None \<Rightarrow> Found_empty | Some a \<Rightarrow> Seen a)\<rparr>)"
| sleep: "died s = None \<Longrightarrow> hand_at s = Found_empty \<Longrightarrow> handle_sleep t s = Inr s1 \<Longrightarrow>
     handover_step spurious Q E n t s (s1\<lparr>hand_at := Sleeping\<rparr>)"
| wake_up: "died s = None \<Longrightarrow> hand_at s = Sleeping \<Longrightarrow> spurious \<Longrightarrow>
     handover_step spurious Q E n t s (s\<lparr>hand_at := Peeking\<rparr>)"
| pop: "died s = None \<Longrightarrow> hand_at s = Seen a \<Longrightarrow> handle_pop Q t s = Inr s1 \<Longrightarrow>
     handover_step spurious Q E n t s (s1\<lparr>hand_at := Taken a\<rparr>)"
| handle: "died s = None \<Longrightarrow> hand_at s = Taken a \<Longrightarrow> handle_check t s = Inr () \<Longrightarrow> dynarray_at s a = Inr da \<Longrightarrow>
     handle_batch Q E a s = Inr s1 \<Longrightarrow>
     handover_step spurious Q E n t s
       (s1\<lparr>hand_at := Peeking, handled := handled s @ take (nat (dy_len da)) (dy_data da)\<rparr>)"
| handle_crash: "died s = None \<Longrightarrow> hand_at s = Taken a \<Longrightarrow>
     bind_res (handle_check t s) (\<lambda>_. handle_batch Q E a s) = Inl e \<Longrightarrow>
     handover_step spurious Q E n t s (s\<lparr>died := Some e\<rparr>)"

section \<open>What the sections leave alone\<close>

definition handle_fields :: "('q, 'z) rt_scheme \<Rightarrow> nat \<Rightarrow> ('q \<times> int) option" where
  "handle_fields s t = map_option (\<lambda>tr. (handle_queue tr, is_handle_running tr)) (transports s t)"

text \<open>
  Outside the handover itself nothing changes the handle queue, its flag, or the arrays of
  completions, and addresses are never used again.
\<close>

definition keeps :: "('q, 'z) rt_scheme \<Rightarrow> ('q, 'z) rt_scheme \<Rightarrow> bool" where
  "keeps s s' \<longleftrightarrow> rt.more s' = rt.more s \<and> fresh s \<le> fresh s' \<and> handle_fields s' = handle_fields s"

lemma keeps_refl [simp, intro]: "keeps s s"
  by (simp add: keeps_def)

lemma keeps_trans: "keeps s s' \<Longrightarrow> keeps s' s'' \<Longrightarrow> keeps s s''"
  by (simp add: keeps_def)

lemma calm_keeps: "calm s s' \<Longrightarrow> keeps s s'"
  by (simp add: calm_def keeps_def handle_fields_def fun_eq_iff)

lemma for_loop_keeps:
  "for_loop i m f s = Inr s' \<Longrightarrow> (\<And>k s s'. f k s = Inr s' \<Longrightarrow> keeps s s') \<Longrightarrow> keeps s s'"
  by (erule for_loop_relates) (auto intro: keeps_trans)

lemmas recv_with_num_keeps = calm_keeps[OF recv_with_num_calm]
lemmas recv_keeps = calm_keeps[OF recv_calm]

lemma replace_receives_keeps: "replace_receives E wc s = Inr s' \<Longrightarrow> keeps s s'"
  by (auto simp: replace_receives_def bind_res_Inr_iff Let_def split: if_splits
      dest: recv_with_num_keeps recv_keeps)

lemma replace_loop_keeps: "replace_loop E da s = Inr s' \<Longrightarrow> keeps s s'"
  unfolding replace_loop_def
  by (erule for_loop_keeps) (auto simp: replace_turn_def split: if_splits dest: replace_receives_keeps)

lemma release_keeps: "release_rdma_chunk_to_pool p s = Inr s' \<Longrightarrow> keeps s s'"
  by (rule calm_keeps, rule calm_more)
    (auto simp: release_rdma_chunk_to_pool_def bind_res_Inr_iff split: if_splits)

lemma handle_event_keeps:
  assumes "handle_event Q E wc s = Inr s'"
  shows "keeps s s'"
proof -
  have free: "keeps s (free_work_chunk w s)" for w and s :: "('a, 'b) rt_scheme"
    by (simp add: free_work_chunk_def keeps_def handle_fields_def fun_eq_iff)
  have store: "keeps s s1" if "recv_store Q E wc found s = Inr s1" for found s1
    using that
    by (auto simp: recv_store_def bind_res_Inr_iff Let_def VARRY_MALLOC0_def malloc_def transport_at_def
        keeps_def handle_fields_def fun_eq_iff split: option.splits if_splits prod.splits)
  have wake: "keeps s1 s2" if "recv_wake Q t s1 = Inr s2" for t s1 s2
    using that
    by (auto simp: recv_wake_def bind_res_Inr_iff transport_at_def
        keeps_def handle_fields_def fun_eq_iff split: option.splits if_splits)
  have "keeps s s'" if "handle_send_event wc s = Inr s'"
    using that release_keeps free keeps_trans by (fastforce simp: handle_send_event_def bind_res_Inr_iff)
  moreover have "keeps s s'" if "handle_recv_event Q E wc s = Inr s'"
    using that store wake free keeps_trans
    by (simp add: handle_recv_event_def bind_res_Inr_iff) blast
  ultimately show ?thesis using assms by (auto simp: handle_event_def split: if_splits)
qed

section \<open>The order of the completions\<close>

text \<open>
  The arrays on their way from one thread to the other, oldest first: in the hands of the handle
  thread, in the queue, in the hands of the poll thread.
\<close>

definition on_the_way :: "('q \<Rightarrow> nat list) \<Rightarrow> 'q \<Rightarrow> 'q poll_sys \<Rightarrow> nat list" where
  "on_the_way items q s =
     (case hand_at s of Taken a \<Rightarrow> [a] | _ \<Rightarrow> []) @ items q @
     (case poll_at s of Polled a \<Rightarrow> [a] | Handing a \<Rightarrow> [a] | _ \<Rightarrow> [])"

definition array_ok :: "'q poll_sys \<Rightarrow> nat \<Rightarrow> bool" where
  "array_ok s a \<longleftrightarrow> a < fresh s \<and>
     (case dynarrays s a of None \<Rightarrow> False | Some da \<Rightarrow> dy_len da = int (length (dy_data da)))"

definition array_wcs :: "'q poll_sys \<Rightarrow> nat \<Rightarrow> ibv_wc list" where
  "array_wcs s a = (case dynarrays s a of None \<Rightarrow> [] | Some da \<Rightarrow> dy_data da)"

definition handover_facts ::
  "('q \<Rightarrow> nat list) \<Rightarrow> nat \<Rightarrow> ibv_wc list \<Rightarrow> 'q \<Rightarrow> int \<Rightarrow> 'q poll_sys \<Rightarrow> bool" where
  "handover_facts items t wcs q run s \<longleftrightarrow>
     handle_fields s t = Some (q, run) \<and> run \<in> {0, 1} \<and>
     distinct (on_the_way items q s) \<and> list_all (array_ok s) (on_the_way items q s) \<and>
     handled s @ concat (map (array_wcs s) (on_the_way items q s)) @ cq_rest s = wcs \<and>
     (\<forall>a. hand_at s = Seen a \<longrightarrow> head_of (items q) = Some a)"

definition handover_inv ::
  "'q gqueue_ops \<Rightarrow> ('q \<Rightarrow> nat list) \<Rightarrow> nat \<Rightarrow> ibv_wc list \<Rightarrow> 'q poll_sys \<Rightarrow> bool" where
  "handover_inv Q items t wcs s \<longleftrightarrow> gqueue Q items \<and> (\<exists>q run. handover_facts items t wcs q run s)"

definition handover_start ::
  "'q gqueue_ops \<Rightarrow> ('q \<Rightarrow> nat list) \<Rightarrow> nat \<Rightarrow> ibv_wc list \<Rightarrow> 'q poll_sys \<Rightarrow> bool" where
  "handover_start Q items t wcs s \<longleftrightarrow> gqueue Q items \<and> handle_fields s t = Some (g_queue_new Q, 0) \<and>
     cq_rest s = wcs \<and> poll_at s = Blocked \<and> hand_at s = Peeking \<and> handled s = [] \<and> died s = None"

lemma handover_start_inv: "handover_start Q items t wcs s \<Longrightarrow> handover_inv Q items t wcs s"
  unfolding handover_start_def handover_inv_def handover_facts_def
  by (intro conjI exI[of _ "g_queue_new Q"] exI[of _ 0])
    (auto simp: on_the_way_def gqueue.items_new)

lemma transport_handle_fields:
  "handle_fields s t = Some (q, run) \<longleftrightarrow>
     (\<exists>tr. transports s t = Some tr \<and> handle_queue tr = q \<and> is_handle_running tr = run)"
  by (auto simp: handle_fields_def)

lemma poll_fields:
  fixes s s1 :: "'q poll_sys"
  assumes "keeps s s1"
  shows "dynarrays s1 = dynarrays s" "cq_rest s1 = cq_rest s" "poll_at s1 = poll_at s"
    "hand_at s1 = hand_at s" "handled s1 = handled s" "died s1 = died s"
    "handle_fields s1 = handle_fields s" "fresh s \<le> fresh s1"
  using assms by (cases s; cases s1; simp add: keeps_def)+

text \<open>The facts depend on the fields of the handover only, and survive as addresses grow.\<close>

lemma handover_facts_cong:
  assumes "handover_facts items t wcs q run s" and "handle_fields s1 t = Some (q1, run1)" "run1 \<in> {0, 1}"
    and "on_the_way items q1 s1 = on_the_way items q s" and "dynarrays s1 = dynarrays s"
    and "cq_rest s1 = cq_rest s" "handled s1 = handled s" and "fresh s \<le> fresh s1"
    and "\<And>a. hand_at s1 = Seen a \<Longrightarrow> head_of (items q1) = Some a"
  shows "handover_facts items t wcs q1 run1 s1"
proof -
  have "array_wcs s1 = array_wcs s" using assms(5) by (simp add: array_wcs_def fun_eq_iff)
  moreover have "array_ok s a \<Longrightarrow> array_ok s1 a" for a
    using assms(5,8) by (auto simp: array_ok_def)
  ultimately show ?thesis
    using assms by (auto simp: handover_facts_def list_all_iff)
qed

lemma poll_batch_effect:
  fixes s s1 :: "'q poll_sys"
  assumes "poll_batch E n t k wcs s = Inr (a, s1)"
  shows "fresh s1 = Suc (fresh s)" "handle_fields s1 = handle_fields s" "cq_rest s1 = cq_rest s"
    "hand_at s1 = hand_at s" "handled s1 = handled s" "poll_at s1 = poll_at s"
    "a = (if k = 0 then None else Some (fresh s))"
    "dynarrays s1 = (dynarrays s)(fresh s := if k = 0 then None else
       Some \<lparr>dy_len = k, dy_size = of_nat MAX_EVENT_PER_POLL, dy_user_id = t, dy_data = wcs\<rparr>)"
  using assms
  by (auto simp: poll_batch_def DYNARRY_MALLOC0_def malloc_def bind_res_Inr_iff free_dynarray_def
      handle_fields_def fun_eq_iff Let_def split: if_splits prod.splits)

lemma handle_batch_effect:
  fixes s s1 :: "'q poll_sys"
  assumes "handle_batch Q E a s = Inr s1"
  shows "\<exists>s2. keeps s s2 \<and> s1 = free_dynarray a s2"
proof -
  have "keeps s s2" if "for_loop 0 m (handle_turn Q E da) s = Inr s2" for m da s2
    by (rule for_loop_keeps[OF that]) (auto simp: handle_turn_def split: if_splits dest: handle_event_keeps)
  with assms show ?thesis by (auto simp: handle_batch_def bind_res_Inr_iff)
qed

lemma handover_step_inv:
  assumes inv: "handover_inv Q items t wcs s" and step: "handover_step sp Q E n t s s'"
  shows "handover_inv Q items t wcs s'"
proof -
  from inv obtain q run where Q: "gqueue Q items" and F: "handover_facts items t wcs q run s"
    by (auto simp: handover_inv_def)
  note F' = F[unfolded handover_facts_def]
  have R: "handover_inv Q items t wcs s'" if "handover_facts items t wcs q1 run1 s'" for q1 run1
    using Q that by (auto simp: handover_inv_def)
  obtain tr where tr: "transports s t = Some tr" "handle_queue tr = q" "is_handle_running tr = run"
    using F' by (auto simp: transport_handle_fields)
  from step show ?thesis
  proof cases
    case event
    then show ?thesis
      using F' by (intro R[of q run] handover_facts_cong[OF F]) (auto simp: on_the_way_def handle_fields_def)
  next
    case event_fails
    then show ?thesis
      using F' by (intro R[of q run] handover_facts_cong[OF F]) (auto simp: on_the_way_def handle_fields_def)
  next
    case (polled k a s1)
    note e = poll_batch_effect[OF polled(6)]
    let ?ps = "on_the_way items q s"
    have new: "on_the_way items q s' = ?ps @ (if k = 0 then [] else [fresh s])"
      using polled(3) e(4,7) by (auto simp: polled(1) on_the_way_def)
    have fresh: "fresh s \<notin> set ?ps" using F' by (auto simp: list_all_iff array_ok_def)
    have old: "array_wcs s' b = array_wcs s b \<and> array_ok s' b" if "b \<in> set ?ps" for b
      using F' that fresh e(1,8) by (auto simp: array_wcs_def array_ok_def list_all_iff polled(1))
    have "concat (map (array_wcs s') (on_the_way items q s'))
        = concat (map (array_wcs s) ?ps) @ take k (cq_rest s)"
    proof -
      have "map (array_wcs s') ?ps = map (array_wcs s) ?ps" using old by simp
      moreover have "k \<noteq> 0 \<Longrightarrow> array_wcs s' (fresh s) = take k (cq_rest s)"
        using e(8) by (simp add: array_wcs_def polled(1))
      ultimately show ?thesis unfolding new by (simp cong: map_cong)
    qed
    moreover have "list_all (array_ok s') (on_the_way items q s')"
    proof -
      have "k \<noteq> 0 \<Longrightarrow> array_ok s' (fresh s)"
        using e(1,8) polled(5) by (simp add: array_ok_def polled(1))
      then show ?thesis using old unfolding new by (simp add: list_all_iff)
    qed
    moreover have "distinct (on_the_way items q s')" using F' fresh by (simp add: new)
    moreover have "handle_fields s' t = handle_fields s t"
      by (simp only: e(2)[symmetric]) (simp add: polled(1) handle_fields_def)
    moreover have "handled s' = handled s" "hand_at s' = hand_at s" "cq_rest s' = drop k (cq_rest s)"
      using e(4,5) by (simp_all add: polled(1))
    ultimately show ?thesis
      using F' by (intro R[of q run]) (simp add: handover_facts_def)
  next
    case (poll_crash rc e)
    then show ?thesis
      using F' by (intro R[of q run] handover_facts_cong[OF F]) (auto simp: on_the_way_def handle_fields_def)
  next
    case (replace a da s1)
    note e = poll_fields[OF replace_loop_keeps[OF replace(5)]]
    then show ?thesis
      using F' replace e
      by (intro R[of q run] handover_facts_cong[OF F]) (auto simp: on_the_way_def handle_fields_def fun_eq_iff)
  next
    case (replace_crash a e)
    then show ?thesis
      using F' by (intro R[of q run] handover_facts_cong[OF F]) (auto simp: on_the_way_def handle_fields_def)
  next
    case (hand a s1)
    let ?q = "g_queue_push_tail Q q a"
    have s1: "s1 = s\<lparr>transports := (transports s)(t \<mapsto> tr\<lparr>handle_queue := ?q\<rparr>)\<rparr>"
      using hand(4) tr by (simp add: hand_over_def transport_at_def)
    show ?thesis
      using F' hand(3) tr gqueue.items_push_tail[OF Q]
      by (intro R[of ?q run] handover_facts_cong[OF F])
        (auto simp: hand(1) s1 on_the_way_def handle_fields_def head_of_def split: list.splits)
  next
    case (wake signal s1)
    show ?thesis
    proof (cases "run = 0")
      case True
      then have "s1 = s\<lparr>transports := (transports s)(t \<mapsto> tr\<lparr>is_handle_running := 1\<rparr>)\<rparr>"
        using wake(4) tr by (simp add: wake_handler_def transport_at_def)
      then show ?thesis
        using F' wake(3) tr
        by (intro R[of q 1] handover_facts_cong[OF F])
          (auto simp: wake(1) on_the_way_def handle_fields_def split: if_splits hand_pc.splits)
    next
      case False
      then have "s1 = s" "\<not> signal"
        using wake(4) tr by (auto simp: wake_handler_def transport_at_def)
      then show ?thesis
        using F' wake(3) tr
        by (intro R[of q run] handover_facts_cong[OF F])
          (auto simp: wake(1) on_the_way_def handle_fields_def)
    qed
  next
    case (peek head)
    have "head = head_of (items q)"
      using peek(4) tr gqueue.peek_head[OF Q] by (simp add: handle_peek_def transport_at_def)
    then show ?thesis
      using F' peek(1,3)
      by (intro R[of q run] handover_facts_cong[OF F])
        (auto simp: on_the_way_def handle_fields_def split: option.splits)
  next
    case (sleep s1)
    then have "s1 = s\<lparr>transports := (transports s)(t \<mapsto> tr\<lparr>is_handle_running := 0\<rparr>)\<rparr>"
      using tr by (simp add: handle_sleep_def transport_at_def)
    then show ?thesis
      using F' sleep(1,3) tr
      by (intro R[of q 0] handover_facts_cong[OF F]) (auto simp: on_the_way_def handle_fields_def)
  next
    case wake_up
    then show ?thesis
      using F' by (intro R[of q run] handover_facts_cong[OF F]) (auto simp: on_the_way_def handle_fields_def)
  next
    case (pop a s1)
    let ?q = "g_queue_pop_head Q q"
    have s1: "s1 = s\<lparr>transports := (transports s)(t \<mapsto> tr\<lparr>handle_queue := ?q\<rparr>)\<rparr>"
      using pop(4) tr by (simp add: handle_pop_def transport_at_def)
    have "items q = a # items ?q"
      using F' pop(3) gqueue.items_pop_head[OF Q, of q] by (cases "items q") auto
    then show ?thesis
      using F' pop(3) tr
      by (intro R[of ?q run] handover_facts_cong[OF F]) (auto simp: pop(1) s1 on_the_way_def handle_fields_def)
  next
    case (handle a da s1)
    obtain s2 where s2: "keeps s s2" "s1 = free_dynarray a s2" using handle_batch_effect[OF handle(6)] by blast
    note e = poll_fields[OF s2(1)]
    have ps: "on_the_way items q s = a # on_the_way items q s'"
      using handle(3) e by (simp add: handle(1) s2(2) free_dynarray_def on_the_way_def)
    have da: "dynarrays s a = Some da" using handle(5) by (auto simp: dynarray_at_def split: option.splits)
    have old: "array_wcs s' b = array_wcs s b \<and> array_ok s' b" if "b \<in> set (on_the_way items q s')" for b
      using F' that e(1,8) ps
      by (auto simp: array_wcs_def array_ok_def list_all_iff handle(1) s2(2) free_dynarray_def)
    have "array_wcs s a = take (nat (dy_len da)) (dy_data da)"
      using F' ps da by (simp add: array_wcs_def array_ok_def)
    then have "handled s' @ concat (map (array_wcs s') (on_the_way items q s')) @ cq_rest s' = wcs"
      using F' ps old e(2,5)
      by (simp add: handle(1) s2(2) free_dynarray_def cong: map_cong)
    moreover have "handle_fields s' t = handle_fields s t"
      by (simp only: e(7)[symmetric]) (simp add: handle(1) s2(2) free_dynarray_def handle_fields_def)
    moreover have "hand_at s' = Peeking" by (simp add: handle(1))
    ultimately show ?thesis
      using F' ps old by (intro R[of q run]) (simp add: handover_facts_def list_all_iff)
  next
    case (handle_crash a e)
    then show ?thesis
      using F' by (intro R[of q run] handover_facts_cong[OF F]) (auto simp: on_the_way_def handle_fields_def)
  qed
qed

interpretation handover: step_system "handover_start Q items t wcs" "handover_step sp Q E n t"
  "handover_inv Q items t wcs" for Q items t wcs sp E n
  by unfold_locales (rule handover_start_inv, assumption, rule handover_step_inv)


section \<open>Two interleavings that go wrong\<close>

lemma start_steps_end:
  assumes "R a b" "R\<^sup>*\<^sup>* b c" "R c d" "R d e"
  shows "R\<^sup>*\<^sup>* a e"
  using assms by (meson converse_rtranclp_into_rtranclp rtranclp.rtrancl_into_rtrancl)

text \<open>The state once the poll thread has pushed a batch of completed sends.\<close>

definition pushed_batch :: "'q gqueue_ops \<Rightarrow> nat \<Rightarrow> 'q rdma_transport \<Rightarrow> 'q poll_sys \<Rightarrow> 'q poll_sys" where
  "pushed_batch Q t tr s =
     s\<lparr>fresh := Suc (fresh s),
       transports := (transports s)(t \<mapsto>
         tr\<lparr>handle_queue := g_queue_push_tail Q (handle_queue tr) (fresh s)\<rparr>),
       dynarrays := (dynarrays s)(fresh s \<mapsto> \<lparr>dy_len = int (length (cq_rest s)),
         dy_size = of_nat MAX_EVENT_PER_POLL, dy_user_id = t, dy_data = cq_rest s\<rparr>),
       cq_rest := [], poll_at := Waking\<rparr>"

lemma replace_loop_sends:
  assumes "list_all (\<lambda>wc. opcode wc \<noteq> IBV_WC_RECV) (dy_data da)" "dy_len da = int (length (dy_data da))"
  shows "replace_loop E da s = Inr s"
proof -
  have "\<exists>s'. for_loop 0 (length (dy_data da)) (replace_turn E da) s = Inr s' \<and> s' = s"
    by (rule for_loop_rule)
      (use assms(1) in \<open>auto simp: replace_turn_def replace_receives_def list_all_length\<close>)
  then show ?thesis by (simp add: replace_loop_def assms(2))
qed

lemma reach_pushed:
  fixes s :: "'q poll_sys"
  assumes s: "poll_at s = Blocked" "died s = None" "transports s t = Some tr"
    and wcs: "cq_rest s \<noteq> []" "length (cq_rest s) \<le> MAX_EVENT_PER_POLL"
      "list_all (\<lambda>wc. opcode wc \<noteq> IBV_WC_RECV) (cq_rest s)"
    and E: "\<And>m k. malloc_ok (env_os E) m k"
  shows "(handover_step sp Q E n t)\<^sup>*\<^sup>* s (pushed_batch Q t tr s)"
proof -
  let ?R = "handover_step sp Q E n t"
  let ?a = "fresh s"
  let ?da = "\<lparr>dy_len = int (length (cq_rest s)), dy_size = of_nat MAX_EVENT_PER_POLL,
    dy_user_id = t, dy_data = cq_rest s\<rparr>"
  let ?s1 = "s\<lparr>poll_at := Polling\<rparr>"
  let ?s2 = "s\<lparr>fresh := Suc ?a, dynarrays := (dynarrays s)(?a \<mapsto> ?da), cq_rest := [], poll_at := Polled ?a\<rparr>"
  let ?s3 = "?s2\<lparr>poll_at := Handing ?a\<rparr>"
  have "?R s ?s1" using s by (intro event)
  moreover have "?R ?s1 ?s2"
  proof -
    have "poll_batch E n t (int (length (cq_rest s))) (take (length (cq_rest s)) (cq_rest ?s1)) ?s1
        = Inr (Some ?a, ?s1\<lparr>fresh := Suc ?a, dynarrays := (dynarrays s)(?a \<mapsto> ?da)\<rparr>)"
      using wcs(1) E by (simp add: poll_batch_def DYNARRY_MALLOC0_def malloc_def)
    from polled[of ?s1, OF _ _ wcs(2) _ this, of sp Q] s show ?thesis by simp
  qed
  moreover have "?R ?s2 ?s3"
    using replace[of ?s2 ?a ?da E ?s2 sp Q n t] replace_loop_sends[of ?da E ?s2] wcs(3) s
    by (simp add: dynarray_at_def)
  moreover have "?R ?s3 (pushed_batch Q t tr s)"
  proof -
    have "hand_over Q t ?a ?s3 = Inr (?s3\<lparr>transports := (transports s)(t \<mapsto>
         tr\<lparr>handle_queue := g_queue_push_tail Q (handle_queue tr) ?a\<rparr>)\<rparr>)"
      using s(3) by (simp add: hand_over_def transport_at_def)
    from hand[of ?s3, OF _ _ this, of sp E n] s
    have "?R ?s3 (?s3\<lparr>transports := (transports s)(t \<mapsto>
         tr\<lparr>handle_queue := g_queue_push_tail Q (handle_queue tr) ?a\<rparr>), poll_at := Waking\<rparr>)" by simp
    then show ?thesis by (rule back_subst) (simp add: pushed_batch_def)
  qed
  ultimately show ?thesis
    by (rule start_steps_end[OF _ r_into_rtranclp])
qed

definition handler_stuck :: "'q poll_sys \<Rightarrow> bool" where
  "handler_stuck s \<longleftrightarrow> cq_rest s = [] \<and> poll_at s \<in> {Blocked, Polling} \<and> hand_at s = Sleeping"

lemma handler_stuck_step:
  assumes "handover_step False Q E n t s s'" "handler_stuck s"
  shows "handler_stuck s' \<and> handled s' = handled s"
  using assms
proof cases
  case (polled k a s1)
  note e = poll_batch_effect[OF polled(6)]
  have "k = 0" using polled(5) assms(2) by (simp add: handler_stuck_def)
  with e assms(2) show ?thesis by (simp add: handler_stuck_def polled(1))
qed (use assms(2) in \<open>auto simp: handler_stuck_def\<close>)

lemma handler_stuck_steps:
  assumes "(handover_step False Q E n t)\<^sup>*\<^sup>* s s'" "handler_stuck s"
  shows "handler_stuck s' \<and> handled s' = handled s"
  using assms by (induction rule: rtranclp_induct) (auto dest: handler_stuck_step)

text \<open>
  C35: A wake-up can be lost: when the handle thread has found the queue empty, but does not hold
  \<open>handle_cv_lock\<close> yet, the poll thread pushes a batch, sets \<open>is_handle_running\<close> and signals
  nobody; the handle thread then clears the flag and waits. The batch stays in the queue until the
  adapter produces another completion: no further step of the two threads handles it.
\<close>

theorem handover_loses_wakeup:
  assumes "handover_start Q items t wcs s" and "wcs \<noteq> []" "length wcs \<le> MAX_EVENT_PER_POLL"
    and "list_all (\<lambda>wc. opcode wc \<noteq> IBV_WC_RECV) wcs" and "\<And>m k. malloc_ok (env_os E) m k"
  shows "\<exists>s' q. (handover_step False Q E n t)\<^sup>*\<^sup>* s s' \<and> handle_fields s' t = Some (q, 0) \<and>
    concat (map (array_wcs s') (items q)) = wcs \<and>
    (\<forall>s''. (handover_step False Q E n t)\<^sup>*\<^sup>* s' s'' \<longrightarrow> hand_at s'' = Sleeping \<and> handled s'' = [])"
proof -
  let ?R = "handover_step False Q E n t"
  note st = assms(1)[unfolded handover_start_def]
  from st obtain tr where tr: "transports s t = Some tr" "handle_queue tr = g_queue_new Q"
      "is_handle_running tr = 0"
    by (auto simp: transport_handle_fields)
  have Q: "gqueue Q items" using st by simp
  let ?q = "g_queue_push_tail Q (g_queue_new Q) (fresh s)"
  let ?s1 = "s\<lparr>hand_at := Found_empty\<rparr>"
  let ?s2 = "pushed_batch Q t tr ?s1"
  let ?s3 = "?s2\<lparr>transports := (transports s)(t \<mapsto> tr\<lparr>handle_queue := ?q, is_handle_running := 1\<rparr>), poll_at := Polling\<rparr>"
  let ?s4 = "?s3\<lparr>transports := (transports s)(t \<mapsto> tr\<lparr>handle_queue := ?q, is_handle_running := 0\<rparr>), hand_at := Sleeping\<rparr>"
  have "?R s ?s1"
    using peek[of s Q t None False E n] st tr
    by (simp add: handle_peek_def transport_at_def gqueue.peek_head[OF Q] gqueue.items_new[OF Q])
  moreover have "?R\<^sup>*\<^sup>* ?s1 ?s2"
    using st tr assms(2-5) by (intro reach_pushed) simp_all
  moreover have "?R ?s2 ?s3"
  proof (rule back_subst[of "?R ?s2"])
    have "wake_handler t ?s2
        = Inr (True, ?s2\<lparr>transports := (transports s)(t \<mapsto> tr\<lparr>handle_queue := ?q, is_handle_running := 1\<rparr>)\<rparr>)"
      using st tr by (simp add: wake_handler_def transport_at_def pushed_batch_def)
    then show "?R ?s2 ((?s2\<lparr>transports := (transports s)(t \<mapsto> tr\<lparr>handle_queue := ?q, is_handle_running := 1\<rparr>)\<rparr>)
        \<lparr>poll_at := Polling, hand_at := if True \<and> hand_at ?s2 = Sleeping then Peeking else hand_at ?s2\<rparr>)"
      using st by (intro wake) (simp_all add: pushed_batch_def)
  qed (simp add: pushed_batch_def)
  moreover have "?R ?s3 ?s4"
    using sleep[of ?s3 t "?s3\<lparr>transports := (transports s)(t \<mapsto> tr\<lparr>handle_queue := ?q, is_handle_running := 0\<rparr>)\<rparr>" False Q E n] st tr
    by (simp add: handle_sleep_def transport_at_def pushed_batch_def)
  ultimately have "?R\<^sup>*\<^sup>* s ?s4"
    by (rule start_steps_end)
  moreover have "handler_stuck ?s4" "handled ?s4 = []"
    using st by (simp_all add: handler_stuck_def pushed_batch_def)
  moreover have "handle_fields ?s4 t = Some (?q, 0)" by (simp add: handle_fields_def)
  moreover have "concat (map (array_wcs ?s4) (items ?q)) = wcs"
    using st by (simp add: gqueue.items_push_tail[OF Q] gqueue.items_new[OF Q] array_wcs_def pushed_batch_def)
  moreover have "hand_at s'' = Sleeping \<and> handled s'' = []" if "?R\<^sup>*\<^sup>* ?s4 s''" for s''
    using handler_stuck_steps[OF that calculation(2)] calculation(3) by (simp only: handler_stuck_def simp_thms)
  ultimately show ?thesis by blast
qed

text \<open>
  The assertion \<open>is_handle_running == 1\<close> of the handle thread can fail: between the push of
  the first batch and the section that sets the flag, the handle thread, which has not waited yet,
  finds the batch, takes it and aborts the process.
\<close>

lemma handover_assertion_fails:
  assumes "handover_start Q items t wcs s" and "wcs \<noteq> []" "length wcs \<le> MAX_EVENT_PER_POLL"
    and "list_all (\<lambda>wc. opcode wc \<noteq> IBV_WC_RECV) wcs" and "\<And>m k. malloc_ok (env_os E) m k"
  shows "\<exists>s' a. (handover_step False Q E n t)\<^sup>*\<^sup>* s s' \<and> hand_at s' = Taken a \<and> array_wcs s' a = wcs \<and>
    poll_at s' = Waking \<and> handle_check t s' = Inl Aborted \<and>
    handover_step False Q E n t s' (s'\<lparr>died := Some Aborted\<rparr>)"
proof -
  let ?R = "handover_step False Q E n t"
  note st = assms(1)[unfolded handover_start_def]
  from st obtain tr where tr: "transports s t = Some tr" "handle_queue tr = g_queue_new Q"
      "is_handle_running tr = 0"
    by (auto simp: transport_handle_fields)
  have Q: "gqueue Q items" using st by simp
  let ?a = "fresh s"
  let ?q = "g_queue_push_tail Q (g_queue_new Q) ?a"
  let ?s1 = "pushed_batch Q t tr s"
  let ?s2 = "?s1\<lparr>hand_at := Seen ?a\<rparr>"
  let ?s3 = "?s2\<lparr>transports := (transports s)(t \<mapsto> tr\<lparr>handle_queue := g_queue_pop_head Q ?q\<rparr>), hand_at := Taken ?a\<rparr>"
  have "?R\<^sup>*\<^sup>* s ?s1" using st tr assms(2-5) by (intro reach_pushed) simp_all
  moreover have "?R ?s1 ?s2"
    using peek[of ?s1 Q t "Some ?a" False E n] st tr
    by (simp add: handle_peek_def transport_at_def gqueue.peek_head[OF Q] gqueue.items_new[OF Q]
        gqueue.items_push_tail[OF Q] pushed_batch_def)
  moreover have "?R ?s2 ?s3"
    using pop[of ?s2 ?a Q t "?s2\<lparr>transports := (transports s)(t \<mapsto> tr\<lparr>handle_queue := g_queue_pop_head Q ?q\<rparr>)\<rparr>" False E n] st tr
    by (simp add: handle_pop_def transport_at_def pushed_batch_def)
  moreover have c: "handle_check t ?s3 = Inl Aborted"
    using tr by (simp add: handle_check_def transport_at_def)
  moreover have "?R ?s3 (?s3\<lparr>died := Some Aborted\<rparr>)"
    using c st by (intro handle_crash) (simp_all add: pushed_batch_def)
  ultimately show ?thesis
    using st by (intro exI[of _ ?s3] exI[of _ ?a])
      (auto simp: array_wcs_def pushed_batch_def intro: rtranclp.rtrancl_into_rtrancl)
qed

section \<open>Handing over on the demo process\<close>

definition demo_poll :: "ibv_wc list \<Rightarrow> nat list poll_sys" where
  "demo_poll wcs = \<lparr>link_head = None, free_list = None, total_size = 0, free_size = 0, pool_pd = 0,
     next_of = \<lambda>_. None, mr_of = \<lambda>_. \<lparr>mr_id = 0, lkey = 0\<rparr>, header_of = \<lambda>_. demo_header,
     body_of = \<lambda>_ _. 0, buffers = Map.empty, links = Map.empty, fresh = 3, registered = [],
     work_chunks = Map.empty, varrays = Map.empty, transports = [0 \<mapsto> demo_transport],
     recv_calls = [], send_calls = [], pool_pushes = [], deliveries = [], dynarrays = Map.empty,
     cq_rest = wcs, poll_at = Blocked, hand_at = Peeking, handled = [], died = None\<rparr>"

definition demo_sent :: ibv_wc where
  "demo_sent = \<lparr>wc_wr_id = 1, status = IBV_WC_SUCCESS, opcode = IBV_WC_SEND, byte_len = 0\<rparr>"

lemma demo_poll_start: "handover_start list_gqueue (\<lambda>q. q) 0 wcs (demo_poll wcs)"
  using list_queue.gqueue_axioms
  by (simp add: handover_start_def demo_poll_def handle_fields_def demo_transport_def list_gqueue_def)


theorem handover_loses_wakeup_witness:
  "\<exists>s' q. (handover_step False list_gqueue demo_env 48 0)\<^sup>*\<^sup>* (demo_poll [demo_sent]) s' \<and>
    handle_fields s' 0 = Some (q, 0) \<and> concat (map (array_wcs s') q) = [demo_sent] \<and>
    hand_at s' = Sleeping"
proof -
  have "demo_sent # [] \<noteq> []" "length [demo_sent] \<le> MAX_EVENT_PER_POLL"
    "list_all (\<lambda>wc. opcode wc \<noteq> IBV_WC_RECV) [demo_sent]" "\<And>m k. malloc_ok (env_os demo_env) m k"
    by (simp_all add: MAX_EVENT_PER_POLL_def demo_sent_def demo_env_def demo_os_def)
  from handover_loses_wakeup[OF demo_poll_start this, of 48] show ?thesis by blast
qed

lemma handover_assertion_fails_example:
  "\<exists>s' a. (handover_step False list_gqueue demo_env 48 0)\<^sup>*\<^sup>* (demo_poll [demo_sent]) s' \<and>
    hand_at s' = Taken a \<and> handle_check 0 s' = Inl Aborted"
proof -
  have "demo_sent # [] \<noteq> []" "length [demo_sent] \<le> MAX_EVENT_PER_POLL"
    "list_all (\<lambda>wc. opcode wc \<noteq> IBV_WC_RECV) [demo_sent]" "\<And>m k. malloc_ok (env_os demo_env) m k"
    by (simp_all add: MAX_EVENT_PER_POLL_def demo_sent_def demo_env_def demo_os_def)
  from handover_assertion_fails[OF demo_poll_start this, of 48] show ?thesis by blast
qed

end
