(* ===== verification/Receive_Window.thy ===== *)
theory Receive_Window
  imports Poll Transport_Recv Wire_Messages
begin

text \<open>
  The receives that the poll thread posts in place of those that arriving messages use up: the
  loop of \<open>poll_thread\<close> over the completions of one poll, on the completions of whole messages.
\<close>

section \<open>Receives posted in place of those used up\<close>

text \<open>
  What a call that posts \<open>n\<close> receives leaves: a well-formed pool that grew by at most a block for
  each, out of which the chunks of the new receives and no others were taken; the contents of the
  chunks, the older work chunks and everything else as they were.
\<close>

definition more_receives ::
  "nat \<Rightarrow> node list \<Rightarrow> caddr list \<Rightarrow> ('q, 'z) rt_scheme \<Rightarrow> ('q, 'z) rt_scheme \<Rightarrow> bool" where
  "more_receives n ns xs s s' \<longleftrightarrow>
     (\<exists>ns' xs' new. pool_inv s' ns' xs' \<and>
        recv_calls s' = recv_calls s @ new \<and> length new = n \<and>
        set (map (\<lambda>(q, wr, rc). sg_addr wr) new) \<subseteq> set (chunk_addrs ns') - set xs' \<and>
        set (chunk_addrs ns) \<subseteq> set (chunk_addrs ns') \<and>
        set (chunk_addrs ns) - set xs = set (chunk_addrs ns') - set xs' - set (map (\<lambda>(q, wr, rc). sg_addr wr) new)) \<and>
     unat (total_size s') \<le> unat (total_size s) + 4096 * n \<and>
     transports s' = transports s \<and> header_of s' = header_of s \<and> body_of s' = body_of s \<and>
     fresh s \<le> fresh s' \<and> (\<forall>w < fresh s. work_chunks s' w = work_chunks s w) \<and>
     varrays s' = varrays s \<and> send_calls s' = send_calls s \<and> pool_pushes s' = pool_pushes s \<and>
     deliveries s' = deliveries s \<and> rt.more s' = rt.more s"

lemma recv_with_num_more:
  assumes inv: "pool_inv s ns xs" and E: "calls_succeed E"
    and tr: "transports s t = Some tr" "rc_qp tr = Some qp"
    and num: "num \<noteq> 0" and room: "unat (total_size s) + 4096 * unat num < 2 ^ 32"
  shows "\<exists>s'. rdma_transport_recv_with_num E t num s = Inr s' \<and> more_receives (unat num) ns xs s s'"
proof -
  have "unat num \<le> 2 ^ 30" using room by simp
  moreover have r: "round_up (unat num - length xs) \<le> 4096 * unat num"
    using round_up_le[of "unat num - length xs"] by linarith
  then have bound: "unat (total_size s) + round_up (unat num - length xs) < 2 ^ 32" using room by linarith
  ultimately obtain p s1 ns' xs' cs s2 wrs where
    get: "get_rdma_chunk_list_from_pool (env_os E) num s = Inr (Some p, s1)"
    and c: "pool_inv s1 ns' xs'" "length cs = unat num" "set cs \<subseteq> set (chunk_addrs ns') - set xs'"
      "set (chunk_addrs ns) \<subseteq> set (chunk_addrs ns')" "set (chunk_addrs ns) - set xs = set (chunk_addrs ns') - set xs' - set cs"
    and s2: "s2 = s1\<lparr>fresh := Suc (Suc (fresh s1))\<rparr>" and wrs: "wrs = map (receive_wr s2 cs) [0..<length cs]"
    and run: "rdma_transport_recv_with_num E t num s = Inr (posted E qp wrs (length cs) (built t cs (length cs) s2))"
    by (rule recv_with_num_run[OF inv E tr num, of thesis]) blast
  note frame = get_list_frame[OF get] rt_fields_cong[OF get_list_frame(3)[OF get]]
  let ?s4 = "posted E qp wrs (length cs) (built t cs (length cs) s2)"
  let ?new = "map (\<lambda>i. (qp, wrs ! i, ibv_post_recv E (length (recv_calls s) + i) qp (wrs ! i))) [0..<length cs]"
  have "pool_inv ?s4 ns' xs'"
    by (rule pool_inv_cong[OF c(1)]) (simp_all add: posted_def built_def s2)
  moreover have "unat (total_size ?s4) \<le> unat (total_size s) + 4096 * unat num"
    using get_list_total[OF inv bound get] r by (simp add: posted_def built_def s2)
  moreover have "map (\<lambda>(q, wr, rc). sg_addr wr) ?new = cs"
    by (rule nth_equalityI) (simp_all add: wrs receive_wr_def)
  moreover have "recv_calls ?s4 = recv_calls s @ ?new" using frame by (simp add: posted_def built_def s2)
  ultimately have "more_receives (unat num) ns xs s ?s4"
    using c(2-5) frame unfolding more_receives_def
    by (intro conjI exI[of _ ns'] exI[of _ xs'] exI[of _ ?new]) (simp_all add: posted_def built_def s2)
  with run show ?thesis by blast
qed

lemma get_chunk_succeeds:
  assumes inv: "pool_inv s ns xs" and E: "calls_succeed E"
    and room: "unat (total_size s) + 4096 < 2 ^ 32"
  shows "\<exists>c s' ns' xs'. get_rdma_chunk_from_pool (env_os E) s = Inr (Some c, s') \<and> pool_inv s' ns' xs' \<and>
    c \<in> set (chunk_addrs ns') - set xs' \<and>
    set (chunk_addrs ns) \<subseteq> set (chunk_addrs ns') \<and>
    set (chunk_addrs ns) - set xs = set (chunk_addrs ns') - set xs' - {c} \<and>
    unat (total_size s') \<le> unat (total_size s) + 4096"
proof (cases xs)
  case (Cons a as)
  then have inv': "pool_inv s ns (a # as)" using inv by simp
  show ?thesis
    using pop_chunk_Cons(2)[OF inv'] pool_invD(4,5,8)[OF inv'] Cons
    by (auto simp: get_chunk_Cons[OF inv'] popped_def intro!: exI[of _ ns] exI[of _ as])
next
  case Nil
  then have inv': "pool_inv s ns []" using inv by simp
  obtain s1 where app: "append_rdma_buffer_pool (env_os E) RDMA_BUFFER_SIZE s = Inr (0, s1)"
    using append_succeeds[OF E, of RDMA_BUFFER_SIZE s] by auto
  have "unat (total_size s) + round_up (unat RDMA_BUFFER_SIZE) < 2 ^ 32" using room by simp
  with app inv' show ?thesis
  proof (cases rule: append_cases)
    case failed
    then show ?thesis by simp
  next
    case (ok mr)
    let ?b = "Suc (fresh s)" and ?ns = "(fresh s, Suc (fresh s), 4096) # ns"
    have "block_addrs ?b 4096 = (?b, 0) # block_tail ?b 4096"
      by (simp add: block_addrs_Cons)
    with ok(4) have inv1: "pool_inv s1 ?ns ((?b, 0) # block_tail ?b 4096)" by simp
    have "pool_inv (popped (?b, 0) s1) ?ns (block_tail ?b 4096)"
      by (rule pop_chunk_Cons(2)[OF inv1])
    moreover have "unat (total_size (popped (?b, 0) s1)) = unat (total_size s) + 4096"
      using pool_invD(7)[OF inv1] pool_invD(7)[OF inv] by (simp add: popped_def)
    moreover have "get_rdma_chunk_from_pool (env_os E) s = Inr (Some (?b, 0), popped (?b, 0) s1)"
      by (simp add: get_chunk_Nil[OF inv'] app pop_chunk_Cons(1)[OF inv1])
    moreover have "set (chunk_addrs ns) - set xs = set (chunk_addrs ?ns) - set (block_tail ?b 4096) - {(?b, 0)}"
      using pool_invD(3)[OF inv] block_addrs_Cons[of 4096 ?b] by (fastforce simp: Nil in_chunk_addrs block_tail_def)
    moreover have "(?b, 0) \<in> set (chunk_addrs ?ns) - set (block_tail ?b 4096)" by (auto simp: block_tail_def)
    moreover have "set (chunk_addrs ns) \<subseteq> set (chunk_addrs ?ns)" by simp
    ultimately show ?thesis by (metis order_refl)
  qed
qed

lemma recv_more:
  assumes inv: "pool_inv s ns xs" and E: "calls_succeed E"
    and tr: "transports s t = Some tr" "rc_qp tr = Some qp"
    and room: "unat (total_size s) + 4096 < 2 ^ 32"
  shows "\<exists>s'. rdma_transport_recv E t s = Inr (0, s') \<and> more_receives 1 ns xs s s'"
proof -
  let ?wc = "\<lambda>c. (work_chunks s)(fresh s \<mapsto> \<lparr>wc_transport = t, wc_chunk = c, wc_len = RDMA_CHUNK_SIZE\<rparr>)"
  let ?s1 = "s\<lparr>fresh := Suc (fresh s), work_chunks := ?wc None\<rparr>"
  have "pool_inv ?s1 ns xs" by (rule pool_inv_cong[OF inv]) simp_all
  from get_chunk_succeeds[OF this E] room obtain c s2 ns' xs' where
    g: "get_rdma_chunk_from_pool (env_os E) ?s1 = Inr (Some c, s2)" "pool_inv s2 ns' xs'"
      "c \<in> set (chunk_addrs ns') - set xs'" "set (chunk_addrs ns) \<subseteq> set (chunk_addrs ns')"
      "set (chunk_addrs ns) - set xs = set (chunk_addrs ns') - set xs' - {c}"
      "unat (total_size s2) \<le> unat (total_size s) + 4096"
    by auto
  note frame = get_chunk_frame[OF g(1)] rt_fields_cong[OF get_chunk_frame(1)[OF g(1)]]
  let ?wr = "\<lparr>wr_id = fresh s, sg_addr = c, sg_length = RDMA_CHUNK_SIZE, sg_lkey = lkey (mr_of s2 c), num_sge = 1\<rparr>"
  let ?s3 = "s2\<lparr>work_chunks := (work_chunks s2)(fresh s \<mapsto> \<lparr>wc_transport = t, wc_chunk = Some c, wc_len = RDMA_CHUNK_SIZE\<rparr>),
    recv_calls := recv_calls s2 @ [(qp, ?wr, ibv_post_recv E (length (recv_calls s2)) qp ?wr)]\<rparr>"
  have "chunk_live s2 c" by (rule pool_invD(9)[OF g(2)]) (use g(3) in simp)
  then have "rdma_transport_recv E t s = Inr (0, ?s3)"
    using tr E frame
    by (simp add: rdma_transport_recv_def new_work_chunk_def g(1) chunk_at_def transport_at_def
        post_recv_def Let_def)
  moreover have "pool_inv ?s3 ns' xs'" by (rule pool_inv_cong[OF g(2)]) simp_all
  ultimately show ?thesis
    using g(3-6) frame unfolding more_receives_def
    by (intro exI[of _ ?s3] conjI exI[of _ ns'] exI[of _ xs']
        exI[of _ "[(qp, ?wr, ibv_post_recv E (length (recv_calls s2)) qp ?wr)]"]) simp_all
qed


text \<open>What a completion asks for: the first chunk of a message, a receive for each of its chunks.\<close>

definition asks :: "(caddr \<Rightarrow> rdma_chunk_header) \<Rightarrow> arrival \<Rightarrow> nat" where
  "asks H a = (case a of (wc, c) \<Rightarrow>
     if opcode wc = IBV_WC_RECV \<and> chunk_id (H c) = 0 then unat (chunk_num (H c)) else 0)"

lemma more_receives_refl: "pool_inv s ns xs \<Longrightarrow> more_receives 0 ns xs s s"
  unfolding more_receives_def by (intro conjI exI[of _ ns] exI[of _ xs] exI[of _ "[]"]) simp_all

lemma replace_one:
  assumes inv: "pool_inv s ns xs" and E: "calls_succeed E"
    and tr: "transports s t = Some tr" "rc_qp tr = Some qp"
    and w: "work_chunks s (wc_wr_id wc) = Some w" "wc_transport w = t" "wc_chunk w = Some c" "chunk_live s c"
    and nz: "opcode wc = IBV_WC_RECV \<Longrightarrow> chunk_num (header_of s c) \<noteq> 0"
    and room: "unat (total_size s) + 4096 * asks (header_of s) (wc, c) < 2 ^ 32"
  shows "\<exists>s'. replace_receives E wc s = Inr s' \<and> more_receives (asks (header_of s) (wc, c)) ns xs s s'"
proof (cases "opcode wc = IBV_WC_RECV \<and> chunk_id (header_of s c) = 0")
  case False
  then have "replace_receives E wc s = Inr s"
    using w(4) by (auto simp: replace_receives_def work_chunk_at_def w chunk_at_def)
  with False more_receives_refl[OF inv] show ?thesis by (auto simp: asks_def)
next
  case True
  then have asks: "asks (header_of s) (wc, c) = unat (chunk_num (header_of s c))" by (simp add: asks_def)
  show ?thesis
  proof (cases "chunk_num (header_of s c) = 1")
    case one: True
    from recv_more[OF inv E tr] room obtain s' where
      "rdma_transport_recv E t s = Inr (0, s')" "more_receives 1 ns xs s s'" by (auto simp: asks one)
    then show ?thesis
      using w(4) True by (auto simp: replace_receives_def work_chunk_at_def w chunk_at_def asks one)
  next
    case False
    from recv_with_num_more[OF inv E tr nz] room True obtain s' where
      "rdma_transport_recv_with_num E t (chunk_num (header_of s c)) s = Inr s'"
      "more_receives (unat (chunk_num (header_of s c))) ns xs s s'" by (auto simp: asks)
    then show ?thesis
      using w(4) True False by (auto simp: replace_receives_def work_chunk_at_def w chunk_at_def asks)
  qed
qed

text \<open>The completions \<open>arr\<close> belong to receives of \<open>t\<close> whose chunks are out.\<close>

definition receives_of :: "nat \<Rightarrow> arrival list \<Rightarrow> node list \<Rightarrow> caddr list \<Rightarrow> ('q, 'z) rt_scheme \<Rightarrow> bool" where
  "receives_of t arr ns xs s \<longleftrightarrow> list_all (\<lambda>(wc, c). wc_wr_id wc < fresh s \<and>
     c \<in> set (chunk_addrs ns) - set xs \<and>
     map_option (\<lambda>w. (wc_transport w, wc_chunk w)) (work_chunks s (wc_wr_id wc)) = Some (t, Some c)) arr"

lemma receives_of_more:
  assumes "receives_of t arr ns xs s" and "fresh s \<le> fresh s'"
    and "\<forall>w < fresh s. work_chunks s' w = work_chunks s w"
    and "set (chunk_addrs ns) - set xs \<subseteq> set (chunk_addrs ns') - set xs'"
  shows "receives_of t arr ns' xs' s'"
  using assms by (fastforce simp: receives_of_def list_all_iff)

text \<open>The state after \<open>i\<close> turns of the loop.\<close>

definition window_inv ::
  "nat \<Rightarrow> 'q rdma_transport \<Rightarrow> arrival list \<Rightarrow> ('q, 'z) rt_scheme \<Rightarrow> nat \<Rightarrow> ('q, 'z) rt_scheme \<Rightarrow> bool" where
  "window_inv t tr arr s0 i s \<longleftrightarrow>
     (\<exists>ns xs. pool_inv s ns xs \<and> receives_of t arr ns xs s) \<and>
     transports s t = Some tr \<and> header_of s = header_of s0 \<and>
     unat (total_size s) \<le> unat (total_size s0) + 4096 * sum_list (map (asks (header_of s0)) (take i arr)) \<and>
     length (recv_calls s) = length (recv_calls s0) + sum_list (map (asks (header_of s0)) (take i arr))"

lemma sum_take_le: "i < length as \<Longrightarrow> sum_list (map f (take i as)) + f (as ! i) \<le> sum_list (map (f :: 'a \<Rightarrow> nat) as)"
proof -
  assume i: "i < length as"
  then have "as = take i as @ as ! i # drop (Suc i) as" by (simp add: Cons_nth_drop_Suc)
  then have "sum_list (map f as) = sum_list (map f (take i as @ as ! i # drop (Suc i) as))" by simp
  then show ?thesis by simp
qed

lemma window_turn:
  assumes E: "calls_succeed E" and qp: "rc_qp tr = Some qp" and i: "i < length arr"
    and da: "dy_data da = map fst arr"
    and nz: "list_all (\<lambda>(wc, c). opcode wc = IBV_WC_RECV \<longrightarrow> chunk_num (header_of s0 c) \<noteq> 0) arr"
    and room: "unat (total_size s0) + 4096 * sum_list (map (asks (header_of s0)) arr) < 2 ^ 32"
    and P: "window_inv t tr arr s0 i s"
  shows "\<exists>s'. replace_turn E da i s = Inr s' \<and> window_inv t tr arr s0 (Suc i) s'"
proof -
  let ?H = "header_of s0"
  obtain wc c where a: "arr ! i = (wc, c)" by (cases "arr ! i")
  from P obtain ns xs where inv: "pool_inv s ns xs" and R: "receives_of t arr ns xs s"
    and tr: "transports s t = Some tr" and H: "header_of s = ?H"
    and tot: "unat (total_size s) \<le> unat (total_size s0) + 4096 * sum_list (map (asks ?H) (take i arr))"
    and num: "length (recv_calls s) = length (recv_calls s0) + sum_list (map (asks ?H) (take i arr))"
    by (auto simp: window_inv_def)
  have turn: "replace_turn E da i s = replace_receives E wc s" using i da a by (simp add: replace_turn_def)
  have Suc: "sum_list (map (asks ?H) (take (Suc i) arr)) = sum_list (map (asks ?H) (take i arr)) + asks ?H (wc, c)"
    using i a by (simp add: take_Suc_conv_app_nth)
  have m: "(wc, c) \<in> set arr" using i a by (metis nth_mem)
  from R m obtain w where w: "work_chunks s (wc_wr_id wc) = Some w" "wc_transport w = t" "wc_chunk w = Some c"
      "c \<in> set (chunk_addrs ns)"
    by (auto simp: receives_of_def list_all_iff)
  have live: "chunk_live s c" by (rule pool_invD(9)[OF inv w(4)])
  have next': "window_inv t tr arr s0 (Suc i) s'" if "more_receives (asks ?H (wc, c)) ns xs s s'" for s'
  proof -
    from that obtain ns' xs' where m: "pool_inv s' ns' xs'"
        "set (chunk_addrs ns) - set xs \<subseteq> set (chunk_addrs ns') - set xs'"
      and f: "fresh s \<le> fresh s'" "\<forall>w < fresh s. work_chunks s' w = work_chunks s w"
      unfolding more_receives_def by (metis Diff_subset)
    have "receives_of t arr ns' xs' s'" by (rule receives_of_more[OF R f m(2)])
    then show ?thesis
      using m(1) that tr H tot num unfolding window_inv_def Suc by (auto simp: more_receives_def)
  qed
  have "asks ?H (wc, c) \<noteq> 0 \<Longrightarrow> chunk_num (?H c) \<noteq> 0" "opcode wc = IBV_WC_RECV \<Longrightarrow> chunk_num (?H c) \<noteq> 0"
    using nz m by (auto simp: list_all_iff asks_def)
  moreover have "unat (total_size s) + 4096 * asks ?H (wc, c) < 2 ^ 32"
    using tot room sum_take_le[OF i, of "asks ?H"] by (simp add: a)
  ultimately obtain s' where "replace_receives E wc s = Inr s'" "more_receives (asks ?H (wc, c)) ns xs s s'"
    using replace_one[OF inv E tr qp w(1-3) live] by (auto simp: H)
  then show ?thesis using next' by (auto simp: turn)
qed

lemma replace_loop_asks:
  assumes "calls_succeed E" and "transports s t = Some tr" "rc_qp tr = Some qp"
    and "pool_inv s ns xs" and "receives_of t arr ns xs s"
    and "dy_data da = map fst arr" and len: "dy_len da = int (length arr)"
    and "list_all (\<lambda>(wc, c). opcode wc = IBV_WC_RECV \<longrightarrow> chunk_num (header_of s c) \<noteq> 0) arr"
    and "unat (total_size s) + 4096 * sum_list (map (asks (header_of s)) arr) < 2 ^ 32"
  shows "\<exists>s'. replace_loop E da s = Inr s' \<and> window_inv t tr arr s (length arr) s'"
proof -
  have "\<exists>s'. for_loop 0 (length arr) (replace_turn E da) s = Inr s' \<and> window_inv t tr arr s (0 + length arr) s'"
  proof (rule for_loop_rule)
    show "window_inv t tr arr s 0 s" using assms(2,4,5) by (auto simp: window_inv_def)
  qed (use window_turn[OF assms(1,3) _ assms(6,8,9)] in auto)
  then show ?thesis by (simp add: replace_loop_def len)
qed

section \<open>What messages ask for\<close>

lemma sum_by_id:
  "sum_list (map (f \<circ> snd) fs) = (\<Sum>d\<in>fst ` set fs. sum_list (map (f :: caddr \<Rightarrow> nat) (of_id d fs)))"
proof (induction fs)
  case Nil
  then show ?case by simp
next
  case (Cons x fs)
  let ?g = "\<lambda>d. sum_list (map f (of_id d fs))"
  have o: "of_id d (x # fs) = (if d = fst x then snd x # of_id d fs else of_id d fs)" for d
    by (simp add: of_id_def)
  have z: "?g d = 0" if "d \<notin> fst ` set fs" for d
    using that by (simp add: of_id_empty)
  have "(\<Sum>d\<in>insert (fst x) (fst ` set fs). sum_list (map f (of_id d (x # fs))))
      = (\<Sum>d\<in>insert (fst x) (fst ` set fs). (if d = fst x then f (snd x) else 0) + ?g d)"
    by (rule sum.cong) (simp_all add: o)
  also have "\<dots> = f (snd x) + (\<Sum>d\<in>insert (fst x) (fst ` set fs). ?g d)"
    by (simp add: sum.distrib)
  also have "(\<Sum>d\<in>insert (fst x) (fst ` set fs). ?g d) = (\<Sum>d\<in>fst ` set fs. ?g d)"
    using z by (simp add: sum.insert_if)
  finally show ?case using Cons.IH by simp
qed

lemma carries_asks:
  assumes "carries H B old did p cs" and "length p < 2 ^ 31" "p \<noteq> []"
  shows "sum_list (map (\<lambda>c. if chunk_id (H c) = 0 then unat (chunk_num (H c)) else 0) cs) = length cs"
proof -
  let ?f = "\<lambda>c. if chunk_id (H c) = 0 then unat (chunk_num (H c)) else 0"
  let ?n = "frame_count (length p)"
  have n: "length cs = ?n" "0 < ?n" using assms frame_count_pos[of "length p"] by (auto simp: carries_def)
  have lt: "?n < 2 ^ 32" using frame_count_bounds(2)[of "length p"] assms(2)
    by (simp add: body_size_def)
  have id: "(of_nat i :: u32) = 0 \<longleftrightarrow> i = 0" if "i < ?n" for i
    using that lt by (auto dest!: arg_cong[of _ _ unat] simp: unat_of_nat_small)
  have "?f (cs ! i) = (if i = 0 then ?n else 0)" if "i < ?n" for i
    using carries_chunk(1)[OF assms(1), of i] that n id[OF that] lt
    by (cases "i = 0") (auto simp: frame_header_def unat_of_nat_small)
  then have "map ?f cs = map (\<lambda>i. if i = 0 then ?n else 0) [0..<?n]"
    using n by (intro nth_equalityI) simp_all
  also have "\<dots> = ?n # map (\<lambda>i. 0) [1..<?n]"
    using n(2) by (simp add: upt_conv_Cons)
  finally show ?thesis by (simp add: n(1) del: upt_Suc)
qed

lemma messages_ask:
  assumes "messages_arrive H B old msgs arr"
  shows "sum_list (map (asks H) arr) = length (frames H arr)"
proof -
  let ?fs = "frames H arr"
  let ?f = "\<lambda>c. if chunk_id (H c) = 0 then unat (chunk_num (H c)) else 0"
  have each: "sum_list (map ?f (of_id d ?fs)) = length (of_id d ?fs)" if d: "d \<in> fst ` set ?fs" for d
  proof -
    from d assms obtain p where "(d, p) \<in> set msgs"
      by (force simp: messages_arrive_def list_all_iff)
    with assms carries_asks show ?thesis by (fastforce simp: messages_arrive_def list_all_iff)
  qed
  have "sum_list (map (asks H) arr) = sum_list (map (?f \<circ> snd) ?fs)"
    by (induction arr) (auto simp: asks_def frames_def)
  also have "\<dots> = (\<Sum>d\<in>fst ` set ?fs. length (of_id d ?fs))"
    using each by (simp only: sum_by_id) (rule sum.cong, simp_all)
  also have "\<dots> = sum_list (map ((\<lambda>_. 1) \<circ> snd) ?fs)"
    unfolding sum_by_id by (simp add: sum_list_triv)
  also have "\<dots> = length ?fs" by (simp add: comp_def sum_list_triv)
  finally show ?thesis .
qed


section \<open>The window on the demo receiver\<close>

definition demo_window :: "nat list recv_sys" where
  "demo_window = demo_recv\<lparr>fresh := 9\<rparr>"

lemma demo_window_inv:
  "\<exists>ns. pool_inv demo_window ns (demo_free 4096) \<and> receives_of 0 demo_arr ns (demo_free 4096) demo_window"
proof -
  obtain ns where ns: "pool_inv demo_recv ns (demo_free 4096)" "chunk_addrs ns = block_addrs 1 4096"
    using demo_recv_wf by (auto simp: pool_wf_def)
  have "fresh demo_recv = 2" by (simp add: demo_recv_def popped_def grown_def demo_recv0_def Let_def)
  then have "pool_inv demo_window ns (demo_free 4096)"
    by (intro pool_inv_cong[OF ns(1)]) (simp_all add: demo_window_def)
  moreover have "receives_of 0 demo_arr ns (demo_free 4096) demo_window"
    by (simp add: receives_of_def demo_window_def demo_arr_def demo_wc_def ns(2))
      (simp add: demo_recv0_def)
  ultimately show ?thesis by blast
qed


end
