(* ===== verification/Receive_Sections.thy ===== *)
theory Receive_Sections
  imports Wire_Messages
begin

text \<open>
  The functions that \<open>Receive\<close> composes as the code does are runs of the step relation of
  \<open>Receive_Threads\<close> over their locked sections.
\<close>

section \<open>Functions of the process in the system of threads\<close>

text \<open>Functions of the process do not see the fields that only the system of threads has.\<close>

definition with_sys :: "ibv_wc list \<Rightarrow> handler_pc \<Rightarrow> (nat \<Rightarrow> worker_pc) \<Rightarrow> 'q recv_sys \<Rightarrow> 'q recv_sys" where
  "with_sys td h ws s = s\<lparr>todo := td, hpc := h, workers := ws\<rparr>"

abbreviation "lift_sys td h ws \<equiv> map_sum id (with_sys td h ws)"

lemma with_sys_fields [simp]:
  "work_chunks (with_sys td h ws s) = work_chunks s" "varrays (with_sys td h ws s) = varrays s"
  "transports (with_sys td h ws s) = transports s" "pool_pushes (with_sys td h ws s) = pool_pushes s"
  "deliveries (with_sys td h ws s) = deliveries s" "fresh (with_sys td h ws s) = fresh s"
  "header_of (with_sys td h ws s) = header_of s" "body_of (with_sys td h ws s) = body_of s"
  "buffers (with_sys td h ws s) = buffers s" "next_of (with_sys td h ws s) = next_of s"
  "free_list (with_sys td h ws s) = free_list s" "free_size (with_sys td h ws s) = free_size s"
  "todo (with_sys td h ws s) = td" "hpc (with_sys td h ws s) = h" "workers (with_sys td h ws s) = ws"
  by (simp_all add: with_sys_def)

lemma with_sys_updates [simp]:
  "(with_sys td h ws s)\<lparr>work_chunks := a\<rparr> = with_sys td h ws (s\<lparr>work_chunks := a\<rparr>)"
  "(with_sys td h ws s)\<lparr>varrays := b\<rparr> = with_sys td h ws (s\<lparr>varrays := b\<rparr>)"
  "(with_sys td h ws s)\<lparr>transports := c\<rparr> = with_sys td h ws (s\<lparr>transports := c\<rparr>)"
  "(with_sys td h ws s)\<lparr>pool_pushes := d\<rparr> = with_sys td h ws (s\<lparr>pool_pushes := d\<rparr>)"
  "(with_sys td h ws s)\<lparr>deliveries := e\<rparr> = with_sys td h ws (s\<lparr>deliveries := e\<rparr>)"
  "(with_sys td h ws s)\<lparr>fresh := f\<rparr> = with_sys td h ws (s\<lparr>fresh := f\<rparr>)"
  "(with_sys td h ws s)\<lparr>next_of := g\<rparr> = with_sys td h ws (s\<lparr>next_of := g\<rparr>)"
  "(with_sys td h ws s)\<lparr>free_list := i\<rparr> = with_sys td h ws (s\<lparr>free_list := i\<rparr>)"
  "(with_sys td h ws s)\<lparr>free_size := j\<rparr> = with_sys td h ws (s\<lparr>free_size := j\<rparr>)"
  "with_sys td h ws (with_sys td' h' ws' s) = with_sys td h ws s"
  by (simp_all add: with_sys_def)

lemma with_sys_reads [simp]:
  "chunk_at (with_sys td h ws s) p = chunk_at s p"
  "work_chunk_at (with_sys td h ws s) w = work_chunk_at s w"
  "varray_at (with_sys td h ws s) v = varray_at s v"
  "transport_at (with_sys td h ws s) t = transport_at s t"
  "compare_func (with_sys td h ws s) = compare_func s"
  by (simp_all add: chunk_at_def chunk_live_def work_chunk_at_def varray_at_def transport_at_def
      compare_func_def fun_eq_iff split: option.split)

lemma bind_lift:
  "(\<And>x. m = Inr x \<Longrightarrow> f x = map_sum id g (f' x)) \<Longrightarrow> bind_res m f = map_sum id g (bind_res m f')"
  by (cases m) simp_all

lemma release_lift:
  "release_rdma_chunk_to_pool p (with_sys td h ws s) = lift_sys td h ws (release_rdma_chunk_to_pool p s)"
  by (auto simp: release_rdma_chunk_to_pool_def intro!: bind_lift)

lemma recv_find_lift: "recv_find Q wc (with_sys td h ws s) = recv_find Q wc s"
  by (simp add: recv_find_def Let_def cong: if_cong)

lemma recv_store_lift:
  "recv_store Q E wc found (with_sys td h ws s) = lift_sys td h ws (recv_store Q E wc found s)"
  unfolding recv_store_def
  by (auto simp: VARRY_MALLOC0_def malloc_def Let_def intro!: bind_lift split: option.split)

lemma recv_wake_lift: "recv_wake Q t (with_sys td h ws s) = lift_sys td h ws (recv_wake Q t s)"
  unfolding recv_wake_def by (auto intro!: bind_lift split: option.split)

lemma handle_send_event_lift:
  "handle_send_event wc (with_sys td h ws s) = lift_sys td h ws (handle_send_event wc s)"
  unfolding handle_send_event_def
  by (auto simp: release_lift free_work_chunk_def bind_res_def intro!: bind_lift split: sum.split)

lemma work_take_lift:
  "work_take Q t (with_sys td h ws s) = map_sum id (apsnd (with_sys td h ws)) (work_take Q t s)"
  unfolding work_take_def Let_def by (auto intro!: bind_lift split: option.split)

lemma sum_turn_lift: "sum_turn va (with_sys td h ws s) = sum_turn va s"
  by (simp add: sum_turn_def fun_eq_iff)

lemma region_turn_lift: "region_turn va (with_sys td h ws s) = region_turn va s"
  by (simp add: region_turn_def Let_def fun_eq_iff cong: if_cong)

lemma release_loop_lift:
  "for_loop i m (release_turn va) (with_sys td h ws s) = lift_sys td h ws (for_loop i m (release_turn va) s)"
proof (induction m arbitrary: i s)
  case 0
  then show ?case by simp
next
  case (Suc m)
  have "release_turn va i (with_sys td h ws s) = lift_sys td h ws (release_turn va i s)"
    unfolding release_turn_def by (auto intro!: bind_lift simp: release_lift)
  then show ?case by (cases "release_turn va i s") (simp_all add: Suc.IH)
qed

lemma work_message_lift:
  "work_message t v (with_sys td h ws s) = lift_sys td h ws (work_message t v s)"
  unfolding work_message_def Let_def
  by (auto simp: sum_turn_lift region_turn_lift intro!: bind_lift)
    (auto simp: release_loop_lift bind_res_def split: sum.split)


lemma recv_sys_as_with: "s\<lparr>todo := td\<rparr> = with_sys td (hpc s) (workers s) s"
  "s\<lparr>hpc := h\<rparr> = with_sys (todo s) h (workers s) s"
  "s\<lparr>workers := ws\<rparr> = with_sys (todo s) (hpc s) ws s"
  by (simp_all add: with_sys_def)

lemma keeps_sys:
  "rt.more s' = rt.more s \<Longrightarrow> with_sys (todo s) (hpc s) (workers s) s' = s'"
  for s s' :: "'q recv_sys"
  by (cases s; cases s') (simp add: with_sys_def)

section \<open>Runs of the functions\<close>

text \<open>\<open>handle_event\<close> is a run of the handle thread from \<open>Waiting\<close> to \<open>Waiting\<close>, or to its death.\<close>

definition handler_ends :: "ibv_wc list \<Rightarrow> 'q recv_sys res \<Rightarrow> 'q recv_sys \<Rightarrow> bool" where
  "handler_ends rest r s' \<longleftrightarrow>
     (case r of Inr s1 \<Rightarrow> s' = s1\<lparr>todo := rest\<rparr> | Inl e \<Rightarrow> hpc s' = Handler_crashed e)"

lemma handle_recv_steps:
  fixes s :: "'q recv_sys"
  assumes pc: "hpc s = Waiting" "todo s = wc # rest" and ok: "status wc = IBV_WC_SUCCESS" "opcode wc = IBV_WC_RECV"
  shows "\<exists>s'. (recv_step Q E)\<^sup>*\<^sup>* s s' \<and> handler_ends rest (handle_recv_event Q E wc s) s'"
proof -
  let ?R = "recv_step Q E"
  let ?w = "workers s"
  have crash: ?thesis if "?R\<^sup>*\<^sup>* s s2" "?R s2 (s2\<lparr>hpc := Handler_crashed e\<rparr>)" "handle_recv_event Q E wc s = Inl e"
    for s2 e
    using that by (intro exI[of _ "s2\<lparr>hpc := Handler_crashed e\<rparr>"]) (auto simp: handler_ends_def)
  show ?thesis
  proof (cases "recv_find Q wc s")
    case (Inl e)
    then have "handle_recv_event Q E wc s = Inl e"
      by (auto simp: handle_recv_event_def recv_find_def bind_res_def split: sum.splits)
    with crash[of s e] look_crash[OF pc ok Inl] show ?thesis by simp
  next
    case (Inr found)
    let ?s1 = "with_sys rest (Looked wc found) ?w s"
    have "?R s ?s1" using look[OF pc ok Inr] by (simp add: with_sys_def)
    then have r1: "?R\<^sup>*\<^sup>* s ?s1" by blast
    obtain w where w: "work_chunk_at s (wc_wr_id wc) = Inr w"
      using Inr by (auto simp: recv_find_def bind_res_Inr_iff)
    show ?thesis
    proof (cases "recv_store Q E wc found s")
      case (Inl e)
      then have "handle_recv_event Q E wc s = Inl e" using Inr w by (simp add: handle_recv_event_def)
      moreover have "?R ?s1 (?s1\<lparr>hpc := Handler_crashed e\<rparr>)"
        using Inl by (intro store_crash[of _ wc found]) (simp_all add: recv_store_lift)
      ultimately show ?thesis using crash[OF r1] by blast
    next
      case st: (Inr s2)
      let ?s2 = "with_sys rest (Stored wc) ?w s2"
      have "?R ?s1 ?s2"
      proof -
        have "?R ?s1 ((with_sys rest (Looked wc found) ?w s2)\<lparr>hpc := Stored wc\<rparr>)"
          using st by (intro store[of _ wc found]) (simp_all add: recv_store_lift)
        then show ?thesis by (rule back_subst) (simp add: with_sys_def)
      qed
      with r1 have r2: "?R\<^sup>*\<^sup>* s ?s2" by simp
      have more: "rt.more s2 = rt.more s" and w2: "work_chunk_at s2 (wc_wr_id wc) = Inr w"
        using st w by (auto simp: recv_store_def bind_res_Inr_iff Let_def VARRY_MALLOC0_def malloc_def
            work_chunk_at_def split: option.splits if_splits prod.splits)
      show ?thesis
      proof (cases "recv_wake Q (wc_transport w) s2")
        case (Inl e)
        then have "handle_recv_event Q E wc s = Inl e" using \<open>recv_find Q wc s = Inr found\<close> w st
          by (simp add: handle_recv_event_def)
        moreover have "?R ?s2 (?s2\<lparr>hpc := Handler_crashed e\<rparr>)"
          using Inl w2 by (intro wake_crash[of _ wc]) (simp_all add: recv_wake_lift)
        ultimately show ?thesis using crash[OF r2] by blast
      next
        case wk: (Inr s3)
        have "?R ?s2 ((free_work_chunk (wc_wr_id wc) (with_sys rest (Stored wc) ?w s3))\<lparr>hpc := Waiting\<rparr>)"
          using wk w2 by (intro wake[of _ wc w]) (simp_all add: recv_wake_lift)
        moreover have "rt.more s3 = rt.more s"
          using wk more by (auto simp: recv_wake_def bind_res_Inr_iff split: option.splits if_splits)
        then have "with_sys (todo s) (hpc s) ?w s3 = s3" by (rule keeps_sys)
        then have "(free_work_chunk (wc_wr_id wc) (with_sys rest (Stored wc) ?w s3))\<lparr>hpc := Waiting\<rparr>
            = (free_work_chunk (wc_wr_id wc) s3)\<lparr>todo := rest\<rparr>"
          using pc by (cases s3) (simp add: with_sys_def free_work_chunk_def)
        moreover have "handle_recv_event Q E wc s = Inr (free_work_chunk (wc_wr_id wc) s3)"
          using \<open>recv_find Q wc s = Inr found\<close> w st wk by (simp add: handle_recv_event_def)
        ultimately show ?thesis using r2 by (auto simp: handler_ends_def intro: rtranclp.rtrancl_into_rtrancl)
      qed
    qed
  qed
qed

lemma handle_event_steps:
  fixes s :: "'q recv_sys"
  assumes pc: "hpc s = Waiting" "todo s = wc # rest"
  shows "\<exists>s'. (recv_step Q E)\<^sup>*\<^sup>* s s' \<and> handler_ends rest (handle_event Q E wc s) s'"
proof (cases "status wc = IBV_WC_SUCCESS \<and> opcode wc = IBV_WC_RECV")
  case True
  with handle_recv_steps[OF pc] show ?thesis by (simp add: handle_event_def)
next
  case False
  show ?thesis
  proof (cases "status wc = IBV_WC_SUCCESS \<and> opcode wc = IBV_WC_SEND")
    case True
    show ?thesis
    proof (cases "handle_send_event wc s")
      case (Inl e)
      with handle_send_crash[OF pc] True show ?thesis
        by (intro exI[of _ "s\<lparr>hpc := Handler_crashed e\<rparr>"]) (auto simp: handler_ends_def handle_event_def)
    next
      case (Inr s1)
      with handle_send[OF pc] True show ?thesis
        by (intro exI[of _ "s1\<lparr>todo := rest\<rparr>"]) (auto simp: handler_ends_def handle_event_def)
    qed
  next
    case bad: False
    then have "recv_step Q E s (s\<lparr>hpc := Handler_crashed Aborted\<rparr>)"
      using handle_bad[OF pc] False by auto
    then show ?thesis
      using False bad by (intro exI[of _ "s\<lparr>hpc := Handler_crashed Aborted\<rparr>"])
        (auto simp: handler_ends_def handle_event_def)
  qed
qed

text \<open>\<open>work_thread\<close> is a run of a worker from the top of its loop to its end, or to its death.\<close>

definition worker_ends :: "nat \<Rightarrow> 'q recv_sys res \<Rightarrow> 'q recv_sys \<Rightarrow> bool" where
  "worker_ends k r s' \<longleftrightarrow>
     (case r of Inr s1 \<Rightarrow> s' = set_worker k Finished s1 | Inl e \<Rightarrow> workers s' k = Worker_crashed e)"

lemma work_thread_steps:
  fixes s :: "'q recv_sys"
  assumes "k < length (pool_pushes s)" "workers s k = Looping" "pool_pushes s ! k = t"
    and "work_thread Q t fuel s = Some r"
  shows "\<exists>s'. (recv_step Q E)\<^sup>*\<^sup>* s s' \<and> worker_ends k r s'"
  using assms
proof (induction fuel arbitrary: s)
  case 0
  then show ?case by simp
next
  case (Suc fuel)
  let ?R = "recv_step Q E"
  show ?case
  proof (cases "work_take Q t s")
    case (Inl e)
    then have "?R s (set_worker k (Worker_crashed e) s)" using Suc.prems by (intro take_crash) simp_all
    then show ?thesis
      using Suc.prems Inl by (intro exI[of _ "set_worker k (Worker_crashed e) s"]) (auto simp: worker_ends_def)
  next
    case (Inr p)
    then obtain head s1 where tk: "work_take Q t s = Inr (head, s1)" by (cases p) auto
    have f1: "rt.more s1 = rt.more s" "pool_pushes s1 = pool_pushes s"
      using tk by (auto simp: work_take_def bind_res_Inr_iff Let_def split: option.splits if_splits)
    show ?thesis
    proof (cases head)
      case None
      then have "?R s (set_worker k Finished s1)" using Suc.prems tk by (intro stop) simp_all
      then show ?thesis
        using Suc.prems tk None by (intro exI[of _ "set_worker k Finished s1"]) (auto simp: worker_ends_def)
    next
      case (Some v)
      let ?s1 = "set_worker k (Working v) s1"
      have s1: "?s1 = with_sys (todo s) (hpc s) ((workers s)(k := Working v)) s1"
        using f1(1) by (cases s; cases s1) (simp add: with_sys_def)
      have "?R s ?s1" using Suc.prems tk Some by (intro take) simp_all
      then have r1: "?R\<^sup>*\<^sup>* s ?s1" by blast
      show ?thesis
      proof (cases "work_message t v s1")
        case (Inl e)
        then have "work_message t v ?s1 = Inl e" unfolding s1 by (simp add: work_message_lift)
        then have "?R ?s1 (set_worker k (Worker_crashed e) ?s1)"
          using Suc.prems f1 by (intro deliver_crash) simp_all
        with r1 have "?R\<^sup>*\<^sup>* s (set_worker k (Worker_crashed e) ?s1)" by (rule rtranclp.rtrancl_into_rtrancl)
        moreover have "r = Inl e" using Suc.prems tk Some Inl by simp
        ultimately show ?thesis by (intro exI[of _ "set_worker k (Worker_crashed e) ?s1"]) (simp add: worker_ends_def)
      next
        case (Inr s2)
        then have "work_message t v ?s1 = Inr (with_sys (todo s) (hpc s) ((workers s)(k := Working v)) s2)"
          unfolding s1 by (simp add: work_message_lift)
        then have "?R ?s1 (set_worker k Looping (with_sys (todo s) (hpc s) ((workers s)(k := Working v)) s2))"
          using Suc.prems f1 by (intro deliver) simp_all
        moreover have f2: "rt.more s2 = rt.more s" "pool_pushes s2 = pool_pushes s"
          using work_message_effect(2,3)[OF Inr] f1 by simp_all
        have "set_worker k Looping (with_sys (todo s) (hpc s) ((workers s)(k := Working v)) s2) = s2"
          using f2(1) Suc.prems(2) by (cases s; cases s2) (simp add: with_sys_def fun_upd_idem)
        ultimately have "?R\<^sup>*\<^sup>* s s2" using r1 by simp
        moreover have "workers s2 k = Looping"
          using f2(1) Suc.prems(2) by (cases s; cases s2) simp
        then have "\<exists>s'. ?R\<^sup>*\<^sup>* s2 s' \<and> worker_ends k r s'"
          using Suc.prems tk Some Inr f2 by (intro Suc.IH) simp_all
        ultimately show ?thesis by (blast intro: rtranclp_trans)
      qed
    qed
  qed
qed



end
