(* ===== verification/Jni_Channel.thy ===== *)
theory Jni_Channel
  imports Client_Connect Server_Run
begin

text \<open>
  The native methods of \<open>src/io_rdma_RdmaChannel.c\<close>, which take a message out of Java's buffers and
  send it. The Java virtual machine is code outside the repository: what its functions return is an
  argument.
\<close>

section \<open>What Java passes\<close>

text \<open>
  A \<open>ByteBuffer\<close>: direct, with its memory and its position; backed by an array, with the array, the
  offset of the buffer in it and the position; or one whose \<open>array()\<close> throws, of which
  \<open>CallObjectMethod\<close> returns NULL. What Java means by the content starts at the position.
\<close>

datatype byte_buffer = Direct "u8 list" int | Backed "u8 list" int int | No_array

fun java_bytes :: "byte_buffer \<Rightarrow> u8 list" where
  "java_bytes (Direct memory position) = drop (nat position) memory"
| "java_bytes (Backed array offset position) = drop (nat (offset + position)) array"
| "java_bytes No_array = []"

text \<open>
  The functions of JNI that the methods call: whether \<open>FindClass\<close> and the two calls of \<open>GetMethodID\<close>
  find what they look for, and the bytes that \<open>GetByteArrayRegion\<close> stores for an array, a position
  and a length, \<open>None\<close> where it stores nothing because an exception is pending, which the code
  does not look for.
\<close>

record jni_env =
  found_ByteBuffer :: bool
  found_array :: bool
  found_position :: bool
  GetByteArrayRegion :: "u8 list \<Rightarrow> int \<Rightarrow> int \<Rightarrow> u8 list option"

definition methods_found :: "jni_env \<Rightarrow> bool" where
  "methods_found J \<longleftrightarrow> found_ByteBuffer J \<and> found_array J \<and> found_position J"

text \<open>What is documented of \<open>GetByteArrayRegion\<close>: it copies a region that lies inside the array.\<close>

definition copies_regions :: "jni_env \<Rightarrow> bool" where
  "copies_regions J \<longleftrightarrow> (\<forall>a pos len. 0 \<le> pos \<and> 0 \<le> len \<and> pos + len \<le> int (length a) \<longrightarrow>
     GetByteArrayRegion J a pos len = Some (take (nat len) (drop (nat pos) a)))"

section \<open>The two methods\<close>

text \<open>
  \<open>malloc\<close> of \<open>len\<close> bytes, as a \<open>size_t\<close> and without a check, and the copy into them. Where nothing
  was stored, the sender would read bytes that were never written, or NULL; that fault is
  reported here, though the sender looks for its transport first.
\<close>

definition copy_array ::
  "jni_env \<Rightarrow> env \<Rightarrow> u8 list \<Rightarrow> int \<Rightarrow> int \<Rightarrow> 'z mem_scheme \<Rightarrow> (u8 list \<times> 'z mem_scheme) res" where
  "copy_array J E a pos len s =
     (let (msg, s1) = malloc (env_os E) (nat (len mod 2 ^ 64)) s in
      if len = 0 then Inr ([], s1)
      else bind_res (deref msg) (\<lambda>_.
        case GetByteArrayRegion J a pos len of None \<Rightarrow> Inl UninitRead | Some bytes \<Rightarrow> Inr (bytes, s1)))"

text \<open>
  \<open>sendHeader\<close>: \<open>len\<close> is assigned only where the buffer is not direct. A return before anything is sent
  leaves the state as it is; the result of \<open>send_msg\<close> is dropped.
\<close>

definition sendHeader ::
  "jni_env \<Rightarrow> 'q gqueue_ops \<Rightarrow> env \<Rightarrow> 'q net \<Rightarrow> peer \<Rightarrow> string \<Rightarrow> int \<Rightarrow> byte_buffer \<Rightarrow> int
    \<Rightarrow> ('q, 'z) conn_rt_scheme \<Rightarrow> ('q, 'z) conn_rt_scheme res option" where
  "sendHeader J Q E V P host jport jmsg jlen s =
     (case jmsg of
        Direct _ _ \<Rightarrow> Some (Inl UninitRead)
      | No_array \<Rightarrow> Some (Inr s)
      | Backed a offset pos \<Rightarrow>
          if \<not> methods_found J then Some (Inr s)
          else case copy_array J E a pos jlen s of
            Inl e \<Rightarrow> Some (Inl e)
          | Inr (msg, s1) \<Rightarrow>
              map_option (\<lambda>r. bind_res r (\<lambda>(_, s2). Inr s2))
                (send_msg Q E V P host (word_of_int jport) msg (word_of_int jlen) s1))"

text \<open>
  The bytes of one of the two buffers of \<open>sendHeaderWithBody\<close>, \<open>None\<close> where the method returns. A
  direct buffer is read from its start, whatever its position.
\<close>

definition buffer_bytes ::
  "jni_env \<Rightarrow> env \<Rightarrow> byte_buffer \<Rightarrow> int \<Rightarrow> 'z mem_scheme \<Rightarrow> (u8 list option \<times> 'z mem_scheme) res" where
  "buffer_bytes J E buf len s =
     (case buf of
        Direct memory _ \<Rightarrow> Inr (Some memory, s)
      | No_array \<Rightarrow> Inr (None, s)
      | Backed a offset pos \<Rightarrow> bind_res (copy_array J E a pos len s) (\<lambda>(bytes, s1). Inr (Some bytes, s1)))"

text \<open>\<open>jblen\<close> is a \<open>jlong\<close>, which is cut to the 32 bits of an \<open>int\<close>.\<close>

definition sendHeaderWithBody ::
  "jni_env \<Rightarrow> 'q gqueue_ops \<Rightarrow> env \<Rightarrow> 'q net \<Rightarrow> peer \<Rightarrow> string \<Rightarrow> int \<Rightarrow> byte_buffer \<Rightarrow> int \<Rightarrow> byte_buffer \<Rightarrow> int
    \<Rightarrow> ('q, 'z) conn_rt_scheme \<Rightarrow> ('q, 'z) conn_rt_scheme res option" where
  "sendHeaderWithBody J Q E V P host jport jheader jhlen jbody jblen s =
     (let hlen = jhlen; blen = sint (word_of_int jblen :: u32) in
      if \<not> methods_found J then Some (Inr s)
      else case buffer_bytes J E jheader hlen s of
        Inl e \<Rightarrow> Some (Inl e)
      | Inr (None, s1) \<Rightarrow> Some (Inr s1)
      | Inr (Some header, s1) \<Rightarrow>
          (case buffer_bytes J E jbody blen s1 of
             Inl e \<Rightarrow> Some (Inl e)
           | Inr (None, s2) \<Rightarrow> Some (Inr s2)
           | Inr (Some body, s2) \<Rightarrow>
               map_option (\<lambda>r. bind_res r (\<lambda>(_, s3). Inr s3))
                 (send_msg_with_header Q E V P host (word_of_int jport) header (word_of_int hlen)
                   body (word_of_int blen) s2)))"

section \<open>What is sent\<close>

text \<open>The first \<open>len\<close> bytes that C reads: from the start of a direct buffer, without the offset of a backed one.\<close>

fun c_bytes :: "byte_buffer \<Rightarrow> u8 list" where
  "c_bytes (Direct memory position) = memory"
| "c_bytes (Backed array offset position) = drop (nat position) array"
| "c_bytes No_array = []"

fun in_bounds :: "byte_buffer \<Rightarrow> int \<Rightarrow> bool" where
  "in_bounds (Direct memory position) len \<longleftrightarrow> unat (word_of_int len :: u32) \<le> length memory"
| "in_bounds (Backed array offset position) len \<longleftrightarrow> 0 \<le> position \<and> 0 \<le> len \<and> len < 2 ^ 31 \<and> position + len \<le> int (length array)"
| "in_bounds No_array len \<longleftrightarrow> False"

definition copies :: "byte_buffer \<Rightarrow> nat" where
  "copies buf = (case buf of Backed _ _ _ \<Rightarrow> 1 | _ \<Rightarrow> 0)"

lemma copy_array_ok:
  assumes "calls_succeed E" and "copies_regions J" and "in_bounds (Backed a offset pos) len"
  shows "copy_array J E a pos len s = Inr (take (nat len) (drop (nat pos) a), s\<lparr>fresh := Suc (fresh s)\<rparr>)"
  using assms by (simp add: copy_array_def malloc_def copies_regions_def)

lemma buffer_bytes_ok:
  assumes "calls_succeed E" and "copies_regions J" and "in_bounds buf len"
  shows "\<exists>bytes. buffer_bytes J E buf len s = Inr (Some bytes, s\<lparr>fresh := fresh s + copies buf\<rparr>) \<and>
    unat (word_of_int len :: u32) \<le> length bytes \<and>
    take (unat (word_of_int len :: u32)) bytes = take (unat (word_of_int len :: u32)) (c_bytes buf)"
proof (cases buf)
  case (Direct memory position)
  with assms show ?thesis by (simp add: buffer_bytes_def copies_def)
next
  case (Backed a offset pos)
  with assms(3) have b: "0 \<le> pos" "0 \<le> len" "len < 2 ^ 31" "pos + len \<le> int (length a)" by simp_all
  have u: "unat (word_of_int len :: u32) = nat len"
    using b(2,3) by (simp add: unat_eq_nat_uint uint_word_of_int)
  have n: "nat len \<le> length a - nat pos" using b by linarith
  show ?thesis
    using copy_array_ok[OF assms(1,2), of a offset pos len s] assms(3) Backed n
    by (simp add: buffer_bytes_def u copies_def)
next
  case No_array
  with assms show ?thesis by simp
qed

text \<open>
  C31: \<open>sendHeader\<close> with a buffer backed by an array sends the \<open>len\<close> bytes of the array from the
  position of the buffer on, which are the content of the buffer when it starts at the front of its
  array. With a direct buffer it passes a length that was never assigned.
\<close>

theorem sendHeader_posts_message:
  assumes "calls_succeed E" and "methods_found J" and "copies_regions J" and "in_bounds (Backed a offset pos) len" and "len \<noteq> 0"
    and "get_transport_from_ip Q E V P host (word_of_int port) (s\<lparr>fresh := Suc (fresh s)\<rparr>) = Some (Inr (t, s1))"
    and "pool_inv s1 ns xs" and "transports s1 t = Some tr" and "rc_qp tr = Some qp"
    and "unat (total_size s1) + round_up (frame_count (nat len) - length xs) < 2 ^ 32"
  shows "(\<exists>s'. sendHeader J Q E V P host port (Backed a offset pos) len s = Some (Inr s') \<and>
      message_posted E t qp tr (take (nat len) (drop (nat pos) a)) ns xs s1 s') \<and>
    (offset = 0 \<longrightarrow> take (nat len) (drop (nat pos) a) = take (nat len) (java_bytes (Backed a offset pos))) \<and>
    sendHeader J Q E V P host port (Direct m p) len s = Some (Inl UninitRead)"
proof -
  have b: "0 \<le> pos" "0 \<le> len" "len < 2 ^ 31" "pos + len \<le> int (length a)" using assms(4) by simp_all
  let ?len = "word_of_int len :: u32"
  have u: "unat ?len = nat len" using b(2,3) by (simp add: unat_eq_nat_uint uint_word_of_int)
  have n: "nat len \<le> length a - nat pos" using b by linarith
  have "?len \<noteq> 0" using u assms(5) b(2) by (metis unat_0 nat_eq_iff2 nat_0_iff order_antisym_conv)
  moreover have "unat (total_size s1) + round_up (unat (chunk_count ?len) - length xs) < 2 ^ 32"
    using assms(10) u by (simp add: chunk_count_eq)
  ultimately obtain s' where s': "send_msg_on E t (take (nat len) (drop (nat pos) a)) ?len s1 = Inr (0, s')"
      "message_posted E t qp tr (take (nat len) (drop (nat pos) a)) ns xs s1 s'"
    using send_msg_on_ok[OF assms(7,1,8,9), of ?len "take (nat len) (drop (nat pos) a)"] n u by auto
  then show ?thesis
    using copy_array_ok[OF assms(1,3,4), of s] assms(2,6)
    by (simp add: sendHeader_def send_msg_def del: in_bounds.simps)
qed

text \<open>
  C32: \<open>sendHeaderWithBody\<close> sends \<open>hlen\<close> bytes of the header and then bytes of the body, but only
  the length of the body modulo 2^32, silently; and of a direct buffer it takes the bytes from the
  start of its memory, not from its position.
\<close>

theorem sendHeaderWithBody_posts_message:
  fixes hlen blen :: int
  defines "hl \<equiv> (word_of_int hlen :: u32)" and "bl \<equiv> (word_of_int blen :: u32)"
  assumes "calls_succeed E" and "methods_found J" and "copies_regions J" and "in_bounds jheader hlen" and "in_bounds jbody (sint bl)"
    and "unat hl + unat bl < 2 ^ 32" and "hl + bl \<noteq> 0"
    and "get_transport_from_ip Q E V P host (word_of_int port)
      (s\<lparr>fresh := fresh s + copies jheader + copies jbody\<rparr>) = Some (Inr (t, s1))"
    and "pool_inv s1 ns xs" and "transports s1 t = Some tr" and "rc_qp tr = Some qp"
    and "unat (total_size s1) + round_up (unat (chunk_count (hl + bl)) - length xs) < 2 ^ 32"
  shows "\<exists>s'. sendHeaderWithBody J Q E V P host port jheader hlen jbody blen s = Some (Inr s') \<and>
    message_posted E t qp tr
      (take (unat hl) (c_bytes jheader) @ take (nat (blen mod 2 ^ 32)) (c_bytes jbody)) ns xs s1 s'"
proof -
  have bl: "word_of_int (sint bl) = bl" by simp
  have ubl: "nat (blen mod 2 ^ 32) = unat bl"
    by (simp add: bl_def unat_eq_nat_uint uint_word_of_int)
  obtain header where h: "buffer_bytes J E jheader hlen s = Inr (Some header, s\<lparr>fresh := fresh s + copies jheader\<rparr>)"
      "unat hl \<le> length header" "take (unat hl) header = take (unat hl) (c_bytes jheader)"
    using buffer_bytes_ok[OF assms(3,5,6)] by (auto simp: hl_def)
  obtain body where b: "buffer_bytes J E jbody (sint bl) (s\<lparr>fresh := fresh s + copies jheader\<rparr>)
        = Inr (Some body, s\<lparr>fresh := fresh s + copies jheader + copies jbody\<rparr>)"
      "unat bl \<le> length body" "take (unat bl) body = take (unat bl) (c_bytes jbody)"
    using buffer_bytes_ok[OF assms(3,5,7), of "s\<lparr>fresh := fresh s + copies jheader\<rparr>"] by auto
  obtain s' where s': "send_msg_with_header_on E t header hl body bl s1 = Inr (0, s')"
      "message_posted E t qp tr (take (unat hl) (c_bytes jheader) @ take (unat bl) (c_bytes jbody)) ns xs s1 s'"
    using send_msg_with_header_on_ok[OF assms(11,3,12,13,8,9) h(2) b(2) assms(14)] h(3) b(3) by auto
  then show ?thesis
    using h(1) b(1) assms(4,10) unfolding ubl
    by (simp add: sendHeaderWithBody_def Let_def send_msg_with_header_def hl_def[symmetric] flip: bl_def)
qed

section \<open>A connected process\<close>

definition demo_linked :: "nat list server_rt" where
  "demo_linked = demo_server\<lparr>host2ipstr := [(''node2'', ''10.0.0.2'')]\<rparr>"

definition demo_jni :: jni_env where
  "demo_jni = \<lparr>found_ByteBuffer = True, found_array = True, found_position = True,
     GetByteArrayRegion = (\<lambda>a pos len. if 0 \<le> pos \<and> 0 \<le> len \<and> pos + len \<le> int (length a)
       then Some (take (nat len) (drop (nat pos) a)) else None)\<rparr>"

lemma demo_methods: "methods_found demo_jni"
  by (simp add: methods_found_def demo_jni_def)

lemma demo_regions: "copies_regions demo_jni"
  by (simp add: copies_regions_def demo_jni_def)

lemma demo_linked_get:
  "get_transport_from_ip list_gqueue demo_env demo_net demo_peer ''node2'' port (demo_linked\<lparr>fresh := k\<rparr>)
    = Some (Inr (9, demo_linked\<lparr>fresh := k\<rparr>))"
  by (simp add: get_transport_from_ip_def find_transport_def remote_ip_of_def lookup_ip_def same_key_def
      transport_at_def ready_transport_def demo_linked_def) (simp add: demo_transport_def)

lemma demo_linked_inv: "pool_inv (demo_linked\<lparr>fresh := 22 + k\<rparr>) [(20, 21, 4096)] (block_addrs 21 4096)"
  by (rule pool_inv_cong[OF demo_server_inv])
    (simp_all add: demo_linked_def demo_server_def demo_process_def grown_def Let_def)

lemma demo_linked_fields:
  "transports demo_linked 9 = Some demo_transport" "fresh demo_linked = 22"
  "total_size (demo_linked\<lparr>fresh := k\<rparr>) = 4096"
  by (simp_all add: demo_linked_def) (simp_all add: demo_server_def demo_process_def grown_def Let_def)

text \<open>Three bytes of an array, from its second one on.\<close>

theorem sendHeader_posts_message_witness:
  "\<exists>s'. sendHeader demo_jni list_gqueue demo_env demo_net demo_peer ''node2'' 0 (Backed [9, 1, 2, 3, 9] 0 1) 3
      demo_linked = Some (Inr s') \<and>
    message_posted demo_env 9 5 demo_transport [1, 2, 3] [(20, 21, 4096)] (block_addrs 21 4096)
      (demo_linked\<lparr>fresh := 23\<rparr>) s'"
  using sendHeader_posts_message[OF demo_calls demo_methods demo_regions, of "[9, 1, 2, 3, 9]" 0 1 3 list_gqueue demo_net
      demo_peer "''node2''" 0 demo_linked 9 "demo_linked\<lparr>fresh := 23\<rparr>" "[(20, 21, 4096)]" "block_addrs 21 4096"
      demo_transport 5] demo_linked_inv[of 1] demo_linked_get[of 0 23]
  by (simp add: demo_linked_fields round_up_def frame_count_def body_size_def)

text \<open>A body whose length has the bit 32 set: two of its bytes are sent, from the start of its memory.\<close>

theorem sendHeaderWithBody_posts_message_witness:
  "\<exists>s'. sendHeaderWithBody demo_jni list_gqueue demo_env demo_net demo_peer ''node2'' 0 (Backed [9, 1] 0 1) 1
      (Direct [2, 3, 4] 1) 4294967298 demo_linked = Some (Inr s') \<and>
    message_posted demo_env 9 5 demo_transport [1, 2, 3] [(20, 21, 4096)] (block_addrs 21 4096)
      (demo_linked\<lparr>fresh := 23\<rparr>) s'"
proof -
  have three: "(word_of_int 1 + word_of_int 4294967298 :: u32) = 3" by simp
  have room: "unat (total_size (demo_linked\<lparr>fresh := 23\<rparr>)) +
      round_up (unat (chunk_count (word_of_int 1 + word_of_int 4294967298)) - length (block_addrs 21 4096)) < 2 ^ 32"
    unfolding three by (simp add: demo_linked_fields round_up_def)
  have get: "get_transport_from_ip list_gqueue demo_env demo_net demo_peer ''node2'' (word_of_int 0)
      (demo_linked\<lparr>fresh := fresh demo_linked + copies (Backed [9, 1] 0 1) + copies (Direct [2, 3, 4] 1)\<rparr>)
    = Some (Inr (9, demo_linked\<lparr>fresh := 23\<rparr>))"
    using demo_linked_get[of "word_of_int 0" 23] by (simp add: copies_def demo_linked_fields)
  have inv: "pool_inv (demo_linked\<lparr>fresh := 23\<rparr>) [(20, 21, 4096)] (block_addrs 21 4096)"
    using demo_linked_inv[of 1] by simp
  have tr: "transports (demo_linked\<lparr>fresh := 23\<rparr>) 9 = Some demo_transport" by (simp add: demo_linked_fields)
  have two: "take 2 [2, 3, 4 :: u8] = [2, 3]" by (simp add: numeral_2_eq_2)
  from sendHeaderWithBody_posts_message[OF demo_calls demo_methods demo_regions _ _ _ _ get inv tr _ room, of 5] two
  show ?thesis by simp
qed

end
