(* ===== verification/Java_Upcalls.thy ===== *)
theory Java_Upcalls
  imports Receive_Delivery
begin

text \<open>
  The calls into Java of \<open>src/io_rdma_RdmaServer.c\<close>, with which a worker hands a message over: the
  byte array, the copies into it, and \<open>channelRead0\<close>. The delivery that \<open>work_message\<close> records is
  the list of the arguments of these calls; here they are made, and Java gets what the record says.
\<close>

section \<open>The functions of JNI\<close>

text \<open>
  The functions of JNI that the callbacks use, over the state \<open>'j\<close> of the virtual machine.
  References are numbers, \<open>None\<close> is NULL.
\<close>

record 'j java_ops =
  AttachCurrentThread :: "'j \<Rightarrow> 'j"
  DetachCurrentThread :: "'j \<Rightarrow> 'j"
  NewByteArray :: "int \<Rightarrow> 'j \<Rightarrow> nat option \<times> 'j"
  NewGlobalRef :: "nat option \<Rightarrow> 'j \<Rightarrow> nat option \<times> 'j"
  SetByteArrayRegion :: "nat option \<Rightarrow> int \<Rightarrow> int \<Rightarrow> u8 list \<Rightarrow> 'j \<Rightarrow> 'j"
  NewStringUTF :: "string \<Rightarrow> 'j \<Rightarrow> nat option \<times> 'j"
  CallVoidMethod :: "nat option \<Rightarrow> nat option \<Rightarrow> nat option \<Rightarrow> nat option \<Rightarrow> int \<Rightarrow> 'j \<Rightarrow> 'j"

text \<open>The static variables of the file that the callbacks read.\<close>

record jni_statics =
  st_jvm :: "nat option"
  st_channelRead0 :: "nat option"
  st_handler :: "nat option"

section \<open>The callbacks\<close>

definition jni_alloc_byte_array ::
  "'j java_ops \<Rightarrow> jni_statics \<Rightarrow> int \<Rightarrow> 'j \<Rightarrow> (nat option \<times> 'j) res" where
  "jni_alloc_byte_array J G bytes j =
     bind_res (deref (st_jvm G)) (\<lambda>_.
     let (jbatemp, j1) = NewByteArray J bytes (AttachCurrentThread J j);
         (jbaglobal, j2) = NewGlobalRef J jbatemp j1
     in Inr (jbaglobal, DetachCurrentThread J j2))"

definition set_byte_array_region ::
  "'j java_ops \<Rightarrow> jni_statics \<Rightarrow> nat option \<Rightarrow> int \<Rightarrow> int \<Rightarrow> u8 list \<Rightarrow> 'j \<Rightarrow> 'j res" where
  "set_byte_array_region J G jba pos len buf j =
     bind_res (deref (st_jvm G)) (\<lambda>_.
       Inr (DetachCurrentThread J (SetByteArrayRegion J jba pos len buf (AttachCurrentThread J j))))"

definition jni_channel_callback ::
  "'j java_ops \<Rightarrow> jni_statics \<Rightarrow> string \<Rightarrow> nat option \<Rightarrow> int \<Rightarrow> 'j \<Rightarrow> 'j res" where
  "jni_channel_callback J G remote_host msg len j =
     bind_res (deref (st_jvm G)) (\<lambda>_.
     let (jremoteHost, j1) = NewStringUTF J remote_host (AttachCurrentThread J j)
     in Inr (DetachCurrentThread J (CallVoidMethod J (st_handler G) (st_channelRead0 G) jremoteHost msg len j1)))"

text \<open>The calls of \<open>work_thread\<close> for one message, in their order.\<close>

fun set_regions ::
  "'j java_ops \<Rightarrow> jni_statics \<Rightarrow> nat option \<Rightarrow> (int \<times> int \<times> u8 list) list \<Rightarrow> 'j \<Rightarrow> 'j res" where
  "set_regions J G jba [] j = Inr j"
| "set_regions J G jba ((pos, len, buf) # rs) j =
     bind_res (set_byte_array_region J G jba pos len buf j) (set_regions J G jba rs)"

definition upcall :: "'j java_ops \<Rightarrow> jni_statics \<Rightarrow> delivery \<Rightarrow> 'j \<Rightarrow> 'j res" where
  "upcall J G d j =
     bind_res (jni_alloc_byte_array J G (dv_alloc d) j) (\<lambda>(jba, j1).
     bind_res (set_regions J G jba (dv_regions d) j1) (\<lambda>j2.
       jni_channel_callback J G (dv_remote d) jba (dv_len d) j2))"

fun upcalls :: "'j java_ops \<Rightarrow> jni_statics \<Rightarrow> delivery list \<Rightarrow> 'j \<Rightarrow> 'j res" where
  "upcalls J G [] j = Inr j"
| "upcalls J G (d # ds) j = bind_res (upcall J G d j) (upcalls J G ds)"

section \<open>What is documented of JNI\<close>

text \<open>
  What a delivery has to be for its calls to be in order: the array has a length and every
  region lies inside it, with as many bytes as it says.
\<close>

definition delivery_ok :: "delivery \<Rightarrow> bool" where
  "delivery_ok d \<longleftrightarrow> 0 \<le> dv_alloc d \<and>
     list_all (\<lambda>(pos, n, bs). 0 \<le> pos \<and> n = int (length bs) \<and> pos + n \<le> dv_alloc d) (dv_regions d)"

text \<open>
  The laws, over what the references stand for, the global references and the calls of the handler
  so far: memory suffices; a new array is zero; a global reference outlives the detaching of the
  thread, a local one need not; nothing touches the arrays of other global references.
\<close>

locale java_machine =
  fixes J :: "'j java_ops"
    and bytes_at :: "'j \<Rightarrow> nat \<Rightarrow> u8 list option"
    and text_at :: "'j \<Rightarrow> nat \<Rightarrow> string option"
    and globals :: "'j \<Rightarrow> nat list"
    and calls :: "'j \<Rightarrow> (nat option \<times> nat option \<times> string \<times> u8 list \<times> int) list"
  assumes attach: "g \<in> set (globals j) \<Longrightarrow> bytes_at (AttachCurrentThread J j) g = bytes_at j g"
      "globals (AttachCurrentThread J j) = globals j" "calls (AttachCurrentThread J j) = calls j"
    and detach: "g \<in> set (globals j) \<Longrightarrow> bytes_at (DetachCurrentThread J j) g = bytes_at j g"
      "globals (DetachCurrentThread J j) = globals j" "calls (DetachCurrentThread J j) = calls j"
    and new_array: "0 \<le> n \<Longrightarrow> NewByteArray J n j = (l, j1) \<Longrightarrow>
      (\<exists>r. l = Some r \<and> bytes_at j1 r = Some (replicate (nat n) 0)) \<and> globals j1 = globals j \<and> calls j1 = calls j"
    and new_global: "bytes_at j r = Some a \<Longrightarrow> NewGlobalRef J (Some r) j = (l, j1) \<Longrightarrow>
      (\<exists>g. l = Some g \<and> globals j1 = g # globals j \<and> bytes_at j1 g = Some a) \<and> calls j1 = calls j"
    and set_bytes: "g \<in> set (globals j) \<Longrightarrow> bytes_at j g = Some a \<Longrightarrow> 0 \<le> pos \<Longrightarrow> pos + int (length bs) \<le> int (length a) \<Longrightarrow>
      j1 = SetByteArrayRegion J (Some g) pos (int (length bs)) bs j \<Longrightarrow>
      bytes_at j1 g = Some (set_region (pos, int (length bs), bs) a) \<and> globals j1 = globals j \<and> calls j1 = calls j"
    and new_string: "NewStringUTF J h j = (l, j1) \<Longrightarrow>
      (\<exists>r. l = Some r \<and> text_at j1 r = Some h) \<and> globals j1 = globals j \<and> calls j1 = calls j \<and>
      (\<forall>g \<in> set (globals j). bytes_at j1 g = bytes_at j g)"
    and call: "text_at j r = Some h \<Longrightarrow> g \<in> set (globals j) \<Longrightarrow> bytes_at j g = Some a \<Longrightarrow>
      j1 = CallVoidMethod J obj m (Some r) (Some g) n j \<Longrightarrow>
      calls j1 = calls j @ [(obj, m, h, a, n)] \<and> globals j1 = globals j"
begin

lemma alloc_array:
  assumes "st_jvm G \<noteq> None" "0 \<le> n"
  obtains g j' where "jni_alloc_byte_array J G n j = Inr (Some g, j')" "globals j' = g # globals j"
    "bytes_at j' g = Some (replicate (nat n) 0)" "calls j' = calls j"
proof -
  obtain l j1 where a: "NewByteArray J n (AttachCurrentThread J j) = (l, j1)" by fastforce
  from new_array[OF assms(2) a] obtain r where r: "l = Some r" "bytes_at j1 r = Some (replicate (nat n) 0)"
    "globals j1 = globals j" "calls j1 = calls j" by (auto simp: attach)
  obtain l2 j2 where b: "NewGlobalRef J (Some r) j1 = (l2, j2)" by fastforce
  from new_global[OF r(2) b] obtain g where g: "l2 = Some g" "globals j2 = g # globals j"
    "bytes_at j2 g = Some (replicate (nat n) 0)" "calls j2 = calls j" by (auto simp: r)
  show thesis
  proof (rule that[of g "DetachCurrentThread J j2"])
    show "jni_alloc_byte_array J G n j = Inr (Some g, DetachCurrentThread J j2)"
      using assms(1) by (auto simp: jni_alloc_byte_array_def a b r g Let_def)
    show "bytes_at (DetachCurrentThread J j2) g = Some (replicate (nat n) 0)"
      using detach(1)[of g j2] g by simp
  qed (simp_all add: detach g)
qed

lemma set_regions_run:
  assumes G: "st_jvm G \<noteq> None" and "g \<in> set (globals j)" "bytes_at j g = Some a"
    and "list_all (\<lambda>(pos, n, bs). 0 \<le> pos \<and> n = int (length bs) \<and> pos + n \<le> int (length a)) rs"
  shows "\<exists>j'. set_regions J G (Some g) rs j = Inr j' \<and> bytes_at j' g = Some (fold set_region rs a) \<and>
    globals j' = globals j \<and> calls j' = calls j"
  using assms(2-)
proof (induction rs arbitrary: j a)
  case Nil
  then show ?case by simp
next
  case (Cons r rs)
  obtain pos n bs where r: "r = (pos, n, bs)" by (cases r)
  from Cons.prems(3) r have b: "0 \<le> pos" "n = int (length bs)" "pos + int (length bs) \<le> int (length a)" by auto
  let ?j0 = "AttachCurrentThread J j"
  let ?j1 = "SetByteArrayRegion J (Some g) pos (int (length bs)) bs ?j0"
  have s: "bytes_at ?j1 g = Some (set_region (pos, int (length bs), bs) a)" "globals ?j1 = globals j" "calls ?j1 = calls j"
    using set_bytes[of g ?j0 a pos bs ?j1] Cons.prems(1,2) b(1,3) attach(1)[of g j] attach(2,3) by auto
  let ?j2 = "DetachCurrentThread J ?j1"
  have d: "g \<in> set (globals ?j2)" "bytes_at ?j2 g = Some (set_region r a)" "globals ?j2 = globals j" "calls ?j2 = calls j"
    using detach(1)[of g ?j1] s Cons.prems(1) by (simp_all add: detach r b(2))
  have len: "length (set_region r a) = length a"
    using b by (simp add: set_region_def r)
  have run: "set_byte_array_region J G (Some g) pos n bs j = Inr ?j2"
    using G by (auto simp: set_byte_array_region_def b(2))
  show ?case
    using Cons.IH[OF d(1,2)] Cons.prems(3) d(3,4) len run by (simp add: r)
qed

lemma upcall_run:
  assumes G: "st_jvm G \<noteq> None" and d: "delivery_ok d"
  shows "\<exists>j' g. upcall J G d j = Inr j' \<and> globals j' = g # globals j \<and>
    calls j' = calls j @ [(st_handler G, st_channelRead0 G, dv_remote d, array_of d, dv_len d)]"
proof -
  have n: "0 \<le> dv_alloc d" using d by (simp add: delivery_ok_def)
  obtain g j1 where a: "jni_alloc_byte_array J G (dv_alloc d) j = Inr (Some g, j1)" "globals j1 = g # globals j"
      "bytes_at j1 g = Some (replicate (nat (dv_alloc d)) 0)" "calls j1 = calls j"
    by (rule alloc_array[OF G n])
  obtain j2 where b: "set_regions J G (Some g) (dv_regions d) j1 = Inr j2" "bytes_at j2 g = Some (array_of d)"
      "globals j2 = g # globals j" "calls j2 = calls j"
    using set_regions_run[OF G _ a(3), of "dv_regions d"] d n a(2,4)
    by (auto simp: delivery_ok_def array_of_def)
  let ?j3 = "AttachCurrentThread J j2"
  obtain l j4 where s: "NewStringUTF J (dv_remote d) ?j3 = (l, j4)" by fastforce
  from new_string[OF s] obtain r where r: "l = Some r" "text_at j4 r = Some (dv_remote d)"
      "globals j4 = g # globals j" "calls j4 = calls j" "bytes_at j4 g = Some (array_of d)"
    using attach(1)[of g j2] b by (auto simp: attach)
  let ?j5 = "CallVoidMethod J (st_handler G) (st_channelRead0 G) (Some r) (Some g) (dv_len d) j4"
  from call[OF r(2) _ r(5) refl] r(3,4) have c:
    "calls ?j5 = calls j @ [(st_handler G, st_channelRead0 G, dv_remote d, array_of d, dv_len d)]"
    "globals ?j5 = g # globals j" by auto
  have "upcall J G d j = Inr (DetachCurrentThread J ?j5)"
    using G by (auto simp: upcall_def a(1) b(1) jni_channel_callback_def s r(1))
  then show ?thesis using c by (intro exI[of _ "DetachCurrentThread J ?j5"] exI[of _ g]) (simp add: detach)
qed

lemma upcalls_run:
  assumes G: "st_jvm G \<noteq> None" and "list_all delivery_ok ds"
  shows "\<exists>j' gs. upcalls J G ds j = Inr j' \<and> length gs = length ds \<and> globals j' = gs @ globals j \<and>
    calls j' = calls j @ map (\<lambda>d. (st_handler G, st_channelRead0 G, dv_remote d, array_of d, dv_len d)) ds"
  using assms(2)
proof (induction ds arbitrary: j)
  case Nil
  then show ?case by (intro exI[of _ j] exI[of _ "[]"]) simp
next
  case (Cons d ds)
  obtain j1 g where a: "upcall J G d j = Inr j1" "globals j1 = g # globals j"
      "calls j1 = calls j @ [(st_handler G, st_channelRead0 G, dv_remote d, array_of d, dv_len d)]"
    using upcall_run[OF G, of d j] Cons.prems by auto
  obtain j' gs where b: "upcalls J G ds j1 = Inr j'" "length gs = length ds" "globals j' = gs @ globals j1"
      "calls j' = calls j1 @ map (\<lambda>d. (st_handler G, st_channelRead0 G, dv_remote d, array_of d, dv_len d)) ds"
    using Cons.IH[of j1] Cons.prems by auto
  show ?case using a b by (intro exI[of _ j'] exI[of _ "gs @ [g]"]) simp
qed

end

section \<open>A virtual machine to evaluate on\<close>

text \<open>
  Arrays by number, references to them, strings, global references, and the calls of the handler.
  Detaching a thread drops every reference that is not global.
\<close>

record java_heap =
  jh_arrays :: "u8 list list"
  jh_refs :: "nat \<rightharpoonup> nat"
  jh_texts :: "nat \<rightharpoonup> string"
  jh_globals :: "nat list"
  jh_next :: nat
  jh_calls :: "(nat option \<times> nat option \<times> string \<times> u8 list \<times> int) list"

definition jh_bytes :: "java_heap \<Rightarrow> nat \<Rightarrow> u8 list option" where
  "jh_bytes j r = (case jh_refs j r of None \<Rightarrow> None
     | Some a \<Rightarrow> if a < length (jh_arrays j) then Some (jh_arrays j ! a) else None)"

definition jh_new_ref :: "nat \<Rightarrow> java_heap \<Rightarrow> java_heap" where
  "jh_new_ref a j = j\<lparr>jh_refs := (jh_refs j)(jh_next j \<mapsto> a), jh_next := Suc (jh_next j)\<rparr>"

definition heap_java :: "java_heap java_ops" where
  "heap_java = \<lparr>AttachCurrentThread = (\<lambda>j. j),
     DetachCurrentThread = (\<lambda>j. j\<lparr>jh_refs := jh_refs j |` set (jh_globals j)\<rparr>),
     NewByteArray = (\<lambda>n j. if n < 0 then (None, j) else (Some (jh_next j),
       (jh_new_ref (length (jh_arrays j)) j)\<lparr>jh_arrays := jh_arrays j @ [replicate (nat n) 0]\<rparr>)),
     NewGlobalRef = (\<lambda>r j. case r of None \<Rightarrow> (None, j) | Some r \<Rightarrow> (case jh_refs j r of None \<Rightarrow> (None, j)
       | Some a \<Rightarrow> (Some (jh_next j), (jh_new_ref a j)\<lparr>jh_globals := jh_next j # jh_globals j\<rparr>))),
     SetByteArrayRegion = (\<lambda>r pos n bs j. case r of None \<Rightarrow> j | Some r \<Rightarrow> (case jh_refs j r of None \<Rightarrow> j
       | Some a \<Rightarrow> j\<lparr>jh_arrays := (jh_arrays j)[a := set_region (pos, n, take (nat n) bs) (jh_arrays j ! a)]\<rparr>)),
     NewStringUTF = (\<lambda>h j. (Some (jh_next j),
       j\<lparr>jh_texts := (jh_texts j)(jh_next j \<mapsto> h), jh_next := Suc (jh_next j)\<rparr>)),
     CallVoidMethod = (\<lambda>obj m h r n j. case (h, r) of
       (Some h, Some r) \<Rightarrow> (case (jh_texts j h, jh_bytes j r) of
         (Some h, Some a) \<Rightarrow> j\<lparr>jh_calls := jh_calls j @ [(obj, m, h, a, n)]\<rparr> | _ \<Rightarrow> j) | _ \<Rightarrow> j)\<rparr>"

interpretation heap_machine: java_machine heap_java jh_bytes jh_texts jh_globals jh_calls
proof unfold_locales
  fix j j1 :: java_heap and n l
  assume "0 \<le> n" "NewByteArray heap_java n j = (l, j1)"
  then show "(\<exists>r. l = Some r \<and> jh_bytes j1 r = Some (replicate (nat n) 0)) \<and>
      jh_globals j1 = jh_globals j \<and> jh_calls j1 = jh_calls j"
    by (auto simp: heap_java_def jh_new_ref_def jh_bytes_def)
next
  fix j j1 :: java_heap and r l a
  assume "jh_bytes j r = Some a" "NewGlobalRef heap_java (Some r) j = (l, j1)"
  then show "(\<exists>g. l = Some g \<and> jh_globals j1 = g # jh_globals j \<and> jh_bytes j1 g = Some a) \<and>
      jh_calls j1 = jh_calls j"
    by (auto simp: heap_java_def jh_new_ref_def jh_bytes_def split: option.splits if_splits)
next
  fix j j1 :: java_heap and g a pos bs
  assume "jh_bytes j g = Some a" "j1 = SetByteArrayRegion heap_java (Some g) pos (int (length bs)) bs j"
  then show "jh_bytes j1 g = Some (set_region (pos, int (length bs), bs) a) \<and>
      jh_globals j1 = jh_globals j \<and> jh_calls j1 = jh_calls j"
    by (auto simp: heap_java_def jh_bytes_def split: option.splits if_splits)
next
  fix j j1 :: java_heap and h l
  assume "NewStringUTF heap_java h j = (l, j1)"
  then show "(\<exists>r. l = Some r \<and> jh_texts j1 r = Some h) \<and> jh_globals j1 = jh_globals j \<and>
      jh_calls j1 = jh_calls j \<and> (\<forall>g \<in> set (jh_globals j). jh_bytes j1 g = jh_bytes j g)"
    by (auto simp: heap_java_def jh_bytes_def split: option.splits)
qed (auto simp: heap_java_def jh_bytes_def split: option.splits)

section \<open>The deliveries of the receiver\<close>

lemma regions_in_bounds:
  assumes "unat pos + length (received_bytes H B cs) \<le> n" "n < 2 ^ 31"
  shows "list_all (\<lambda>(p, l, bs). 0 \<le> p \<and> l = int (length bs) \<and> p + l \<le> int n) (regions_from H B pos cs)"
  using assms(1)
proof (induction cs arbitrary: pos)
  case Nil
  then show ?case by simp
next
  case (Cons c cs)
  let ?n = "unat (chunk_len (H c))"
  have b: "unat pos + ?n + length (received_bytes H B cs) \<le> n" using Cons.prems by simp
  have p: "unat (pos + chunk_len (H c)) = unat pos + ?n"
    using b assms(2) by (simp add: unat_plus_if')
  have "sint pos = int (unat pos)" "sint (chunk_len (H c)) = int ?n"
    using b assms(2) by (rule_tac sint_small; simp)+
  moreover have "int (unat pos) + int ?n \<le> int n" using b by linarith
  ultimately show ?case
    using b Cons.IH[of "pos + chunk_len (H c)"] p by simp
qed

lemma delivery_ok_message:
  assumes "length (received_bytes H B cs) < 2 ^ 31"
  shows "delivery_ok (message_delivery H B ip (did, cs))"
proof -
  have "unat (total_len H cs) = length (received_bytes H B cs)"
    using assms by (intro unat_total_len) simp
  then have "sint (total_len H cs) = int (length (received_bytes H B cs))"
    using assms by (simp add: sint_small)
  then show ?thesis
    using regions_in_bounds[of 0 H B cs "length (received_bytes H B cs)"] assms
    by (simp add: delivery_ok_def message_delivery_def)
qed

end
