(* ===== verification/Jni_Server.thy ===== *)
theory Jni_Server
  imports Server_Run Java_Upcalls
begin

text \<open>
  The native methods \<open>init\<close> and \<open>destroy\<close> of \<open>src/io_rdma_RdmaServer.c\<close>, and what \<open>init\<close> leaves for
  the callbacks of \<open>Java_Upcalls\<close>.
\<close>

section \<open>The methods\<close>

text \<open>
  The static variables of the file: the virtual machine, the class, the method, and the handler, a
  reference that is new with every call of \<open>init\<close>. \<open>rdmaServer\<close>, which nothing reads, is left out.
\<close>

record 'q jni_rt = "'q server_rt" +
  g_jvm :: "nat option"
  RdmaChannelHandler :: "nat option"
  channelRead0 :: "nat option"
  rdmaChannelHandler :: "nat option"

text \<open>
  What \<open>GetJavaVM\<close> stores, what \<open>FindClass\<close> and \<open>GetMethodID\<close> return, and what \<open>NewGlobalRef\<close>
  returns for the handler (\<open>None\<close> is NULL).
\<close>

record jvm =
  GetJavaVM :: "nat option"
  FindClass :: "nat option"
  GetMethodID :: "nat \<Rightarrow> nat option"
  handler_ref :: "nat \<Rightarrow> nat option"

definition RdmaServer_init ::
  "jvm \<Rightarrow> env \<Rightarrow> 'q net \<Rightarrow> boot \<Rightarrow> string \<Rightarrow> int \<Rightarrow> nat \<Rightarrow> 'q jni_rt \<Rightarrow> (bool \<times> 'q jni_rt) res" where
  "RdmaServer_init J E V B host jport jrch s =
     (let s1 = s\<lparr>g_jvm := (if g_jvm s = None then GetJavaVM J else g_jvm s)\<rparr>;
          s2 = s1\<lparr>RdmaChannelHandler := (if RdmaChannelHandler s1 = None then FindClass J else RdmaChannelHandler s1)\<rparr> in
      case RdmaChannelHandler s2 of None \<Rightarrow> Inr (False, s2)
      | Some c \<Rightarrow>
        let s3 = s2\<lparr>channelRead0 := (if channelRead0 s2 = None then GetMethodID J c else channelRead0 s2)\<rparr> in
        if channelRead0 s3 = None then Inr (False, s3)
        else bind_res (init_server E V B host (word_of_int jport) (s3\<lparr>rdmaChannelHandler := handler_ref J jrch\<rparr>)) (\<lambda>(rc, s4).
          Inr (rc \<noteq> - 1, s4)))"

definition RdmaServer_destroy :: "nat \<Rightarrow> 'q net \<Rightarrow> 'q jni_rt \<Rightarrow> 'q jni_rt res option" where
  "RdmaServer_destroy fuel V s = destroy_server fuel V s"

section \<open>What starting leaves alone\<close>

text \<open>Starting the server changes nothing that a larger state adds.\<close>

lemma init_pool_more:
  assumes "init_rdma_buffer_pool os pd s = Inr (rc, s')"
  shows "mem.more s' = mem.more s"
  using append_frame[OF assms[unfolded init_rdma_buffer_pool_def]] by simp

lemma mem_more_server:
  fixes s s' :: "('q, 'z) server_rt_scheme"
  shows "mem.more s' = mem.more s \<Longrightarrow> server_rt.more s' = server_rt.more s"
  by (cases s; cases s') simp

lemma rdma_context_init_more:
  assumes "rdma_context_init E B s = Inr (rc, s')"
  shows "server_rt.more s' = server_rt.more s"
  using assms
  by (auto simp: rdma_context_init_def bind_res_Inr_iff malloc_def Let_def split: if_splits
      dest!: init_pool_more mem_more_server)

lemma init_server_socket_more:
  assumes "init_server_socket E V B host port s = Inr (rc, s')"
  shows "server_rt.more s' = server_rt.more s"
proof (cases "set_ip_from_host V host None")
  case (Inr ip)
  show ?thesis
  proof (cases "context_at s")
    case C: (Inr x)
    obtain c ctx where x: "x = (c, ctx)" by (cases x)
    have "server_rt.more (set_context c ctx' s) = server_rt.more s" for ctx' by (simp add: set_context_def)
    with assms show ?thesis
      by (simp only: init_server_socket_def Let_def Inr C x bind_res_simps split_conv malloc_def split: if_splits)
        (auto simp: bind_res_Inr_iff split: option.splits)
  qed (use assms Inr in \<open>auto simp: init_server_socket_def Let_def split: if_splits\<close>)
qed (use assms in \<open>auto simp: init_server_socket_def Let_def\<close>)

lemma init_server_more:
  assumes "init_server E V B host port s = Inr (rc, s')"
  shows "server_rt.more s' = server_rt.more s"
  using assms
  by (auto simp: init_server_def start_accepting_def bind_res_Inr_iff set_context_def split: if_splits
      dest!: rdma_context_init_more init_server_socket_more)

section \<open>What \<open>init\<close> tells Java\<close>

text \<open>The static variables as the callbacks see them.\<close>

definition statics_of :: "'q jni_rt \<Rightarrow> jni_statics" where
  "statics_of s = \<lparr>st_jvm = g_jvm s, st_channelRead0 = channelRead0 s, st_handler = rdmaChannelHandler s\<rparr>"

definition statics_set :: "jvm \<Rightarrow> nat \<Rightarrow> 'q jni_rt \<Rightarrow> 'q jni_rt \<Rightarrow> bool" where
  "statics_set J jrch s s' \<longleftrightarrow>
     g_jvm s' = (if g_jvm s = None then GetJavaVM J else g_jvm s) \<and>
     (\<exists>c m. RdmaChannelHandler s' = Some c \<and> channelRead0 s' = Some m \<and>
       (channelRead0 s = None \<longrightarrow> GetMethodID J c = Some m)) \<and>
     rdmaChannelHandler s' = handler_ref J jrch"

lemma jni_more:
  fixes s s' :: "'q jni_rt"
  assumes "server_rt.more s' = server_rt.more s"
  shows "g_jvm s' = g_jvm s" "RdmaChannelHandler s' = RdmaChannelHandler s" "channelRead0 s' = channelRead0 s"
    "rdmaChannelHandler s' = rdmaChannelHandler s"
  using assms by (cases s; cases s'; simp)+

text \<open>
  \<open>init\<close> returns false only for want of the class or the method, before anything of the server is
  set up; a server that cannot be started ends the process. When it returns true the server was
  started with all static variables set.
\<close>

lemma RdmaServer_init_result:
  assumes "RdmaServer_init J E V B host jport jrch s = Inr (ok, s')"
  shows "if ok then \<exists>s1. init_server E V B host (word_of_int jport) s1 = Inr (0, s') \<and>
        statics_set J jrch s s1 \<and> statics_of s' = statics_of s1
    else s' = s\<lparr>g_jvm := g_jvm s', RdmaChannelHandler := RdmaChannelHandler s', channelRead0 := channelRead0 s'\<rparr> \<and>
      (RdmaChannelHandler s' = None \<or> channelRead0 s' = None)"
proof -
  let ?s1 = "s\<lparr>g_jvm := (if g_jvm s = None then GetJavaVM J else g_jvm s)\<rparr>"
  let ?s2 = "?s1\<lparr>RdmaChannelHandler := (if RdmaChannelHandler ?s1 = None then FindClass J else RdmaChannelHandler ?s1)\<rparr>"
  show ?thesis
  proof (cases "RdmaChannelHandler ?s2")
    case None
    then have "\<not> ok" "s' = ?s2" using assms unfolding RdmaServer_init_def Let_def by auto
    with None show ?thesis by (cases s) simp
  next
    case (Some c)
    let ?s3 = "?s2\<lparr>channelRead0 := (if channelRead0 ?s2 = None then GetMethodID J c else channelRead0 ?s2)\<rparr>"
    let ?s4 = "?s3\<lparr>rdmaChannelHandler := handler_ref J jrch\<rparr>"
    have run: "(if channelRead0 ?s3 = None then Inr (False, ?s3)
      else bind_res (init_server E V B host (word_of_int jport) ?s4) (\<lambda>(rc, s4). Inr (rc \<noteq> - 1, s4))) = Inr (ok, s')"
      using assms unfolding RdmaServer_init_def Let_def Some option.case .
    show ?thesis
    proof (cases "channelRead0 ?s3 = None")
      case True
      have "(Inr (False, ?s3) :: (bool \<times> 'a jni_rt) res) = Inr (ok, s')" using run unfolding if_P[OF True] .
      then have "\<not> ok" "s' = ?s3" by auto
      with True show ?thesis by (cases s) simp
    next
      case False
      obtain rc where i: "init_server E V B host (word_of_int jport) ?s4 = Inr (rc, s')" and ok: "ok = (rc \<noteq> - 1)"
        using run unfolding if_not_P[OF False] bind_res_Inr_iff by auto
      have rc: "rc = 0" by (rule init_server_result[OF i])
      have "statics_of s' = statics_of ?s4"
        unfolding statics_of_def jni_more[OF init_server_more[OF i]] ..
      moreover have "statics_set J jrch s ?s4"
        using Some False unfolding statics_set_def by (simp split: if_splits)
      moreover have ok unfolding ok rc by simp
      ultimately show ?thesis unfolding if_P[OF \<open>ok\<close>] using i[unfolded rc] by blast
    qed
  qed
qed

text \<open>
  C30: When \<open>init\<close> returns true, what the callbacks need is in place, and was so before the server
  accepted its first connection: the machine, the method \<open>channelRead0\<close> and the handler are set when
  \<open>init_server\<close> is called and stay as they are, and any messages that workers hand over from then
  on reach \<open>channelRead0\<close> of the handler that was passed to this call, one call for each.
\<close>

theorem init_prepares_upcalls:
  assumes "RdmaServer_init J E V B host jport jrch s = Inr (True, s')"
    and "GetJavaVM J \<noteq> None" and "list_all delivery_ok ds"
    and "java_machine Jv bytes text globals calls"
  shows "\<exists>s1 m j'. init_server E V B host (word_of_int jport) s1 = Inr (0, s') \<and> statics_of s1 = statics_of s' \<and>
    channelRead0 s' = Some m \<and> upcalls Jv (statics_of s') ds j = Inr j' \<and>
    calls j' = calls j @ map (\<lambda>d. (handler_ref J jrch, Some m, dv_remote d, array_of d, dv_len d)) ds"
proof -
  obtain s1 where s1: "init_server E V B host (word_of_int jport) s1 = Inr (0, s')" "statics_set J jrch s s1"
      "statics_of s' = statics_of s1"
    using RdmaServer_init_result[OF assms(1)] by auto
  obtain m where m: "st_channelRead0 (statics_of s1) = Some m" "st_handler (statics_of s1) = handler_ref J jrch"
      "st_jvm (statics_of s1) \<noteq> None"
    using s1(2) assms(2) by (auto simp: statics_set_def statics_of_def)
  obtain j' where "upcalls Jv (statics_of s1) ds j = Inr j'" "calls j' = calls j @
      map (\<lambda>d. (st_handler (statics_of s1), st_channelRead0 (statics_of s1), dv_remote d, array_of d, dv_len d)) ds"
    using java_machine.upcalls_run[OF assms(4) m(3) assms(3), of j] by blast
  moreover have "channelRead0 s' = Some m"
    using m(1) unfolding s1(3)[symmetric] by (simp add: statics_of_def)
  ultimately show ?thesis using s1 m by (intro exI[of _ s1] exI[of _ m] exI[of _ j']) simp
qed

definition demo_jvm :: jvm where
  "demo_jvm = \<lparr>GetJavaVM = Some 1, FindClass = Some 2, GetMethodID = \<lambda>_. Some 3, handler_ref = \<lambda>_. Some 4\<rparr>"

definition demo_jni :: "nat list jni_rt" where
  "demo_jni = server_rt.extend demo_process
     \<lparr>g_jvm = None, RdmaChannelHandler = None, channelRead0 = None, rdmaChannelHandler = None\<rparr>"

lemma demo_init:
  "\<exists>s'. RdmaServer_init demo_jvm demo_env demo_net demo_boot ''node1'' 0 5 demo_jni = Inr (True, s')"
proof -
  have s: "g_jvm demo_jni = None" "RdmaChannelHandler demo_jni = None" "channelRead0 demo_jni = None"
    by (simp_all add: demo_jni_def server_rt.extend_def)
  obtain s' where "init_server demo_env demo_net demo_boot ''node1'' 0 (demo_jni\<lparr>g_jvm := Some 1,
      RdmaChannelHandler := Some 2, channelRead0 := Some 3, rdmaChannelHandler := Some 4\<rparr>) = Inr (0, s')"
    using init_server_ok[OF demo_calls demo_boot_succeeds] by blast
  with s show ?thesis by (simp add: RdmaServer_init_def demo_jvm_def Let_def)
qed

definition demo_delivery :: delivery where
  "demo_delivery = \<lparr>dv_remote = ''10.0.0.2'', dv_alloc = 2, dv_regions = [(0, 2, [8, 9])], dv_len = 2\<rparr>"

theorem init_prepares_upcalls_witness:
  "\<exists>s' j'. RdmaServer_init demo_jvm demo_env demo_net demo_boot ''node1'' 0 5 demo_jni = Inr (True, s') \<and>
     upcalls heap_java (statics_of s') [demo_delivery]
       \<lparr>jh_arrays = [], jh_refs = Map.empty, jh_texts = Map.empty, jh_globals = [], jh_next = 0, jh_calls = []\<rparr> = Inr j' \<and>
     map (\<lambda>(obj, m, h, a, n). (obj, h, a, n)) (jh_calls j') = [(Some 4, ''10.0.0.2'', [8, 9], 2)]"
proof -
  obtain s' where s': "RdmaServer_init demo_jvm demo_env demo_net demo_boot ''node1'' 0 5 demo_jni = Inr (True, s')"
    using demo_init by blast
  have "list_all delivery_ok [demo_delivery]" "GetJavaVM demo_jvm \<noteq> None"
    by (simp_all add: delivery_ok_def demo_delivery_def demo_jvm_def)
  from init_prepares_upcalls[OF s' this(2,1) heap_machine.java_machine_axioms,
    of "\<lparr>jh_arrays = [], jh_refs = Map.empty, jh_texts = Map.empty, jh_globals = [], jh_next = 0, jh_calls = []\<rparr>"]
  show ?thesis
    using s' by (auto simp: demo_delivery_def demo_jvm_def array_of_def set_region_def)
qed

end
