(* ===== verification/Host_Threads.thy ===== *)
theory Host_Threads
  imports Receive_Window
begin

text \<open>
  The receiver of a connection in a process where other threads work: the poll thread replaces the
  receives, senders take chunks from the same pool, chunks of other connections are filled and
  released. What \<open>Receive_Delivery\<close> shows of the receiver alone holds beside all of them.
\<close>

section \<open>The threads of a process\<close>

text \<open>
  The memory and the receiver are \<open>core\<close>, whose \<open>todo\<close> is followed to its end: the completions that
  the handle thread may take, those in the hands of the poll thread (\<open>batch\<close>), those that it has not
  polled (\<open>to_poll\<close>). \<open>out_chunks\<close> are the chunks that other threads or posted receives hold, and
  \<open>budget\<close> bounds the chunks that senders still take; both are there for the statements only.
\<close>

record 'q host =
  core :: "'q recv_sys"
  to_poll :: "ibv_wc list"
  batch :: "ibv_wc list"
  poll_died :: "fault option"
  out_chunks :: "caddr set"
  budget :: nat

text \<open>The chunks of the receives, or of the sends, posted since \<open>s\<close>.\<close>

definition recv_chunks :: "('q, 'z) rt_scheme \<Rightarrow> ('q, 'z) rt_scheme \<Rightarrow> caddr set" where
  "recv_chunks s s' = set (map (\<lambda>(q, wr, rc). sg_addr wr) (drop (length (recv_calls s)) (recv_calls s')))"

definition send_chunks :: "('q, 'z) rt_scheme \<Rightarrow> ('q, 'z) rt_scheme \<Rightarrow> caddr set" where
  "send_chunks s s' = set (map (\<lambda>(q, wr, rc). sg_addr wr) (drop (length (send_calls s)) (send_calls s')))"

text \<open>
  The steps of this connection. The handle thread takes a completion only when it was handed over;
  the poll thread goes over a completion and replaces its receives, and hands its batch over.
\<close>

inductive own_step :: "'q gqueue_ops \<Rightarrow> env \<Rightarrow> 'q host \<Rightarrow> 'q host \<Rightarrow> bool" for Q E where
  receive: "recv_step Q E (core h) s \<Longrightarrow>
     todo s = todo (core h) \<or> length (batch h @ to_poll h) < length (todo (core h)) \<Longrightarrow>
     own_step Q E h (h\<lparr>core := s\<rparr>)"
| poll: "poll_died h = None \<Longrightarrow> to_poll h = wc # rest \<Longrightarrow> replace_receives E wc (core h) = Inr s \<Longrightarrow>
     own_step Q E h (h\<lparr>core := s, to_poll := rest, batch := batch h @ [wc],
       out_chunks := out_chunks h \<union> recv_chunks (core h) s\<rparr>)"
| poll_crash: "poll_died h = None \<Longrightarrow> to_poll h = wc # rest \<Longrightarrow> replace_receives E wc (core h) = Inl e \<Longrightarrow>
     own_step Q E h (h\<lparr>poll_died := Some e\<rparr>)"
| hand: "batch h \<noteq> [] \<Longrightarrow> own_step Q E h (h\<lparr>batch := []\<rparr>)"

text \<open>
  The steps of other threads, on this or any other connection: a whole message is sent; a chunk that
  belongs to them is given back, or written by a sender or by the adapter.
\<close>

inductive other_step :: "env \<Rightarrow> 'q host \<Rightarrow> 'q host \<Rightarrow> bool" for E where
  send: "transports (core h) t = Some tr \<Longrightarrow> rc_qp tr = Some qp \<Longrightarrow> len \<noteq> 0 \<Longrightarrow> unat len \<le> length msg \<Longrightarrow>
     frame_count (unat len) \<le> budget h \<Longrightarrow> send_msg_on E t msg len (core h) = Inr (rc, s) \<Longrightarrow>
     other_step E h (h\<lparr>core := s, out_chunks := out_chunks h \<union> send_chunks (core h) s,
       budget := budget h - frame_count (unat len)\<rparr>)"
| send_both: "transports (core h) t = Some tr \<Longrightarrow> rc_qp tr = Some qp \<Longrightarrow> hl + bl \<noteq> 0 \<Longrightarrow>
     unat hl + unat bl < 2 ^ 32 \<Longrightarrow> unat hl \<le> length header \<Longrightarrow> unat bl \<le> length body \<Longrightarrow>
     frame_count (unat (hl + bl)) \<le> budget h \<Longrightarrow>
     send_msg_with_header_on E t header hl body bl (core h) = Inr (rc, s) \<Longrightarrow>
     other_step E h (h\<lparr>core := s, out_chunks := out_chunks h \<union> send_chunks (core h) s,
       budget := budget h - frame_count (unat (hl + bl))\<rparr>)"
| release: "c \<in> out_chunks h \<Longrightarrow> release_rdma_chunk_to_pool (Some c) (core h) = Inr s \<Longrightarrow>
     other_step E h (h\<lparr>core := s, out_chunks := out_chunks h - {c}\<rparr>)"
| fill: "c \<in> out_chunks h \<Longrightarrow>
     other_step E h (h\<lparr>core := (core h)\<lparr>header_of := (header_of (core h))(c := x),
       body_of := (body_of (core h))(c := b)\<rparr>\<rparr>)"

section \<open>The receiver does not notice the others\<close>

text \<open>The same surroundings, except for the chunks of others.\<close>

abbreviation with_out :: "recv_ctx \<Rightarrow> caddr set \<Rightarrow> recv_ctx" where
  "with_out cx X \<equiv> cx\<lparr>cx_out := X\<rparr>"

lemma with_out_simps [simp]:
  "owned (with_out cx X) k W G = owned cx k W G"
  "handler_inv (with_out cx X) k vs G s = handler_inv cx k vs G s"
  "worker_inv (with_out cx X) r ws s = worker_inv cx r ws s"
  "complete (with_out cx X) g = complete cx g"
  "holds (with_out cx X) = holds cx"
  "pending (with_out cx X) k s = pending cx k s"
  by (simp_all add: owned_def handler_inv_def worker_inv_def complete_def holds_def pending_def fun_eq_iff
      cong: option.case_cong handler_pc.case_cong)

lemma recv_facts_others:
  fixes s s' :: "'q recv_sys"
  assumes F: "recv_facts items cx k D W G ws all free tr s"
    and pool: "pool_wf all' free' s'" "set all \<subseteq> set all'" "set all' - set free' = owned cx k W G \<union> X"
      "owned cx k W G \<inter> X = {}"
    and more: "rt.more s' = rt.more s" "pool_pushes s' = pool_pushes s" "deliveries s' = deliveries s"
      "varrays s' = varrays s" "fresh s \<le> fresh s'"
    and tr: "transports s' (cx_t cx) = Some tr'" "work_queue tr' = work_queue tr"
      "is_work_running tr' = is_work_running tr" "remote_ip tr' = remote_ip tr"
    and wcs: "\<And>a. a \<in> set (cx_arr cx) \<Longrightarrow> work_chunks s' (wc_wr_id (fst a)) = work_chunks s (wc_wr_id (fst a))"
    and bytes: "\<And>c. c \<in> owned cx k W G \<Longrightarrow> header_of s' c = header_of s c \<and> body_of s' c = body_of s c"
  shows "recv_facts items (with_out cx X) k D W G ws all' free' tr' s'"
proof -
  note F' = recv_factsD[OF F]
  note sys = sys_fields[OF more(1)]
  show ?thesis
  proof (rule recv_factsI)
    show "handler_inv (with_out cx X) k (items (work_queue tr')) G s'"
      using F'(4) by (simp add: handler_inv_def sys tr split: handler_pc.splits)
    show "worker_inv (with_out cx X) (is_work_running tr') ws s'"
      using F'(5) more(2) sys by (simp add: worker_inv_def tr)
    show "\<exists>n. work_chunks s' (wc_wr_id (fst (cx_arr (with_out cx X) ! i)))
        = Some \<lparr>wc_transport = cx_t (with_out cx X), wc_chunk = Some (snd (cx_arr (with_out cx X) ! i)), wc_len = n\<rparr>"
      if "i < length (cx_arr (with_out cx X))" "pending (with_out cx X) k s' \<le> i" for i
    proof -
      have "pending cx k s' = pending cx k s" by (simp add: pending_def sys)
      with F'(16)[of i] that wcs[of "cx_arr cx ! i"] show ?thesis by simp
    qed
    show "header_of s' c = cx_H (with_out cx X) c" "body_of s' c = cx_B (with_out cx X) c"
      if "c \<in> owned (with_out cx X) k W G" for c
      using that F'(17,18)[of c] bytes[of c] by simp_all
    show "v < fresh s'" if "v \<in> dom (varrays s')" for v
      using that F'(13)[of v] more(4,5) by simp
    show "complete (with_out cx X) g" if "g \<in> set D \<union> set W" for g using F'(7)[OF that] by simp
    show "G = [] \<or> \<not> complete (with_out cx X) (hd G)"
      if "is_work_running tr' = 0" "\<And>wc. hpc s' \<noteq> Stored wc"
      using F'(14) that by (simp add: tr sys)
    show "set all' - set free' = owned (with_out cx X) k W G \<union> cx_out (with_out cx X)" using pool(3) by simp
    show "owned (with_out cx X) k W G \<inter> cx_out (with_out cx X) = {}" using pool(4) by simp
    show "snd ` set (cx_arr (with_out cx X)) \<subseteq> set all'" using F'(22) pool(2) by auto
  qed (use F'(1,2,3,6,8-12,15) pool(1) more(3,4) tr in simp_all)
qed

text \<open>What the steps of the receiver leave alone.\<close>

definition kept :: "('q, 'z) rt_scheme \<Rightarrow> ('q, 'z) rt_scheme \<Rightarrow> bool" where
  "kept s s' \<longleftrightarrow> fresh s \<le> fresh s' \<and> total_size s' = total_size s \<and> recv_calls s' = recv_calls s \<and>
     (\<forall>t. map_option rc_qp (transports s' t) = map_option rc_qp (transports s t))"

lemma kept_trans: "kept s s' \<Longrightarrow> kept s' s'' \<Longrightarrow> kept s s''"
  by (simp add: kept_def)

lemma release_kept: 
  fixes s s' :: "('q, 'z) rt_scheme"
  shows "release_rdma_chunk_to_pool p s = Inr s' \<Longrightarrow> kept s s'"
  by (auto simp: kept_def release_rdma_chunk_to_pool_def bind_res_Inr_iff split: if_splits)

lemma recv_store_kept: "recv_store Q E wc found s = Inr s' \<Longrightarrow> kept s s'"
  by (cases found)
    (auto simp: kept_def recv_store_def bind_res_def Let_def VARRY_MALLOC0_def malloc_def transport_at_def
      deref_def split: sum.splits if_splits option.splits prod.splits)

lemma recv_store_more: "recv_store Q E wc found s = Inr s' \<Longrightarrow> rt.more s' = rt.more s"
  by (cases found) (auto dest!: recv_store_None recv_store_Some)

lemma work_message_kept: "work_message t v s = Inr s' \<Longrightarrow> kept s s'"
proof -
  assume "work_message t v s = Inr s'"
  then obtain ds va s2 n where s2: "for_loop 0 n (release_turn va) (s\<lparr>deliveries := ds\<rparr>) = Inr s2"
      "s' = s2\<lparr>varrays := (varrays s2)(v := None)\<rparr>"
    by (auto simp: work_message_def bind_res_def Let_def split: sum.splits if_splits prod.splits)
  have "kept (s\<lparr>deliveries := ds\<rparr>) s2"
    by (rule for_loop_relates[OF s2(1)])
      (auto simp: release_turn_def bind_res_Inr_iff kept_def[of s s for s] intro: kept_trans dest: release_kept)
  then show ?thesis by (simp add: kept_def s2(2))
qed

lemma recv_step_kept:
  assumes "recv_step Q E s s'"
  shows "kept s s'" and "todo s' = todo s \<or> (\<exists>wc. todo s = wc # todo s')"
proof -
  have "kept s s' \<and> (todo s' = todo s \<or> (\<exists>wc. todo s = wc # todo s'))"
    using assms
  proof cases
    case (handle_send wc rest s1)
    obtain w s2 where s2: "release_rdma_chunk_to_pool w s = Inr s2" "s1 = free_work_chunk (wc_wr_id wc) s2"
      using handle_send(6) by (auto simp: handle_send_event_def bind_res_Inr_iff)
    then show ?thesis using release_kept[OF s2(1)] handle_send(1,3) by (simp add: kept_def free_work_chunk_def)
  next
    case (store wc found s1)
    then show ?thesis using recv_store_kept[OF store(3)] sys_fields[OF recv_store_more[OF store(3)]] by (simp add: kept_def)
  next
    case (wake wc w s1)
    then show ?thesis using recv_wake_cases[OF wake(4)] by (auto simp: kept_def free_work_chunk_def)
  next
    case (take j v s1)
    then show ?thesis using work_take_cases[OF take(4)] by (auto simp: kept_def)
  next
    case (stop j s1)
    then show ?thesis using work_take_cases[OF stop(4)] by (auto simp: kept_def)
  next
    case (deliver j v s1)
    then show ?thesis using work_message_kept[OF deliver(4)] sys_fields[OF work_message_effect(3)[OF deliver(4)]]
      by (simp add: kept_def)
  qed (simp_all add: kept_def)
  then show "kept s s'" "todo s' = todo s \<or> (\<exists>wc. todo s = wc # todo s')" by blast+
qed

section \<open>The invariant\<close>

abbreviation unpolled :: "recv_ctx \<Rightarrow> 'q host \<Rightarrow> arrival list" where
  "unpolled cx h \<equiv> drop (length (cx_arr cx) - length (to_poll h)) (cx_arr cx)"

text \<open>
  \<open>n\<close> receives were posted at the start. The pool has room for the receives that the completions not
  yet polled ask for, and for the chunks of the senders.
\<close>

definition host_inv ::
  "'q gqueue_ops \<Rightarrow> ('q \<Rightarrow> nat list) \<Rightarrow> env \<Rightarrow> recv_ctx \<Rightarrow> nat \<Rightarrow> 'q host \<Rightarrow> bool" where
  "host_inv Q items E cx n h \<longleftrightarrow>
     recv_inv Q items E (with_out cx (out_chunks h)) (core h) \<and> poll_died h = None \<and>
     (\<exists>handed. todo (core h) = handed @ batch h @ to_poll h) \<and>
     list_all (\<lambda>(wc, c). wc_wr_id wc < fresh (core h)) (cx_arr cx) \<and>
     (case transports (core h) (cx_t cx) of None \<Rightarrow> False | Some tr \<Rightarrow> rc_qp tr \<noteq> None) \<and>
     unat (total_size (core h)) + 4096 * (sum_list (map (asks (cx_H cx)) (unpolled cx h)) + budget h) < 2 ^ 32 \<and>
     length (recv_calls (core h)) + sum_list (map (asks (cx_H cx)) (unpolled cx h))
       = n + sum_list (map (asks (cx_H cx)) (cx_arr cx))"

lemma recv_inv_facts:
  assumes "recv_inv Q items E cx s"
  obtains k D W G ws all free tr where "gqueue Q items" "calls_succeed E" "arrivals_ok (cx_H cx) (cx_arr cx)"
    "recv_facts items cx k D W G ws all free tr s"
  using assms by (auto simp: recv_inv_def)

lemma recv_inv_others:
  fixes s s' :: "'q recv_sys"
  assumes inv: "recv_inv Q items E (with_out cx O1) s" and ids: "list_all (\<lambda>(wc, c). wc_wr_id wc < fresh s) (cx_arr cx)"
    and pool: "\<And>ns xs. pool_inv s ns xs \<Longrightarrow> O1 \<subseteq> set (chunk_addrs ns) - set xs \<Longrightarrow> \<exists>ns' xs'. pool_inv s' ns' xs' \<and>
      set (chunk_addrs ns) \<subseteq> set (chunk_addrs ns') \<and>
      set (chunk_addrs ns') - set xs' - O2 = set (chunk_addrs ns) - set xs - O1 \<and> O2 \<subseteq> set (chunk_addrs ns') - set xs'"
    and more: "rt.more s' = rt.more s" "pool_pushes s' = pool_pushes s" "deliveries s' = deliveries s"
      "varrays s' = varrays s" "fresh s \<le> fresh s'"
    and tr: "\<And>tr. transports s (cx_t cx) = Some tr \<Longrightarrow> \<exists>tr'. transports s' (cx_t cx) = Some tr' \<and>
      work_queue tr' = work_queue tr \<and> is_work_running tr' = is_work_running tr \<and> remote_ip tr' = remote_ip tr"
    and wcs: "\<forall>w < fresh s. work_chunks s' w = work_chunks s w"
    and bytes: "\<And>ns xs c. pool_inv s ns xs \<Longrightarrow> c \<in> set (chunk_addrs ns) - set xs - O1 \<Longrightarrow>
      header_of s' c = header_of s c \<and> body_of s' c = body_of s c"
  shows "recv_inv Q items E (with_out cx O2) s'"
proof -
  let ?cx = "with_out cx O1"
  obtain k D W G ws all free tr where Q: "gqueue Q items" "calls_succeed E" "arrivals_ok (cx_H ?cx) (cx_arr ?cx)"
      and F: "recv_facts items ?cx k D W G ws all free tr s"
    by (rule recv_inv_facts[OF inv])
  note F' = recv_factsD[OF F]
  obtain ns where ns: "pool_inv s ns free" "all = chunk_addrs ns" using F'(19) by (auto simp: pool_wf_def)
  have own: "owned cx k W G = set all - set free - O1" "O1 \<subseteq> set all - set free"
    using F'(20,21) by (simp_all add: Int_commute) blast+
  obtain ns' xs' where p: "pool_inv s' ns' xs'" "set all \<subseteq> set (chunk_addrs ns')"
      "set (chunk_addrs ns') - set xs' - O2 = owned cx k W G" "O2 \<subseteq> set (chunk_addrs ns') - set xs'"
    using pool[OF ns(1)] own unfolding ns(2) by auto
  obtain tr' where tr': "transports s' (cx_t cx) = Some tr'" "work_queue tr' = work_queue tr"
      "is_work_running tr' = is_work_running tr" "remote_ip tr' = remote_ip tr"
    using tr F'(2) by auto
  have "recv_facts items (with_out ?cx O2) k D W G ws (chunk_addrs ns') xs' tr' s'"
  proof (rule recv_facts_others[OF F _ p(2)])
    show "pool_wf (chunk_addrs ns') xs' s'" using p(1) by (auto simp: pool_wf_def)
    show "set (chunk_addrs ns') - set xs' = owned ?cx k W G \<union> O2" "owned ?cx k W G \<inter> O2 = {}"
      using p(3,4) by (simp_all) blast+
    show "work_chunks s' (wc_wr_id (fst a)) = work_chunks s (wc_wr_id (fst a))" if "a \<in> set (cx_arr ?cx)" for a
      using ids that wcs by (auto simp: list_all_iff)
    show "header_of s' c = header_of s c \<and> body_of s' c = body_of s c" if "c \<in> owned ?cx k W G" for c
      using bytes[OF ns(1), of c] that own(1) ns(2) by simp
  qed (use more tr' in simp_all)
  then show ?thesis using Q unfolding recv_inv_def by simp blast
qed

lemma host_invD:
  assumes "host_inv Q items E cx n h"
  shows "recv_inv Q items E (with_out cx (out_chunks h)) (core h)" "poll_died h = None"
    "\<exists>handed. todo (core h) = handed @ batch h @ to_poll h"
    "list_all (\<lambda>(wc, c). wc_wr_id wc < fresh (core h)) (cx_arr cx)"
    "\<exists>tr qp. transports (core h) (cx_t cx) = Some tr \<and> rc_qp tr = Some qp"
    "unat (total_size (core h)) + 4096 * (sum_list (map (asks (cx_H cx)) (unpolled cx h)) + budget h) < 2 ^ 32"
    "length (recv_calls (core h)) + sum_list (map (asks (cx_H cx)) (unpolled cx h))
      = n + sum_list (map (asks (cx_H cx)) (cx_arr cx))"
  using assms unfolding host_inv_def by (auto split: option.splits)

text \<open>What the poll thread still has to do are the last completions.\<close>

lemma handler_todo: "handler_inv cx k vs G s \<Longrightarrow> \<exists>j \<ge> k. todo s = map fst (drop j (cx_arr cx))"
  unfolding handler_inv_def by (cases "hpc s") (auto intro: le_SucI)

lemma next_polled:
  assumes F: "recv_facts items cx k D W G ws all free tr s" and "todo s = ys @ wc # rest"
  obtains c where "length rest < length (cx_arr cx)" "cx_arr cx ! (length (cx_arr cx) - Suc (length rest)) = (wc, c)"
    "k \<le> length (cx_arr cx) - Suc (length rest)"
proof -
  obtain j where j: "k \<le> j" "ys @ wc # rest = map fst (drop j (cx_arr cx))"
    using handler_todo[OF recv_factsD(4)[OF F]] assms(2) by auto
  from arg_cong[OF j(2), of length] have l: "length ys + Suc (length rest) = length (cx_arr cx) - j" by simp
  have "wc = map fst (drop j (cx_arr cx)) ! length ys" by (simp flip: j(2))
  also have "\<dots> = fst (cx_arr cx ! (j + length ys))" using l by simp
  also have "j + length ys = length (cx_arr cx) - Suc (length rest)" using l by linarith
  finally have "cx_arr cx ! (length (cx_arr cx) - Suc (length rest)) = (wc, snd (cx_arr cx ! (length (cx_arr cx) - Suc (length rest))))"
    by (simp add: prod_eq_iff)
  moreover have "k \<le> length (cx_arr cx) - Suc (length rest)" "length rest < length (cx_arr cx)" using j(1) l by linarith+
  ultimately show thesis using that by blast
qed

lemma arrivals_nonzero:
  assumes "arrivals_ok H arr" "(wc, c) \<in> set arr" "opcode wc = IBV_WC_RECV"
  shows "chunk_num (H c) \<noteq> 0"
proof -
  have "unat (chunk_num (H c)) = length (of_id (data_id (H c)) (frames H arr))"
    using arrivals_okD[OF assms(1,2)] assms(3) by (simp add: arrival_ok_def)
  moreover have "c \<in> set (of_id (data_id (H c)) (frames H arr))"
    using assms(2,3) by (force simp: of_id_def frames_def)
  ultimately show ?thesis by (cases "of_id (data_id (H c)) (frames H arr)") auto
qed

lemma more_receives_pool:
  assumes "more_receives m ns xs s s'" and "O1 \<subseteq> set (chunk_addrs ns) - set xs"
  shows "\<exists>ns' xs'. pool_inv s' ns' xs' \<and> set (chunk_addrs ns) \<subseteq> set (chunk_addrs ns') \<and>
    set (chunk_addrs ns') - set xs' - (O1 \<union> recv_chunks s s') = set (chunk_addrs ns) - set xs - O1 \<and>
    O1 \<union> recv_chunks s s' \<subseteq> set (chunk_addrs ns') - set xs'"
proof -
  obtain ns' xs' new where n: "pool_inv s' ns' xs'" "recv_calls s' = recv_calls s @ new"
      "set (map (\<lambda>(q, wr, rc). sg_addr wr) new) \<subseteq> set (chunk_addrs ns') - set xs'"
      "set (chunk_addrs ns) \<subseteq> set (chunk_addrs ns')"
      "set (chunk_addrs ns) - set xs = set (chunk_addrs ns') - set xs' - set (map (\<lambda>(q, wr, rc). sg_addr wr) new)"
    using assms(1) unfolding more_receives_def by (elim conjE exE) (rule that; assumption)
  have r: "recv_chunks s s' = set (map (\<lambda>(q, wr, rc). sg_addr wr) new)" by (simp add: recv_chunks_def n(2))
  show ?thesis
    using n(1,3-5) assms(2) unfolding r by (intro exI[of _ ns'] exI[of _ xs'] conjI) blast+
qed

lemma member_drop: "k \<le> i \<Longrightarrow> i < length xs \<Longrightarrow> xs ! i \<in> set (drop k xs)"
  by (auto simp: in_set_conv_nth intro!: exI[of _ "i - k"])

lemma recv_measure_cong:
  fixes s s' :: "'q recv_sys"
  assumes "rt.more s' = rt.more s" "pool_pushes s' = pool_pushes s"
    and "map_option work_queue (transports s' t) = map_option work_queue (transports s t)"
  shows "recv_measure items t s' = recv_measure items t s"
proof -
  have "queue_len items t s' = queue_len items t s"
    using assms(3) by (auto simp: queue_len_def split: option.splits)
  then show ?thesis using sys_fields[OF assms(1)] assms(2) by (simp add: recv_measure_def workers_weight_def)
qed

lemma host_poll:
  assumes inv: "host_inv Q items E cx n h" and p: "to_poll h = wc # rest"
  shows "\<exists>s'. replace_receives E wc (core h) = Inr s' \<and>
    recv_measure items (cx_t cx) s' = recv_measure items (cx_t cx) (core h) \<and> host_inv Q items E cx n
    (h\<lparr>core := s', to_poll := rest, batch := batch h @ [wc], out_chunks := out_chunks h \<union> recv_chunks (core h) s'\<rparr>)"
proof -
  note h = host_invD[OF inv]
  let ?cx = "with_out cx (out_chunks h)" and ?s = "core h" and ?H = "cx_H cx"
  let ?i = "length (cx_arr cx) - Suc (length rest)"
  obtain k D W G ws all free tr where Q: "gqueue Q items" "calls_succeed E" "arrivals_ok (cx_H ?cx) (cx_arr ?cx)"
      and F: "recv_facts items ?cx k D W G ws all free tr ?s"
    by (rule recv_inv_facts[OF h(1)])
  note F' = recv_factsD[OF F]
  obtain handed where todo: "todo ?s = handed @ batch h @ wc # rest" using h(3) p by auto
  obtain c where i: "length rest < length (cx_arr cx)" "cx_arr cx ! ?i = (wc, c)" "k \<le> ?i"
    using next_polled[OF F, of "handed @ batch h" wc rest] todo by auto
  have lt: "?i < length (cx_arr cx)" using i(1) by linarith
  then have m: "(wc, c) \<in> set (cx_arr cx)" using i(2) nth_mem by metis
  have "c \<in> snd ` set (drop k (cx_arr cx))" using member_drop[OF i(3) lt] i(2) by force
  then have own: "c \<in> owned cx k W G" by (simp add: owned_def)
  obtain ns where ns: "pool_inv ?s ns free" "all = chunk_addrs ns" using F'(19) by (auto simp: pool_wf_def)
  have "pending cx k ?s \<le> ?i" using i(3) by (cases "hpc ?s") (simp_all add: pending_def)
  then obtain w where w: "work_chunks ?s (wc_wr_id wc) = Some w" "wc_transport w = cx_t cx" "wc_chunk w = Some c"
    using F'(16)[of ?i] lt i(2) by auto
  have "c \<in> set all" using imageI[OF m, of snd] F'(22) by auto
  then have live: "chunk_live ?s c" by (rule pool_wf_live[OF F'(19)])
  obtain tr' qp where tr: "transports ?s (cx_t cx) = Some tr'" "rc_qp tr' = Some qp" using h(5) by blast
  have H: "header_of ?s c = ?H c" using F'(17)[of c] own by simp
  have d: "unpolled cx h = (wc, c) # drop (Suc ?i) (cx_arr cx)"
    using lt i(2) Cons_nth_drop_Suc[OF lt] p by simp
  then have asked: "sum_list (map (asks ?H) (unpolled cx h)) = asks ?H (wc, c) + sum_list (map (asks ?H) (drop (Suc ?i) (cx_arr cx)))"
    by simp
  have a: "asks (header_of ?s) (wc, c) = asks ?H (wc, c)" by (simp add: asks_def H)
  obtain s' where s': "replace_receives E wc ?s = Inr s'" "more_receives (asks ?H (wc, c)) ns free ?s s'"
    using replace_one[OF ns(1) Q(2) tr w live] arrivals_nonzero[of ?H "cx_arr cx" wc c] Q(3) m h(6) asked
    unfolding a H by fastforce
  have mr: "unat (total_size s') \<le> unat (total_size ?s) + 4096 * asks ?H (wc, c)"
     "transports s' = transports ?s" "header_of s' = header_of ?s" "body_of s' = body_of ?s"
     "fresh ?s \<le> fresh s'" "\<forall>w < fresh ?s. work_chunks s' w = work_chunks ?s w"
     "varrays s' = varrays ?s" "pool_pushes s' = pool_pushes ?s"
     "deliveries s' = deliveries ?s" "rt.more s' = rt.more ?s"
     "length (recv_calls s') = length (recv_calls ?s) + asks ?H (wc, c)"
    using s'(2) unfolding more_receives_def by auto
  have "recv_inv Q items E (with_out cx (out_chunks h \<union> recv_chunks ?s s')) s'"
  proof (rule recv_inv_others[OF h(1,4)])
    fix ns1 xs1 assume x: "pool_inv ?s ns1 xs1" "out_chunks h \<subseteq> set (chunk_addrs ns1) - set xs1"
    from replace_one[OF x(1) Q(2) tr w live] arrivals_nonzero[of ?H "cx_arr cx" wc c] Q(3) m h(6) asked
    have "more_receives (asks ?H (wc, c)) ns1 xs1 ?s s'" using s'(1) unfolding a H by fastforce
    from more_receives_pool[OF this x(2)] show "\<exists>ns' xs'. pool_inv s' ns' xs' \<and>
        set (chunk_addrs ns1) \<subseteq> set (chunk_addrs ns') \<and>
        set (chunk_addrs ns') - set xs' - (out_chunks h \<union> recv_chunks ?s s') = set (chunk_addrs ns1) - set xs1 - out_chunks h \<and>
        out_chunks h \<union> recv_chunks ?s s' \<subseteq> set (chunk_addrs ns') - set xs'" .
  qed (use mr in simp_all)
  moreover have "todo s' = handed @ (batch h @ [wc]) @ rest" using sys_fields[OF mr(10)] todo by simp
  moreover have "list_all (\<lambda>(wc, c). wc_wr_id wc < fresh s') (cx_arr cx)"
    using h(4) mr(5) by (auto simp: list_all_iff)
  ultimately have "host_inv Q items E cx n
    (h\<lparr>core := s', to_poll := rest, batch := batch h @ [wc], out_chunks := out_chunks h \<union> recv_chunks ?s s'\<rparr>)"
    using h(2,6,7) tr mr(1,2,11) asked i(1) unfolding host_inv_def by (simp add: Suc_diff_Suc)
  moreover have "recv_measure items (cx_t cx) s' = recv_measure items (cx_t cx) ?s"
    using mr by (intro recv_measure_cong) simp_all
  ultimately show ?thesis using s'(1) by blast
qed

section \<open>The steps\<close>

lemma message_posted_pool:
  assumes "message_posted E t qp tr p ns xs s s'" and "O1 \<subseteq> set (chunk_addrs ns) - set xs"
  shows "\<exists>ns' xs'. pool_inv s' ns' xs' \<and> set (chunk_addrs ns) \<subseteq> set (chunk_addrs ns') \<and>
    set (chunk_addrs ns') - set xs' - (O1 \<union> send_chunks s s') = set (chunk_addrs ns) - set xs - O1 \<and>
    O1 \<union> send_chunks s s' \<subseteq> set (chunk_addrs ns') - set xs'"
    and "c \<in> set (chunk_addrs ns) - set xs \<Longrightarrow> header_of s' c = header_of s c \<and> body_of s' c = body_of s c"
    and "unat (total_size s') \<le> unat (total_size s) + 4096 * frame_count (length p)"
    and "transports s' = (transports s)(t \<mapsto> tr\<lparr>tr_data_id := tr_data_id tr + 1\<rparr>)"
    and "\<exists>v. varrays s' = (varrays s)(v := None) \<and> fresh s \<le> v" and "fresh s \<le> fresh s'"
    and "\<forall>w < fresh s. work_chunks s' w = work_chunks s w" and "recv_calls s' = recv_calls s"
    and "pool_pushes s' = pool_pushes s" and "deliveries s' = deliveries s" and "rt.more s' = rt.more s"
proof -
  obtain ns' xs' cs new v where m: "pool_inv s' ns' xs'" "set cs \<subseteq> set (chunk_addrs ns') - set xs'"
      "set (chunk_addrs ns) \<subseteq> set (chunk_addrs ns')"
      "set (chunk_addrs ns) - set xs = set (chunk_addrs ns') - set xs' - set cs"
      "\<forall>a. a \<notin> set cs \<longrightarrow> header_of s' a = header_of s a \<and> body_of s' a = body_of s a"
      "unat (total_size s') \<le> unat (total_size s) + round_up (frame_count (length p) - length xs)"
      "send_calls s' = send_calls s @ new" "map (\<lambda>(q, wr, rc). sg_addr wr) new = cs"
      "transports s' = (transports s)(t \<mapsto> tr\<lparr>tr_data_id := tr_data_id tr + 1\<rparr>)"
      "varrays s' = (varrays s)(v := None)" "fresh s \<le> v" "fresh s \<le> fresh s'"
      "\<forall>w < fresh s. work_chunks s' w = work_chunks s w" "recv_calls s' = recv_calls s"
      "pool_pushes s' = pool_pushes s" "deliveries s' = deliveries s" "rt.more s' = rt.more s"
    using assms(1) unfolding message_posted_def by (elim exE conjE) (rule that; assumption)
  have c: "send_chunks s s' = set cs" using m(8) by (simp add: send_chunks_def m(7))
  show "\<exists>ns' xs'. pool_inv s' ns' xs' \<and> set (chunk_addrs ns) \<subseteq> set (chunk_addrs ns') \<and>
    set (chunk_addrs ns') - set xs' - (O1 \<union> send_chunks s s') = set (chunk_addrs ns) - set xs - O1 \<and>
    O1 \<union> send_chunks s s' \<subseteq> set (chunk_addrs ns') - set xs'"
    using m(1-4) assms(2) unfolding c by (intro exI[of _ ns'] exI[of _ xs'] conjI) blast+
  show "header_of s' c = header_of s c \<and> body_of s' c = body_of s c" if "c \<in> set (chunk_addrs ns) - set xs"
    using that m(4,5) by blast
  show "unat (total_size s') \<le> unat (total_size s) + 4096 * frame_count (length p)"
    using m(6) round_up_le[of "frame_count (length p) - length xs"] by linarith
  show "\<exists>v. varrays s' = (varrays s)(v := None) \<and> fresh s \<le> v" using m(10,11) by blast
qed (use assms(1) in \<open>auto simp: message_posted_def\<close>)

lemma host_send:
  assumes inv: "host_inv Q items E cx n h"
    and tr: "transports (core h) t = Some tr" "rc_qp tr = Some qp"
    and room: "frame_count (length p) \<le> budget h"
    and posted: "\<And>ns xs. pool_inv (core h) ns xs \<Longrightarrow> message_posted E t qp tr p ns xs (core h) s'"
  shows "host_inv Q items E cx n (h\<lparr>core := s', out_chunks := out_chunks h \<union> send_chunks (core h) s',
    budget := budget h - frame_count (length p)\<rparr>)"
    and "recv_measure items (cx_t cx) s' = recv_measure items (cx_t cx) (core h)"
proof -
  note h = host_invD[OF inv]
  let ?s = "core h"
  obtain k D W G ws all free tr0 where F: "recv_facts items (with_out cx (out_chunks h)) k D W G ws all free tr0 ?s"
    by (rule recv_inv_facts[OF h(1)])
  note F' = recv_factsD[OF F]
  obtain ns where ns: "pool_inv ?s ns free" using F'(19) by (auto simp: pool_wf_def)
  note m = message_posted_pool[OF posted[OF ns], of "{}"]
  have v: "varrays s' = varrays ?s"
  proof -
    obtain v where v: "varrays s' = (varrays ?s)(v := None)" "fresh ?s \<le> v" using m(5) by auto
    then have "varrays ?s v = None" using F'(13)[of v] by (cases "varrays ?s v") auto
    then show ?thesis using v(1) by (simp add: fun_upd_idem)
  qed
  have "recv_inv Q items E (with_out cx (out_chunks h \<union> send_chunks ?s s')) s'"
  proof (rule recv_inv_others[OF h(1,4)])
    fix ns1 xs1 assume x: "pool_inv ?s ns1 xs1" "out_chunks h \<subseteq> set (chunk_addrs ns1) - set xs1"
    show "\<exists>ns' xs'. pool_inv s' ns' xs' \<and> set (chunk_addrs ns1) \<subseteq> set (chunk_addrs ns') \<and>
        set (chunk_addrs ns') - set xs' - (out_chunks h \<union> send_chunks ?s s') = set (chunk_addrs ns1) - set xs1 - out_chunks h \<and>
        out_chunks h \<union> send_chunks ?s s' \<subseteq> set (chunk_addrs ns') - set xs'"
      by (rule message_posted_pool(1)[OF posted[OF x(1)] x(2)])
  next
    fix ns1 xs1 c assume x: "pool_inv ?s ns1 xs1" and "c \<in> set (chunk_addrs ns1) - set xs1 - out_chunks h"
    then show "header_of s' c = header_of ?s c \<and> body_of s' c = body_of ?s c"
      using message_posted_pool(2)[OF posted[OF x], of "{}" c] by simp
  qed (use m v tr(1) in auto)
  moreover have "todo s' = todo ?s" using sys_fields[OF m(11)] by simp
  moreover have "list_all (\<lambda>(wc, c). wc_wr_id wc < fresh s') (cx_arr cx)"
    using h(4) m(6) by (auto simp: list_all_iff)
  moreover obtain z where z: "budget h = frame_count (length p) + z" using room le_Suc_ex by blast
  ultimately show "host_inv Q items E cx n (h\<lparr>core := s', out_chunks := out_chunks h \<union> send_chunks ?s s',
      budget := budget h - frame_count (length p)\<rparr>)"
    using h(2,3,5-7) m(3,4,8) tr unfolding host_inv_def by (auto simp: algebra_simps split: option.splits if_splits)
  show "recv_measure items (cx_t cx) s' = recv_measure items (cx_t cx) ?s"
    using m(4,9,11) tr(1) by (intro recv_measure_cong) auto
qed

lemma host_release:
  assumes inv: "host_inv Q items E cx n h" and c: "c \<in> out_chunks h"
    and r: "release_rdma_chunk_to_pool (Some c) (core h) = Inr s'"
  shows "host_inv Q items E cx n (h\<lparr>core := s', out_chunks := out_chunks h - {c}\<rparr>)"
    and "recv_measure items (cx_t cx) s' = recv_measure items (cx_t cx) (core h)"
proof -
  note h = host_invD[OF inv]
  let ?s = "core h"
  note fr = release_frame[OF r] 
  then have more: "mem.more s' = mem.more ?s" by simp
  note f = rt_fields_cong[OF more]
  have tot: "total_size s' = total_size ?s" using release_kept[OF r] by (simp add: kept_def)
  have "recv_inv Q items E (with_out cx (out_chunks h - {c})) s'"
  proof (rule recv_inv_others[OF h(1,4)])
    fix ns1 xs1 assume x: "pool_inv ?s ns1 xs1" "out_chunks h \<subseteq> set (chunk_addrs ns1) - set xs1"
    have wf: "pool_wf (chunk_addrs ns1) xs1 ?s" using x(1) by (auto simp: pool_wf_def)
    have "c \<in> set (chunk_addrs ns1)" "c \<notin> set xs1" using c x(2) by auto
    then obtain s2 where "release_rdma_chunk_to_pool (Some c) ?s = Inr s2" "pool_wf (chunk_addrs ns1) (c # xs1) s2"
      using rbp.release_out[OF wf] by blast
    with r obtain ns2 where n: "pool_inv s' ns2 (c # xs1)" "chunk_addrs ns2 = chunk_addrs ns1"
      by (auto simp: pool_wf_def)
    show "\<exists>ns' xs'. pool_inv s' ns' xs' \<and> set (chunk_addrs ns1) \<subseteq> set (chunk_addrs ns') \<and>
        set (chunk_addrs ns') - set xs' - (out_chunks h - {c}) = set (chunk_addrs ns1) - set xs1 - out_chunks h \<and>
        out_chunks h - {c} \<subseteq> set (chunk_addrs ns') - set xs'"
      using n c x(2) by (intro exI[of _ ns2] exI[of _ "c # xs1"]) auto
  qed (use fr f in simp_all)
  moreover have "todo s' = todo ?s" using sys_fields[OF f(8)] by simp
  ultimately show "host_inv Q items E cx n (h\<lparr>core := s', out_chunks := out_chunks h - {c}\<rparr>)"
    using h(2-7) fr f tot unfolding host_inv_def by (auto split: option.splits)
  show "recv_measure items (cx_t cx) s' = recv_measure items (cx_t cx) ?s"
    using f by (intro recv_measure_cong) simp_all
qed

lemma host_fill:
  assumes inv: "host_inv Q items E cx n h" and c: "c \<in> out_chunks h"
  shows "host_inv Q items E cx n (h\<lparr>core := (core h)\<lparr>header_of := (header_of (core h))(c := x),
       body_of := (body_of (core h))(c := b)\<rparr>\<rparr>)"
proof -
  note h = host_invD[OF inv]
  let ?s = "core h" and ?s' = "(core h)\<lparr>header_of := (header_of (core h))(c := x), body_of := (body_of (core h))(c := b)\<rparr>"
  have "recv_inv Q items E (with_out cx (out_chunks h)) ?s'"
  proof (rule recv_inv_others[OF h(1,4)])
    fix ns1 xs1 assume x: "pool_inv ?s ns1 xs1" "out_chunks h \<subseteq> set (chunk_addrs ns1) - set xs1"
    have "pool_inv ?s' ns1 xs1" by (rule pool_inv_cong[OF x(1)]) simp_all
    then show "\<exists>ns' xs'. pool_inv ?s' ns' xs' \<and> set (chunk_addrs ns1) \<subseteq> set (chunk_addrs ns') \<and>
        set (chunk_addrs ns') - set xs' - out_chunks h = set (chunk_addrs ns1) - set xs1 - out_chunks h \<and>
        out_chunks h \<subseteq> set (chunk_addrs ns') - set xs'" using x(2) by blast
  qed (use c in auto)
  then show ?thesis using h(2-7) unfolding host_inv_def by (auto split: option.splits)
qed

lemma host_other:
  assumes inv: "host_inv Q items E cx n h" and step: "other_step E h h'"
  shows "host_inv Q items E cx n h' \<and> recv_measure items (cx_t cx) (core h') = recv_measure items (cx_t cx) (core h)
    \<and> to_poll h' = to_poll h \<and> batch h' = batch h"
proof -
  note h = host_invD[OF inv]
  have E: "calls_succeed E" using h(1) by (simp add: recv_inv_def)
  have room: "unat (total_size (core h)) + round_up (m - length xs) < 2 ^ 32" if "m \<le> budget h" for m and xs :: "caddr list"
  proof -
    have "round_up (m - length xs) \<le> 4096 * m" using round_up_le[of "m - length xs"] by linarith
    then show ?thesis using h(6) that by (simp add: algebra_simps)
  qed
  show ?thesis
    using step
  proof cases
    case (send t tr qp len msg rc s)
    have "message_posted E t qp tr (take (unat len) msg) ns xs (core h) s" if "pool_inv (core h) ns xs" for ns xs
      using send_msg_on_ok[OF that E send(2-5)] room[OF send(6)] send(7) by (auto simp: chunk_count_eq)
    moreover have "length (take (unat len) msg) = unat len" using send(5) by simp
    ultimately show ?thesis
      using host_send[OF inv send(2,3), of "take (unat len) msg" s] send(1,6) by simp
  next
    case (send_both t tr qp hl bl header body rc s)
    have len: "unat (hl + bl) = unat hl + unat bl" using send_both(5) by (simp add: unat_plus_if')
    let ?p = "take (unat hl) header @ take (unat bl) body"
    have "message_posted E t qp tr ?p ns xs (core h) s" if "pool_inv (core h) ns xs" for ns xs
      using send_msg_with_header_on_ok[OF that E send_both(2,3,5,4,6,7)] room[OF send_both(8)] send_both(9)
      by (auto simp: chunk_count_eq)
    moreover have "length ?p = unat (hl + bl)" using send_both(6,7) len by simp
    ultimately show ?thesis using host_send[OF inv send_both(2,3), of ?p s] send_both(1,8) by simp
  next
    case (release c s)
    then show ?thesis using host_release[OF inv] by simp
  next
    case (fill c x b)
    then show ?thesis using host_fill[OF inv] by (auto intro: recv_measure_cong)
  qed
qed

text \<open>A measure for the steps of this connection.\<close>

definition host_measure :: "('q \<Rightarrow> nat list) \<Rightarrow> nat \<Rightarrow> 'q host \<Rightarrow> nat" where
  "host_measure items t h = recv_measure items t (core h) + 2 * length (to_poll h) + length (batch h)"

lemma host_own:
  assumes inv: "host_inv Q items E cx n h" and step: "own_step Q E h h'"
  shows "host_inv Q items E cx n h' \<and> host_measure items (cx_t cx) h' < host_measure items (cx_t cx) h"
proof -
  note h = host_invD[OF inv]
  show ?thesis
    using step
  proof cases
    case (receive s)
    note k = recv_step_kept[OF receive(2)]
    have "recv_inv Q items E (with_out cx (out_chunks h)) s" by (rule recv_inv_step[OF h(1) receive(2)])
    moreover have "\<exists>handed. todo s = handed @ batch h @ to_poll h"
    proof -
      obtain handed where t: "todo (core h) = handed @ batch h @ to_poll h" using h(3) by blast
      show ?thesis
      proof (cases "todo s = todo (core h)")
        case False
        then obtain wc where wc: "todo (core h) = wc # todo s" using k(2) by auto
        then show ?thesis using t receive(3) False by (cases handed) (auto intro: sym)
      qed (use t in auto)
    qed
    moreover have "\<exists>tr qp. transports s (cx_t cx) = Some tr \<and> rc_qp tr = Some qp"
    proof -
      obtain tr qp where "transports (core h) (cx_t cx) = Some tr" "rc_qp tr = Some qp" using h(5) by blast
      then have "map_option rc_qp (transports s (cx_t cx)) = Some (Some qp)" using k(1) by (simp add: kept_def)
      then show ?thesis by auto
    qed
    moreover have "list_all (\<lambda>(wc, c). wc_wr_id wc < fresh s) (cx_arr cx)"
      using h(4) k(1) by (auto simp: list_all_iff kept_def)
    ultimately show ?thesis
      using h(2,6,7) k(1) recv_measure_decreases[OF h(1) receive(2)]
      unfolding host_inv_def receive(1) by (auto simp: kept_def host_measure_def)
  next
    case (poll wc rest s)
    then show ?thesis using host_poll[OF inv poll(3)] by (auto simp: host_measure_def)
  next
    case (poll_crash wc rest e)
    then show ?thesis using host_poll[OF inv poll_crash(3)] by simp
  next
    case hand
    then show ?thesis using h unfolding host_inv_def by (auto simp: host_measure_def split: option.splits)
  qed
qed

text \<open>The start: that of the receiver, with every completion still to be polled.\<close>

definition host_start ::
  "'q gqueue_ops \<Rightarrow> ('q \<Rightarrow> nat list) \<Rightarrow> env \<Rightarrow> recv_ctx \<Rightarrow> nat \<Rightarrow> 'q host \<Rightarrow> bool" where
  "host_start Q items E cx n h \<longleftrightarrow>
     recv_start Q items E cx (core h) \<and> out_chunks h = cx_out cx \<and> poll_died h = None \<and>
     to_poll h = todo (core h) \<and> batch h = [] \<and>
     list_all (\<lambda>(wc, c). wc_wr_id wc < fresh (core h)) (cx_arr cx) \<and>
     (case transports (core h) (cx_t cx) of None \<Rightarrow> False | Some tr \<Rightarrow> rc_qp tr \<noteq> None) \<and>
     unat (total_size (core h)) + 4096 * (sum_list (map (asks (cx_H cx)) (cx_arr cx)) + budget h) < 2 ^ 32 \<and>
     length (recv_calls (core h)) = n"

inductive host_step :: "'q gqueue_ops \<Rightarrow> env \<Rightarrow> 'q host \<Rightarrow> 'q host \<Rightarrow> bool" for Q E where
  own: "own_step Q E h h' \<Longrightarrow> host_step Q E h h'"
| other: "other_step E h h' \<Longrightarrow> host_step Q E h h'"

lemma host_start_inv: "host_start Q items E cx n h \<Longrightarrow> host_inv Q items E cx n h"
proof -
  assume s: "host_start Q items E cx n h"
  then have out: "with_out cx (out_chunks h) = cx" by (simp add: host_start_def)
  have "recv_inv Q items E cx (core h)" using s by (auto simp: host_start_def intro: recv_start_inv)
  moreover have "to_poll h = map fst (cx_arr cx)" using s by (simp add: host_start_def recv_start_def)
  then have "unpolled cx h = cx_arr cx" by simp
  ultimately show ?thesis using s unfolding host_inv_def out by (simp add: host_start_def)
qed

interpretation host_sys: step_system "host_start Q items E cx n" "host_step Q E" "host_inv Q items E cx n"
  for Q items E cx n
  by unfold_locales (auto elim!: host_step.cases intro: host_start_inv dest: host_own host_other)

end
