(* ===== verification/Host_Results.thy ===== *)
theory Host_Results
  imports Host_Threads
begin

text \<open>
  What a connection guarantees in a process whose other threads use the same pool: safety, delivery
  and the return of every chunk, a bound on its steps, and that it can go on for any number of rounds.
\<close>

section \<open>Results\<close>

abbreviation "host_reach Q items E cx n \<equiv> reach (host_start Q items E cx n) (host_step Q E)"


lemma host_stuck:
  assumes inv: "host_inv Q items E cx n h" and stuck: "\<And>h'. \<not> own_step Q E h h'"
  shows "to_poll h = []" "batch h = []" "\<And>s'. \<not> recv_step Q E (core h) s'"
proof -
  note h = host_invD[OF inv]
  show p: "to_poll h = []"
  proof (cases "to_poll h")
    case (Cons wc rest)
    from host_poll[OF inv Cons] own_step.poll[OF h(2) Cons] stuck show ?thesis by blast
  qed simp
  show b: "batch h = []" using own_step.hand[of h Q E] stuck by blast
  fix s'
  show "\<not> recv_step Q E (core h) s'"
  proof
    assume st: "recv_step Q E (core h) s'"
    have "todo s' = todo (core h) \<or> length (batch h @ to_poll h) < length (todo (core h))"
      using recv_step_kept(2)[OF st] by (auto simp: p b)
    from own_step.receive[OF st this] stuck show False by blast
  qed
qed

lemma stuck_outcome:
  assumes inv: "host_inv Q items E cx n h" and stuck: "\<And>h'. \<not> own_step Q E h h'"
  shows "todo (core h) = [] \<and> deliveries (core h) = cx_before cx @ cx_messages cx \<and>
    dom (varrays (core h)) = cx_others cx \<and>
    length (recv_calls (core h)) = n + sum_list (map (asks (cx_H cx)) (cx_arr cx)) \<and>
    (\<exists>tr. transports (core h) (cx_t cx) = Some tr \<and> items (work_queue tr) = [] \<and> is_work_running tr = 0) \<and>
    (\<exists>all free. pool_wf all free (core h) \<and> set all - set free = out_chunks h)"
proof -
  note h = host_invD[OF inv] and st = host_stuck[OF assms]
  have "receiver_done (core h)" by (rule stuck_inv_done[OF h(1) st(3)])
  moreover note quiescent_inv[OF h(1) st(3)]
  moreover have "length (recv_calls (core h)) = n + sum_list (map (asks (cx_H cx)) (cx_arr cx))"
    using h(7) st(1) by simp
  ultimately show ?thesis by (simp add: receiver_done_def) blast
qed



text \<open>The connection goes on: the next completions are of receives that are posted now.\<close>

definition arrive :: "arrival list \<Rightarrow> 'q host \<Rightarrow> 'q host" where
  "arrive arr h = h\<lparr>core := (core h)\<lparr>todo := map fst arr\<rparr>, to_poll := map fst arr,
     out_chunks := out_chunks h - snd ` set arr\<rparr>"

definition next_ctx :: "recv_ctx \<Rightarrow> arrival list \<Rightarrow> 'q host \<Rightarrow> recv_ctx" where
  "next_ctx cx arr h = cx\<lparr>cx_arr := arr, cx_H := header_of (core h), cx_B := body_of (core h),
     cx_before := deliveries (core h), cx_out := out_chunks h - snd ` set arr\<rparr>"

lemma serves_on:
  assumes "host_reach Q items E cx n h" and "\<And>h'. \<not> own_step Q E h h'"
    and "arrivals_ok (header_of (core h)) arr"
    and "list_all (\<lambda>(wc, c). c \<in> out_chunks h \<and> wc_wr_id wc < fresh (core h) \<and>
      map_option (\<lambda>w. (wc_transport w, wc_chunk w)) (work_chunks (core h) (wc_wr_id wc)) = Some (cx_t cx, Some c)) arr"
    and "unat (total_size (core h)) + 4096 * (sum_list (map (asks (header_of (core h))) arr) + budget h) < 2 ^ 32"
  shows "host_start Q items E (next_ctx cx arr h) (length (recv_calls (core h))) (arrive arr h)"
proof -
  have inv: "host_inv Q items E cx n h" by (rule host_sys.reach_inv[OF assms(1)])
  note h = host_invD[OF inv] and st = host_stuck[OF inv assms(2)] and o = stuck_outcome[OF inv assms(2)]
  let ?cx = "next_ctx cx arr h"
  have rest: "receiver_done (core h)" by (rule stuck_inv_done[OF h(1) st(3)])
  obtain k D W G ws all free tr where Q: "gqueue Q items" "calls_succeed E"
      and F: "recv_facts items (with_out cx (out_chunks h)) k D W G ws all free tr (core h)"
    by (rule recv_inv_facts[OF h(1)])
  note F' = recv_factsD[OF F]
  have wk: "set (pool_pushes (core h)) \<subseteq> {cx_t cx}"
      "workers (core h) j = (if j < length (pool_pushes (core h)) then Finished else Looping)" for j
    using F'(5) rest by (auto simp: worker_inv_def receiver_done_def list_all_iff)
  have out: "snd ` set arr \<subseteq> out_chunks h" using assms(4) by (auto simp: list_all_iff)
  obtain all free where pool: "pool_wf all free (core h)" "set all - set free = out_chunks h" using o by blast
  have "\<exists>all free. pool_wf all free (core h) \<and> snd ` set arr \<subseteq> set all - set free \<and>
      out_chunks h - snd ` set arr = set all - set free - snd ` set arr"
    using pool out by (intro exI[of _ all] exI[of _ free]) simp
  moreover have "list_all (\<lambda>(wc, c). map_option (\<lambda>w. (wc_transport w, wc_chunk w)) (work_chunks (core h) (wc_wr_id wc))
        = Some (cx_t cx, Some c)) arr" "list_all (\<lambda>(wc, c). wc_wr_id wc < fresh (core h)) arr"
    using assms(4) by (auto simp: list_all_iff)
  moreover have "\<exists>tr. transports (core h) (cx_t cx) = Some tr \<and> items (work_queue tr) = [] \<and> is_work_running tr = 0 \<and>
      remote_ip tr = cx_ip cx \<and> rc_qp tr \<noteq> None"
    using o h(5) F'(2,3) by auto
  moreover have "\<forall>v \<in> cx_others cx. v < fresh (core h)" using F'(11,13) by auto
  ultimately show ?thesis
    using Q o wk rest st(2) h(2) assms(3,5)
    unfolding host_start_def recv_start_def
    by (auto simp: next_ctx_def arrive_def receiver_done_def split: option.splits)
qed


lemma host_can_finish:
  assumes "host_inv Q items E cx n h"
  shows "\<exists>h'. (host_step Q E)\<^sup>*\<^sup>* h h' \<and> (\<forall>h''. \<not> own_step Q E h' h'')"
  using assms
proof (induction "host_measure items (cx_t cx) h" arbitrary: h rule: less_induct)
  case less
  show ?case
  proof (cases "\<exists>h'. own_step Q E h h'")
    case True
    then obtain h1 where st: "own_step Q E h h1" by blast
    note o = host_own[OF less.prems st]
    from less.hyps[OF conjunct2[OF o] conjunct1[OF o]]
    obtain h2 where "(host_step Q E)\<^sup>*\<^sup>* h1 h2" "\<forall>h''. \<not> own_step Q E h2 h''" by blast
    with host_step.own[OF st] show ?thesis by (meson converse_rtranclp_into_rtranclp)
  next
    case False
    then show ?thesis by blast
  qed
qed


section \<open>A process to evaluate on\<close>

text \<open>
  A connection at rest with two receives posted, whose chunks the adapter has filled; a demo process is
  this one when the completions of the two arrive.
\<close>

definition idle_cx :: recv_ctx where
  "idle_cx = demo_cx\<lparr>cx_arr := [], cx_out := {(1, 0), (1, 1)}\<rparr>"

definition idle_host :: "nat list host" where
  "idle_host = \<lparr>core = demo_window\<lparr>todo := []\<rparr>, to_poll = [], batch = [], poll_died = None,
     out_chunks = {(1, 0), (1, 1)}, budget = 10\<rparr>"

definition demo_host :: "nat list host" where
  "demo_host = arrive demo_arr idle_host"

lemma idle_fields [simp]:
  "to_poll idle_host = []" "batch idle_host = []" "poll_died idle_host = None" "budget idle_host = 10"
  "out_chunks idle_host = {(1, 0), (1, 1)}" "core idle_host = demo_window\<lparr>todo := []\<rparr>"
  by (simp_all add: idle_host_def)

lemma demo_window_fields [simp]:
  "hpc demo_window = Waiting" "workers demo_window j = Looping" "pool_pushes demo_window = []"
  "transports demo_window = [0 \<mapsto> demo_transport]" "varrays demo_window = Map.empty" "deliveries demo_window = []"
  "header_of demo_window = fst \<circ> demo_stored" "body_of demo_window = snd \<circ> demo_stored" "fresh demo_window = 9"
  "work_chunks demo_window = work_chunks demo_recv0" "total_size demo_window = 4096" "recv_calls demo_window = []"
  by (simp_all add: demo_window_def) (simp_all add: demo_recv_def popped_def grown_def demo_recv0_def Let_def)

lemma idle_stuck: "\<not> own_step list_gqueue demo_env idle_host h'"
  by (auto elim!: own_step.cases recv_step.cases)

lemma demo_window_pool:
  "\<exists>all free. pool_wf all free demo_window \<and> set all - set free = {(1, 0), (1, 1)}"
proof -
  obtain ns where ns: "pool_inv demo_window ns (demo_free 4096)" "receives_of 0 demo_arr ns (demo_free 4096) demo_window"
    using demo_window_inv by blast
  obtain ns' where n: "pool_inv demo_recv ns' (demo_free 4096)" "chunk_addrs ns' = block_addrs 1 4096"
    using demo_recv_wf by (auto simp: pool_wf_def)
  have "fresh demo_recv = 2" by (simp add: demo_recv_def popped_def grown_def demo_recv0_def Let_def)
  then have "pool_inv demo_window ns' (demo_free 4096)"
    by (intro pool_inv_cong[OF n(1)]) (simp_all add: demo_window_def)
  then have "pool_wf (block_addrs 1 4096) (demo_free 4096) demo_window" using n(2) by (auto simp: pool_wf_def)
  then show ?thesis
    using two_block_addrs[of 4096] by (intro exI[of _ "block_addrs 1 4096"] exI[of _ "demo_free 4096"]) auto
qed

lemma idle_start: "host_start list_gqueue (\<lambda>q. q) demo_env idle_cx 0 idle_host"
  using demo_recv_start demo_window_pool unfolding host_start_def recv_start_def
  by (auto simp: idle_cx_def demo_cx_def arrivals_ok_def demo_transport_def)

lemma next_idle: "next_ctx idle_cx demo_arr idle_host = demo_cx"
  by (auto simp: next_ctx_def idle_cx_def demo_cx_def demo_arr_def)

lemma demo_arrives:
  "arrivals_ok (header_of (core idle_host)) demo_arr"
  "list_all (\<lambda>(wc, c). c \<in> out_chunks idle_host \<and> wc_wr_id wc < fresh (core idle_host) \<and>
      map_option (\<lambda>w. (wc_transport w, wc_chunk w)) (work_chunks (core idle_host) (wc_wr_id wc)) = Some (cx_t idle_cx, Some c)) demo_arr"
  "unat (total_size (core idle_host)) + 4096 * (sum_list (map (asks (header_of (core idle_host))) demo_arr) + budget idle_host) < 2 ^ 32"
proof -
  show "arrivals_ok (header_of (core idle_host)) demo_arr"
    using demo_recv_start by (simp add: recv_start_def demo_cx_def)
  show "list_all (\<lambda>(wc, c). c \<in> out_chunks idle_host \<and> wc_wr_id wc < fresh (core idle_host) \<and>
      map_option (\<lambda>w. (wc_transport w, wc_chunk w)) (work_chunks (core idle_host) (wc_wr_id wc)) = Some (cx_t idle_cx, Some c)) demo_arr"
    by (simp add: demo_arr_def demo_wc_def idle_cx_def demo_cx_def) (simp add: demo_recv0_def)
  show "unat (total_size (core idle_host)) + 4096 * (sum_list (map (asks (header_of (core idle_host))) demo_arr) + budget idle_host) < 2 ^ 32"
    by (simp add: demo_arr_def asks_def demo_wc_def frame_header_def)
qed

lemma idle_reach: "host_reach list_gqueue (\<lambda>q. q) demo_env idle_cx 0 idle_host"
  by (rule reach_init[where init = "host_start list_gqueue (\<lambda>q. q) demo_env idle_cx 0"]) (rule idle_start)

lemma demo_host_start: "host_start list_gqueue (\<lambda>q. q) demo_env demo_cx 0 demo_host"
  using serves_on[OF idle_reach idle_stuck demo_arrives] by (simp add: next_idle demo_host_def)

lemma demo_host_reach: "host_reach list_gqueue (\<lambda>q. q) demo_env demo_cx 0 demo_host"
  by (rule reach_init[where init = "host_start list_gqueue (\<lambda>q. q) demo_env demo_cx 0"]) (rule demo_host_start)





end
