(* ===== verification/End_To_End.thy ===== *)
theory End_To_End
  imports Wire_Messages Java_Upcalls Client_Connect
begin

text \<open>
  Several messages sent one after the other over one connection, and their way to the other end:
  what is posted for them, what a reliable connection makes of it, and in which order the receiver
  sees it.
\<close>

section \<open>Sending several messages\<close>

text \<open>A client that sends its messages one after the other over the transport \<open>t\<close>.\<close>

fun send_all :: "env \<Rightarrow> nat \<Rightarrow> u8 list list \<Rightarrow> ('q, 'z) rt_scheme \<Rightarrow> ('q, 'z) rt_scheme res" where
  "send_all E t [] s = Inr s"
| "send_all E t (p # ps) s =
     bind_res (send_msg_on E t p (of_nat (length p)) s) (\<lambda>(_, s1). send_all E t ps s1)"

text \<open>The frames on the wire, and the data ids of the messages, which count up from that of the transport.\<close>

primrec stream_wires :: "u32 \<Rightarrow> u8 list list \<Rightarrow> u8 list list" where
  "stream_wires did [] = []"
| "stream_wires did (p # ps) = map (frame_wire did p) [0..<frame_count (length p)] @ stream_wires (did + 1) ps"

primrec stream_msgs :: "u32 \<Rightarrow> u8 list list \<Rightarrow> (u32 \<times> u8 list) list" where
  "stream_msgs did [] = []"
| "stream_msgs did (p # ps) = (did, p) # stream_msgs (did + 1) ps"

abbreviation total_frames :: "u8 list list \<Rightarrow> nat" where
  "total_frames ps \<equiv> sum_list (map (\<lambda>p. frame_count (length p)) ps)"

text \<open>What the adapter has read for the sends that were posted since \<open>s\<close>.\<close>

definition wires_posted :: "('q, 'z) rt_scheme \<Rightarrow> ('q, 'z) rt_scheme \<Rightarrow> (nat \<times> u8 list) list" where
  "wires_posted s s' = map (\<lambda>(q, wr, rc). (q, wire_of s' wr)) (drop (length (send_calls s)) (send_calls s'))"

lemma wire_of_at:
  "header_of s' (sg_addr wr) = header_of s (sg_addr wr) \<Longrightarrow> body_of s' (sg_addr wr) = body_of s (sg_addr wr) \<Longrightarrow>
    wire_of s' wr = wire_of s wr"
  by (simp add: wire_of_def)

lemma send_all_posts:
  fixes s :: "('q, 'z) rt_scheme"
  assumes "pool_inv s ns xs" and "calls_succeed E"
    and "transports s t = Some tr" and "rc_qp tr = Some qp"
    and "list_all (\<lambda>p. p \<noteq> [] \<and> length p < 2 ^ 31) ps"
    and "unat (total_size s) + 4096 * total_frames ps < 2 ^ 32"
  shows "\<exists>s' new ns' xs'. send_all E t ps s = Inr s' \<and> send_calls s' = send_calls s @ new \<and>
    map (\<lambda>(q, wr, rc). (q, wire_of s' wr)) new = map (Pair qp) (stream_wires (tr_data_id tr) ps) \<and>
    pool_inv s' ns' xs' \<and>
    (\<forall>a \<in> set (chunk_addrs ns) - set xs. a \<in> set (chunk_addrs ns') - set xs' \<and>
       header_of s' a = header_of s a \<and> body_of s' a = body_of s a)"
  using assms
proof (induction ps arbitrary: s ns xs tr)
  case Nil
  then show ?case by (intro exI[of _ s] exI[of _ "[]"] exI[of _ ns] exI[of _ xs]) simp
next
  case (Cons p ps)
  let ?len = "of_nat (length p) :: u32" and ?n = "frame_count (length p)"
  have p: "p \<noteq> []" "length p < 2 ^ 31" using Cons.prems(5) by simp_all
  have u: "unat ?len = length p" using p(2) by (simp add: unat_of_nat)
  have len: "?len \<noteq> 0" using u p(1) by (metis length_0_conv unat_0)
  have r: "round_up (?n - length xs) \<le> 4096 * ?n"
    using round_up_le[of "?n - length xs"] by linarith
  have bound: "unat (total_size s) + round_up (unat (chunk_count ?len) - length xs) < 2 ^ 32"
    using Cons.prems(6) r by (simp add: chunk_count_eq u)
  obtain s1 where s1: "send_msg_on E t p ?len s = Inr (0, s1)"
      and posted: "message_posted E t qp tr p ns xs s s1"
    using send_msg_on_ok[OF Cons.prems(1-4) len _ bound, of p] u by auto
  obtain ns1 xs1 cs new1 where m: "pool_inv s1 ns1 xs1" "set cs \<subseteq> set (chunk_addrs ns1) - set xs1"
      "set (chunk_addrs ns) - set xs = set (chunk_addrs ns1) - set xs1 - set cs"
      "\<forall>a. a \<notin> set cs \<longrightarrow> header_of s1 a = header_of s a \<and> body_of s1 a = body_of s a"
      "unat (total_size s1) \<le> unat (total_size s) + round_up (?n - length xs)"
      "send_calls s1 = send_calls s @ new1"
      "map (\<lambda>(q, wr, rc). (q, wire_of s1 wr)) new1 = map (\<lambda>i. (qp, frame_wire (tr_data_id tr) p i)) [0..<?n]"
      "map (\<lambda>(q, wr, rc). sg_addr wr) new1 = cs"
      "transports s1 = (transports s)(t \<mapsto> tr\<lparr>tr_data_id := tr_data_id tr + 1\<rparr>)"
    using posted unfolding message_posted_def by (elim exE conjE) (rule that; assumption)
  have room: "unat (total_size s1) + 4096 * total_frames ps < 2 ^ 32"
    using m(5) r Cons.prems(6) by simp
  obtain s' new2 ns' xs' where i: "send_all E t ps s1 = Inr s'" "send_calls s' = send_calls s1 @ new2"
      "map (\<lambda>(q, wr, rc). (q, wire_of s' wr)) new2 = map (Pair qp) (stream_wires (tr_data_id tr + 1) ps)"
      "pool_inv s' ns' xs'"
      "\<forall>a \<in> set (chunk_addrs ns1) - set xs1. a \<in> set (chunk_addrs ns') - set xs' \<and>
         header_of s' a = header_of s1 a \<and> body_of s' a = body_of s1 a"
    using Cons.IH[OF m(1) Cons.prems(2) _ _ _ room] Cons.prems(4,5) m(9) by auto
  have kept: "wire_of s' wr = wire_of s1 wr" if "(q, wr, rc) \<in> set new1" for q wr rc
  proof -
    have "sg_addr wr \<in> set cs" using that m(8) by force
    then show ?thesis using m(2) i(5) by (intro wire_of_at) auto
  qed
  have "map (\<lambda>(q, wr, rc). (q, wire_of s' wr)) new1 = map (\<lambda>(q, wr, rc). (q, wire_of s1 wr)) new1"
    using kept by (auto simp: map_eq_conv)
  then have w: "map (\<lambda>(q, wr, rc). (q, wire_of s' wr)) (new1 @ new2)
      = map (Pair qp) (stream_wires (tr_data_id tr) (p # ps))"
    using m(7) i(3) by simp
  have out: "a \<in> set (chunk_addrs ns') - set xs' \<and> header_of s' a = header_of s a \<and> body_of s' a = body_of s a"
    if "a \<in> set (chunk_addrs ns) - set xs" for a
  proof -
    have a: "a \<in> set (chunk_addrs ns1) - set xs1" "a \<notin> set cs" using that m(3) by auto
    show ?thesis using bspec[OF i(5) a(1)] m(4) a(2) by simp
  qed
  show ?case
    using s1 i(1,2,4) m(6) w out
    by (intro exI[of _ s'] exI[of _ "new1 @ new2"] exI[of _ ns'] exI[of _ xs']) simp
qed

section \<open>A stream to a new host\<close>

text \<open>A client that calls \<open>send_msg\<close> for each of its messages: the first one sets the connection up.\<close>

fun send_stream ::
  "'q gqueue_ops \<Rightarrow> env \<Rightarrow> 'q net \<Rightarrow> peer \<Rightarrow> string \<Rightarrow> u16 \<Rightarrow> u8 list list \<Rightarrow> ('q, 'z) conn_rt_scheme
    \<Rightarrow> ('q, 'z) conn_rt_scheme res option" where
  "send_stream Q E V P host port [] s = Some (Inr s)"
| "send_stream Q E V P host port (p # ps) s =
     (case send_msg Q E V P host port p (of_nat (length p)) s of
        None \<Rightarrow> None
      | Some (Inl e) \<Rightarrow> Some (Inl e)
      | Some (Inr (_, s1)) \<Rightarrow> send_stream Q E V P host port ps s1)"

lemma rt_more_conn:
  fixes s s' :: "('q, 'z) conn_rt_scheme"
  assumes "rt.more s' = rt.more s"
  shows "hash_table s' = hash_table s" "host2ipstr s' = host2ipstr s" "qp_calls s' = qp_calls s"
  using assms by (cases s; cases s'; simp)+

lemma send_stream_connected:
  fixes s :: "('q, 'z) conn_rt_scheme"
  assumes "pool_inv s ns xs" and "calls_succeed E"
    and "transports s t = Some tr" and "rc_qp tr = Some qp" and "is_ready tr = 1"
    and "map_of (host2ipstr s) host = Some ip" and "lookup_ip V (hash_table s) ip = Some t"
    and "list_all (\<lambda>p. p \<noteq> [] \<and> length p < 2 ^ 31) ps"
    and "unat (total_size s) + 4096 * total_frames ps < 2 ^ 32"
  shows "send_stream Q E V P host port ps s = Some (send_all E t ps s)"
  using assms
proof (induction ps arbitrary: s ns xs tr)
  case Nil
  then show ?case by simp
next
  case (Cons p ps)
  let ?len = "of_nat (length p) :: u32" and ?n = "frame_count (length p)"
  have p: "p \<noteq> []" "length p < 2 ^ 31" using Cons.prems(8) by simp_all
  have u: "unat ?len = length p" using p(2) by (simp add: unat_of_nat)
  have len: "?len \<noteq> 0" using u p(1) by (metis length_0_conv unat_0)
  have r: "round_up (?n - length xs) \<le> 4096 * ?n"
    using round_up_le[of "?n - length xs"] by linarith
  have bound: "unat (total_size s) + round_up (unat (chunk_count ?len) - length xs) < 2 ^ 32"
    using Cons.prems(9) r by (simp add: chunk_count_eq u)
  obtain s1 where s1: "send_msg_on E t p ?len s = Inr (0, s1)"
      and posted: "message_posted E t qp tr p ns xs s s1"
    using send_msg_on_ok[OF Cons.prems(1-4) len _ bound, of p] u by auto
  obtain ns1 xs1 where m: "pool_inv s1 ns1 xs1"
      "unat (total_size s1) \<le> unat (total_size s) + round_up (?n - length xs)"
      "transports s1 = (transports s)(t \<mapsto> tr\<lparr>tr_data_id := tr_data_id tr + 1\<rparr>)" "rt.more s1 = rt.more s"
    using posted unfolding message_posted_def by (elim exE conjE) (rule that; assumption)
  have get: "get_transport_from_ip Q E V P host port s = Some (Inr (t, s))"
    by (rule found_at_once[OF Cons.prems(6,7,3,5)])
  have "send_stream Q E V P host port ps s1 = Some (send_all E t ps s1)"
    using Cons.IH[OF m(1) Cons.prems(2), of "tr\<lparr>tr_data_id := tr_data_id tr + 1\<rparr>"] Cons.prems(4-9) m(2-) r
    by (simp add: rt_more_conn[OF m(4)])
  with get s1 show ?case by (simp add: send_msg_def)
qed

lemma send_stream_posts:
  fixes s :: "('q, 'z) conn_rt_scheme"
  assumes "pool_inv s ns xs" and E: "calls_succeed E" and "net_succeeds V"
    and "new_host V host ip local s" and "peer_answers P l a"
    and ps: "ps \<noteq> []" "list_all (\<lambda>p. p \<noteq> [] \<and> length p < 2 ^ 31) ps"
    and room: "unat (total_size s) + round_up (1024 - length xs) + 4096 * total_frames ps < 2 ^ 32"
  shows "\<exists>t qp s1 s'. get_transport_from_ip Q E V P host port s = Some (Inr (t, s1)) \<and>
    connected_to V P ip l a ns xs t s s1 \<and> v_qp V t = Some qp \<and>
    send_stream Q E V P host port ps s = Some (Inr s') \<and>
    wires_posted s s' = map (Pair qp) (stream_wires 0 ps)"
proof -
  have room0: "unat (total_size s) + round_up (1024 - length xs) < 2 ^ 32" using room by linarith
  obtain t s1 where g: "get_transport_from_ip Q E V P host port s = Some (Inr (t, s1))"
      "connected_to V P ip l a ns xs t s s1" "host2ipstr s1 = host2ipstr s @ [(host, ip)]"
      "lookup_ip V (hash_table s1) ip = Some t"
    using connects[OF assms(1-5) room0, of Q port] by blast
  obtain tr qp where tr: "transports s1 t = Some tr" "rc_qp tr = Some qp" "is_ready tr = 1" "tr_data_id tr = 0"
      "v_qp V t = Some qp"
    using g(2) by (auto simp: connected_to_def)
  obtain ns1 xs1 where inv1: "pool_inv s1 ns1 xs1"
      and sz: "unat (total_size s1) \<le> unat (total_size s) + round_up (1024 - length xs)" "send_calls s1 = send_calls s"
    using g(2) by (auto simp: connected_to_def)
  have room1: "unat (total_size s1) + 4096 * total_frames ps < 2 ^ 32" using sz(1) room by linarith
  have host: "map_of (host2ipstr s1) host = Some ip"
    using assms(4) g(3) by (simp add: new_host_def map_add_def)
  obtain s' where s': "send_all E t ps s1 = Inr s'"
      "wires_posted s1 s' = map (Pair qp) (stream_wires (tr_data_id tr) ps)"
    using send_all_posts[OF inv1 E tr(1,2) ps(2) room1] by (auto simp: wires_posted_def)
  have "get_transport_from_ip Q E V P host port s1 = Some (Inr (t, s1))"
    by (rule found_at_once[OF host g(4) tr(1,3)])
  then have "send_stream Q E V P host port ps s = send_stream Q E V P host port ps s1"
    using g(1) ps(1) by (cases ps) (simp_all add: send_msg_def)
  then have "send_stream Q E V P host port ps s = Some (Inr s')"
    using send_stream_connected[OF inv1 E tr(1-3) host g(4) ps(2) room1] s'(1) by simp
  moreover have "wires_posted s s' = wires_posted s1 s'" by (simp add: wires_posted_def sz(2))
  ultimately show ?thesis using g(1,2) tr(4,5) s'(2) by auto
qed

section \<open>A reliable connection\<close>

text \<open>
  What a reliable queue pair is documented to do, on the completions of the receiver: what was sent
  is received in the order in which it was posted, once each, into the receives in their order; the
  length of what was received is reported.
\<close>

definition received_in_order ::
  "u8 list list \<Rightarrow> (caddr \<Rightarrow> rdma_chunk_header) \<Rightarrow> (caddr \<Rightarrow> chunk_body)
    \<Rightarrow> (caddr \<Rightarrow> rdma_chunk_header \<times> chunk_body) \<Rightarrow> arrival list \<Rightarrow> bool" where
  "received_in_order wires H B old arr \<longleftrightarrow>
     distinct (map (wc_wr_id \<circ> fst) arr) \<and> distinct (map snd arr) \<and>
     list_all (\<lambda>(wc, c). status wc = IBV_WC_SUCCESS \<and> opcode wc \<in> {IBV_WC_SEND, IBV_WC_RECV}) arr \<and>
     list_all2 (\<lambda>wire (wc, c). (H c, B c) = store_bytes wire (old c) \<and> byte_len wc = of_nat (length wire))
       wires (filter (\<lambda>(wc, c). opcode wc = IBV_WC_RECV) arr)"

text \<open>The chunks of a stream fall into the groups of its messages.\<close>

lemma list_all2_split:
  assumes "list_all2 P (xs @ ys) zs"
  obtains zs1 zs2 where "zs = zs1 @ zs2" "list_all2 P xs zs1" "list_all2 P ys zs2"
  using assms by (auto simp: list_all2_append1)

lemma stream_groups:
  assumes "list_all2 (\<lambda>wire c. (H c, B c) = store_bytes wire (old c)) (stream_wires did ps) cs"
  shows "\<exists>gs. map fst gs = map fst (stream_msgs did ps) \<and> concat (map snd gs) = cs \<and>
    list_all2 (\<lambda>(d, p) (d', c). d' = d \<and> carries H B old d p c) (stream_msgs did ps) gs"
  using assms
proof (induction ps arbitrary: did cs)
  case Nil
  then show ?case by (intro exI[of _ "[]"]) simp
next
  case (Cons p ps)
  let ?w = "map (frame_wire did p) [0..<frame_count (length p)]"
  obtain c1 c2 where c: "cs = c1 @ c2" "list_all2 (\<lambda>wire c. (H c, B c) = store_bytes wire (old c)) ?w c1"
      "list_all2 (\<lambda>wire c. (H c, B c) = store_bytes wire (old c)) (stream_wires (did + 1) ps) c2"
    by (rule list_all2_split[OF Cons.prems[unfolded stream_wires.simps]]) (rule that)
  from Cons.IH[OF c(3)] obtain gs where g: "map fst gs = map fst (stream_msgs (did + 1) ps)"
      "concat (map snd gs) = c2"
      "list_all2 (\<lambda>(d, p) (d', c). d' = d \<and> carries H B old d p c) (stream_msgs (did + 1) ps) gs" by blast
  have "carries H B old did p c1"
    using c(2) by (auto simp: carries_def list_all2_conv_all_nth list_all_iff)
  then show ?case using g c(1) by (intro exI[of _ "(did, c1) # gs"]) simp
qed

lemma groups_of_blocks:
  assumes "distinct (map fst gs)" "\<forall>g \<in> set gs. snd g \<noteq> []"
  shows "groups_of (concat (map (\<lambda>(d, cs). map (Pair d) cs) gs)) = gs"
  using assms
proof (induction gs rule: rev_induct)
  case Nil
  then show ?case by simp
next
  case (snoc g gs)
  obtain d cs where g: "g = (d, cs)" by (cases g)
  have new: "d \<notin> fst ` set gs" using snoc.prems(1) g by auto
  have "groups_of (concat (map (\<lambda>(d, cs). map (Pair d) cs) gs) @ map (Pair d) c)
      = gs @ (if c = [] then [] else [(d, c)])" for c
  proof (induction c rule: rev_induct)
    case Nil
    then show ?case using snoc.IH snoc.prems by simp
  next
    case (snoc x c)
    then show ?case
      using new by (simp flip: append_assoc) (simp add: add_frame_new add_frame_append)
  qed
  from this[of cs] show ?case using snoc.prems(2) g by simp
qed

lemma stream_ids: "map fst (stream_msgs did ps) = map (\<lambda>k. did + of_nat k) [0..<length ps]"
proof (induction ps arbitrary: did)
  case (Cons p ps)
  have "map (\<lambda>k. did + of_nat k) [0..<Suc (length ps)] = did # map (\<lambda>k. did + 1 + of_nat k) [0..<length ps]"
    by (simp add: map_upt_Suc add.assoc del: upt_Suc)
  with Cons show ?case by simp
qed simp

lemma stream_ids_distinct:
  assumes "length ps \<le> 2 ^ 32"
  shows "distinct (map fst (stream_msgs did ps))"
proof -
  have "inj_on (\<lambda>k. did + of_nat k :: u32) {0..<length ps}"
  proof (rule inj_onI)
    fix j k assume b: "j \<in> {0..<length ps}" "k \<in> {0..<length ps}"
      and e: "did + of_nat j = (did + of_nat k :: u32)"
    from e have "unat (of_nat j :: u32) = unat (of_nat k :: u32)" by simp
    then show "j = k" using b assms by (simp add: unat_of_nat)
  qed
  then show ?thesis by (simp add: stream_ids distinct_map)
qed

lemma stream_msgs_snd [simp]: "map snd (stream_msgs did ps) = ps"
  by (induction ps arbitrary: did) simp_all

lemma stream_msgs_member: "(d, p) \<in> set (stream_msgs did ps) \<Longrightarrow> p \<in> set ps"
  by (induction ps arbitrary: did) auto

lemma stream_wire: "w \<in> set (stream_wires did ps) \<Longrightarrow> \<exists>d p i. w = frame_wire d p i"
  by (induction ps arbitrary: did) auto

lemma stream_arrives:
  assumes ps: "list_all (\<lambda>p. p \<noteq> [] \<and> length p < 2 ^ 31) ps" "length ps \<le> 2 ^ 32"
    and arr: "received_in_order (stream_wires did ps) H B old arr"
  shows "messages_arrive H B old (stream_msgs did ps) arr"
    and "arrival_order (frames H arr) = map fst (stream_msgs did ps)"
proof -
  let ?msgs = "stream_msgs did ps"
  define rs where "rs = filter (\<lambda>(wc, c). opcode wc = IBV_WC_RECV) arr"
  note a = arr[unfolded received_in_order_def, folded rs_def]
  have stored: "list_all2 (\<lambda>wire c. (H c, B c) = store_bytes wire (old c)) (stream_wires did ps) (map snd rs)"
    using a unfolding list_all2_map2 by (auto elim!: list_all2_mono)
  obtain gs where g: "map fst gs = map fst ?msgs" "concat (map snd gs) = map snd rs"
      "list_all2 (\<lambda>(d, p) (d', c). d' = d \<and> carries H B old d p c) ?msgs gs"
    using stream_groups[OF stored] by blast
  have dist: "distinct (map fst ?msgs)" by (rule stream_ids_distinct[OF ps(2)])
  have ok: "p \<noteq> [] \<and> length p < 2 ^ 31" if "(d, p) \<in> set ?msgs" for d p
    using stream_msgs_member[OF that] ps(1) by (simp add: list_all_iff)
  have car: "\<exists>p. (d, p) \<in> set ?msgs \<and> carries H B old d p c" if "(d, c) \<in> set gs" for d c
    using g(3) that by (fastforce simp: list_all2_conv_all_nth in_set_conv_nth)
  have frames: "frames H arr = concat (map (\<lambda>(d, cs). map (Pair d) cs) gs)"
  proof -
    have "map (\<lambda>c. (data_id (H c), c)) cs = map (Pair d) cs" if "(d, cs) \<in> set gs" for d cs
    proof (rule map_cong[OF refl])
      fix c assume "c \<in> set cs"
      then obtain i where i: "i < length cs" "c = cs ! i" by (metis in_set_conv_nth)
      obtain p where "carries H B old d p cs" using car[OF \<open>(d, cs) \<in> set gs\<close>] by blast
      from carries_chunk(1)[OF this i(1)] show "(data_id (H c), c) = (d, c)"
        using i(2) by (simp add: frame_header_def)
    qed
    then have e: "map (\<lambda>(d, cs). map (\<lambda>c. (data_id (H c), c)) cs) gs = map (\<lambda>(d, cs). map (Pair d) cs) gs"
      by (auto simp: map_eq_conv)
    have "frames H arr = map (\<lambda>c. (data_id (H c), c)) (map snd rs)"
      by (simp add: frames_def rs_def split_beta)
    also have "\<dots> = concat (map (\<lambda>(d, cs). map (\<lambda>c. (data_id (H c), c)) cs) gs)"
      by (simp flip: g(2) add: map_concat case_prod_unfold o_def)
    finally show ?thesis unfolding e .
  qed
  have groups: "groups_of (frames H arr) = gs"
    unfolding frames
  proof (rule groups_of_blocks)
    show "distinct (map fst gs)" using dist g(1) by simp
    show "\<forall>x \<in> set gs. snd x \<noteq> []"
    proof
      fix x assume "x \<in> set gs"
      then obtain p where p: "(fst x, p) \<in> set ?msgs" "carries H B old (fst x) p (snd x)"
        using car[of "fst x" "snd x"] by auto
      then have "0 < frame_count (length p)" using ok frame_count_pos by blast
      then show "snd x \<noteq> []" using p(2) by (auto simp: carries_def)
    qed
  qed
  show "arrival_order (frames H arr) = map fst ?msgs"
    using g(1) groups by (simp add: arrival_order_def)
  have "byte_len wc = chunk_len (H c) + RDMA_HEADER_SIZE" if r: "(wc, c) \<in> set rs" for wc c
  proof -
    obtain w where w: "w \<in> set (stream_wires did ps)" "(H c, B c) = store_bytes w (old c)"
        "byte_len wc = of_nat (length w)"
      using a r by (fastforce simp: list_all2_conv_all_nth in_set_conv_nth)
    obtain d p i where "w = frame_wire d p i" using stream_wire[OF w(1)] by blast
    then show ?thesis
      using w(2,3) by (simp add: store_frame_wire frame_header_def) (simp add: frame_wire_def sizes)
  qed
  then have bl: "list_all (\<lambda>(wc, c). status wc = IBV_WC_SUCCESS \<and> (opcode wc = IBV_WC_SEND \<or>
      opcode wc = IBV_WC_RECV \<and> byte_len wc = chunk_len (H c) + RDMA_HEADER_SIZE)) arr"
    using a by (fastforce simp: list_all_iff rs_def)
  have carried: "carries H B old d p (of_id d (frames H arr))" if m: "(d, p) \<in> set ?msgs" for d p
  proof -
    obtain c where c: "(d, c) \<in> set gs" "carries H B old d p c"
      using g(3) m by (fastforce simp: list_all2_conv_all_nth in_set_conv_nth)
    then show ?thesis using groups_of_members[of d c "frames H arr"] groups by simp
  qed
  have ids: "fst ` set gs = fst ` set ?msgs" using arg_cong[OF g(1), of set] by simp
  have "list_all (\<lambda>f. fst f \<in> fst ` set ?msgs) (frames H arr)"
    using ids unfolding frames by (force simp: list_all_iff)
  moreover have "list_all (\<lambda>(d, p). p \<noteq> [] \<and> length p < 2 ^ 31) ?msgs"
    unfolding list_all_iff using ok by blast
  moreover have "list_all (\<lambda>(d, p). carries H B old d p (of_id d (frames H arr))) ?msgs"
    unfolding list_all_iff using carried by blast
  ultimately show "messages_arrive H B old ?msgs arr"
    using a dist bl unfolding messages_arrive_def by blast
qed

section \<open>What the receiver delivers\<close>

lemma group_payload:
  assumes "messages_arrive H B old msgs arr" and g: "(did, cs) \<in> set (groups_of (frames H arr))"
  obtains p where "map_of msgs did = Some p" "received_bytes H B cs = p" "length p < 2 ^ 31"
proof -
  have cs: "cs = of_id did (frames H arr)" using groups_of_members[OF g] by simp
  have "did \<in> fst ` set (frames H arr)" using g groups_of_ids(2)[of "frames H arr"] by force
  then obtain p where p: "(did, p) \<in> set msgs"
    using assms(1) by (auto simp: messages_arrive_def list_all_iff)
  then have "carries H B old did p cs" "length p < 2 ^ 31" "map_of msgs did = Some p"
    using assms(1) cs by (auto simp: messages_arrive_def list_all_iff)
  with carries_bytes that show thesis by blast
qed

lemma arrival_order_set:
  assumes "messages_arrive H B old msgs arr"
  shows "set (arrival_order (frames H arr)) = fst ` set msgs"
proof
  have "did \<in> fst ` set msgs" if g: "(did, cs) \<in> set (groups_of (frames H arr))" for did cs
  proof -
    obtain p where "map_of msgs did = Some p" by (rule group_payload[OF assms g])
    then show ?thesis by (force dest: map_of_SomeD)
  qed
  then show "set (arrival_order (frames H arr)) \<subseteq> fst ` set msgs" by (force simp: arrival_order_def)
  show "fst ` set msgs \<subseteq> set (arrival_order (frames H arr))"
  proof
    fix did assume "did \<in> fst ` set msgs"
    then obtain p where p: "(did, p) \<in> set msgs" by auto
    then have "carries H B old did p (of_id did (frames H arr))" "p \<noteq> []"
      using assms by (auto simp: messages_arrive_def list_all_iff)
    then have "of_id did (frames H arr) \<noteq> []" using frame_count_pos[of "length p"] by (auto simp: carries_def)
    then have "did \<in> fst ` set (frames H arr)" using of_id_empty by blast
    then show "did \<in> set (arrival_order (frames H arr))"
      using groups_of_ids(2)[of "frames H arr"] by (simp add: arrival_order_def)
  qed
qed

lemma messages_delivered:
  assumes arr: "messages_arrive (cx_H cx) (cx_B cx) old msgs (cx_arr cx)"
    and all: "deliveries s = cx_before cx @ cx_messages cx"
  shows "\<exists>ds. deliveries s = cx_before cx @ ds \<and>
    map array_of ds = map (\<lambda>d. the (map_of msgs d)) (arrival_order (cx_frames cx)) \<and>
    list_all (\<lambda>d. dv_remote d = cx_ip cx \<and> dv_len d = int (length (array_of d)) \<and> delivery_ok d) ds"
proof -
  have each: "array_of (message_delivery (cx_H cx) (cx_B cx) (cx_ip cx) g) = the (map_of msgs (fst g)) \<and>
      dv_len (message_delivery (cx_H cx) (cx_B cx) (cx_ip cx) g) = int (length (the (map_of msgs (fst g)))) \<and>
      delivery_ok (message_delivery (cx_H cx) (cx_B cx) (cx_ip cx) g)"
    if g: "g \<in> set (groups_of (cx_frames cx))" for g
  proof -
    obtain did cs where gd: "g = (did, cs)" by (cases g)
    obtain p where p: "map_of msgs did = Some p" "received_bytes (cx_H cx) (cx_B cx) cs = p" "length p < 2 ^ 31"
      by (rule group_payload[OF arr g[unfolded gd]])
    with array_of_message[of "cx_H cx" "cx_B cx" cs] delivery_ok_message[of "cx_H cx" "cx_B cx" cs]
    show ?thesis by (simp add: gd)
  qed
  have "map array_of (cx_messages cx) = map (\<lambda>d. the (map_of msgs d)) (arrival_order (cx_frames cx))"
    using each by (simp add: arrival_order_def)
  moreover have "list_all (\<lambda>d. dv_remote d = cx_ip cx \<and> dv_len d = int (length (array_of d)) \<and> delivery_ok d)
      (cx_messages cx)"
    using each by (simp add: list_all_iff) (simp add: message_delivery_def)
  ultimately show ?thesis using all by blast
qed

lemma upcalls_handed:
  assumes "list_all (\<lambda>d. dv_remote d = ip \<and> dv_len d = int (length (array_of d))) ds"
  shows "map (\<lambda>d. (obj, m, dv_remote d, array_of d, dv_len d)) ds
    = map (\<lambda>p. (obj, m, ip, p, int (length p))) (map array_of ds)"
  using assms by (simp add: list_all_iff)

lemma stream_payloads:
  assumes "length ps \<le> 2 ^ 32"
  shows "map (\<lambda>d. the (map_of (stream_msgs did ps) d)) (map fst (stream_msgs did ps)) = ps"
proof -
  have "map (\<lambda>d. the (map_of ms d)) (map fst ms) = map snd ms" if "distinct (map fst ms)" for ms :: "(u32 \<times> u8 list) list"
    using that by (auto simp: comp_def map_of_is_SomeI intro!: map_cong)
  from this[OF stream_ids_distinct[OF assms]] show ?thesis by simp
qed

lemma length_total_frames:
  "list_all (\<lambda>p. p \<noteq> []) ps \<Longrightarrow> length ps \<le> total_frames ps"
proof (induction ps)
  case (Cons p ps)
  then show ?case using frame_count_pos[of "length p"] by simp
qed simp

text \<open>The receiving half: the stream arrives in order and is handed to Java.\<close>

lemma stream_delivered:
  assumes ps: "list_all (\<lambda>p. p \<noteq> [] \<and> length p < 2 ^ 31) ps" "length ps \<le> 2 ^ 32"
    and arr: "received_in_order (stream_wires did ps) (cx_H cx) (cx_B cx) old (cx_arr cx)"
    and run: "deliveries r = cx_before cx @ cx_messages cx"
    and java: "java_machine J bytes text globals calls" "st_jvm G \<noteq> None"
  shows "\<exists>ds j'. deliveries r = cx_before cx @ ds \<and> upcalls J G ds j = Inr j' \<and>
    calls j' = calls j @ map (\<lambda>p. (st_handler G, st_channelRead0 G, cx_ip cx, p, int (length p))) ps \<and>
    length (globals j') = length (globals j) + length ps"
proof -
  note a = stream_arrives[OF ps arr]
  obtain ds where d: "deliveries r = cx_before cx @ ds"
      "map array_of ds = map (\<lambda>d. the (map_of (stream_msgs did ps) d)) (arrival_order (cx_frames cx))"
      "list_all (\<lambda>d. dv_remote d = cx_ip cx \<and> dv_len d = int (length (array_of d)) \<and> delivery_ok d) ds"
    using messages_delivered[OF a(1) run] by blast
  have p: "map array_of ds = ps" unfolding d(2) a(2) by (rule stream_payloads[OF ps(2)])
  have ok: "list_all delivery_ok ds" and to: "list_all (\<lambda>d. dv_remote d = cx_ip cx \<and> dv_len d = int (length (array_of d))) ds"
    using d(3) by (auto simp: list_all_iff)
  obtain j' gs where j: "upcalls J G ds j = Inr j'" "length gs = length ds" "globals j' = gs @ globals j"
      "calls j' = calls j @ map (\<lambda>d. (st_handler G, st_channelRead0 G, dv_remote d, array_of d, dv_len d)) ds"
    using java_machine.upcalls_run[OF java ok, of j] by blast
  have "length ds = length ps" using arg_cong[OF p, of length] by simp
  then show ?thesis
    using d(1) j unfolding upcalls_handed[OF to] p by (intro exI[of _ ds] exI[of _ j']) simp
qed

section \<open>A stream to evaluate on\<close>

text \<open>Two messages, and a virtual machine without any array.\<close>

definition demo_payloads :: "u8 list list" where
  "demo_payloads = [[1, 2, 3], [4]]"

lemma demo_stream_wires: "stream_wires 0 demo_payloads = [frame_wire 0 [1, 2, 3] 0, frame_wire 1 [4] 0]"
  by (simp add: demo_payloads_def)

definition demo_statics :: jni_statics where
  "demo_statics = \<lparr>st_jvm = Some 1, st_channelRead0 = Some 2, st_handler = Some 3\<rparr>"

definition demo_java :: java_heap where
  "demo_java = \<lparr>jh_arrays = [], jh_refs = Map.empty, jh_texts = Map.empty, jh_globals = [], jh_next = 0, jh_calls = []\<rparr>"

end
