(* ===== verification/Two_Hosts.thy ===== *)
theory Two_Hosts
  imports Host_Results End_To_End
begin

text \<open>
  Two hosts to evaluate on: the process of \<open>Host_Results\<close>, into whose posted receives the adapter
  writes the stream of a new connection.
\<close>

definition filled :: "caddr \<Rightarrow> u8 list \<Rightarrow> nat list host \<Rightarrow> nat list host" where
  "filled c wire h = h\<lparr>core := (core h)\<lparr>
     header_of := (header_of (core h))(c := fst (store_bytes wire (demo_header, \<lambda>_. 0))),
     body_of := (body_of (core h))(c := snd (store_bytes wire (demo_header, \<lambda>_. 0)))\<rparr>\<rparr>"

lemma filled_fields [simp]:
  "to_poll (filled c w h) = to_poll h" "batch (filled c w h) = batch h" "poll_died (filled c w h) = poll_died h"
  "out_chunks (filled c w h) = out_chunks h" "budget (filled c w h) = budget h"
  "hpc (core (filled c w h)) = hpc (core h)" "workers (core (filled c w h)) = workers (core h)"
  "todo (core (filled c w h)) = todo (core h)" "deliveries (core (filled c w h)) = deliveries (core h)"
  "pool_pushes (core (filled c w h)) = pool_pushes (core h)" "fresh (core (filled c w h)) = fresh (core h)"
  "work_chunks (core (filled c w h)) = work_chunks (core h)" "total_size (core (filled c w h)) = total_size (core h)"
  "recv_calls (core (filled c w h)) = recv_calls (core h)"
  "header_of (core (filled c w h)) = (header_of (core h))(c := fst (store_bytes w (demo_header, \<lambda>_. 0)))"
  "body_of (core (filled c w h)) = (body_of (core h))(c := snd (store_bytes w (demo_header, \<lambda>_. 0)))"
  by (simp_all add: filled_def)

definition sink_host :: "nat list host" where
  "sink_host = filled (1, 1) (frame_wire 1 [4] 0) (filled (1, 0) (frame_wire 0 [1, 2, 3] 0) idle_host)"

definition sink_arr :: "arrival list" where
  "sink_arr = [(demo_wc 7 3, (1, 0)), (demo_wc 8 1, (1, 1))]"

definition demo_sink_cx :: recv_ctx where
  "demo_sink_cx = next_ctx idle_cx sink_arr sink_host"

lemma demo_in_order:
  "received_in_order (stream_wires 0 demo_payloads) (cx_H demo_sink_cx) (cx_B demo_sink_cx)
     (\<lambda>_. (demo_header, \<lambda>_. 0)) (cx_arr demo_sink_cx)"
  unfolding received_in_order_def demo_stream_wires
  by (simp add: demo_sink_cx_def next_ctx_def sink_host_def sink_arr_def demo_wc_def)
    (simp add: store_frame_wire frame_wire_def frame_bytes_def body_size_def sizes)

lemma filled_reach:
  assumes "host_reach list_gqueue (\<lambda>q. q) demo_env cx n h" and "c \<in> out_chunks h"
  shows "host_reach list_gqueue (\<lambda>q. q) demo_env cx n (filled c w h)"
  unfolding filled_def
  by (rule reach_step[OF assms(1)]) (rule host_step.other[OF other_step.fill[OF assms(2)]])

lemma sink_reach: "host_reach list_gqueue (\<lambda>q. q) demo_env idle_cx 0 sink_host"
  unfolding sink_host_def by (intro filled_reach idle_reach) simp_all

lemma sink_stuck: "\<not> own_step list_gqueue demo_env sink_host h'"
  by (auto simp: sink_host_def elim!: own_step.cases recv_step.cases)

lemma sink_start: "host_start list_gqueue (\<lambda>q. q) demo_env demo_sink_cx 0 (arrive sink_arr sink_host)"
proof -
  have "arrivals_ok (cx_H demo_sink_cx) (cx_arr demo_sink_cx)"
    by (rule messages_arrive_ok[OF stream_arrives(1)[OF _ _ demo_in_order]]) (simp_all add: demo_payloads_def)
  then have a: "arrivals_ok (header_of (core sink_host)) sink_arr" by (simp add: demo_sink_cx_def next_ctx_def)
  have w: "list_all (\<lambda>(wc, c). c \<in> out_chunks sink_host \<and> wc_wr_id wc < fresh (core sink_host) \<and>
      map_option (\<lambda>w. (wc_transport w, wc_chunk w)) (work_chunks (core sink_host) (wc_wr_id wc)) = Some (cx_t idle_cx, Some c))
      sink_arr"
    by (simp add: sink_host_def sink_arr_def demo_wc_def idle_cx_def demo_cx_def) (simp add: demo_recv0_def)
  have r: "unat (total_size (core sink_host)) +
      4096 * (sum_list (map (asks (header_of (core sink_host))) sink_arr) + budget sink_host) < 2 ^ 32"
    by (simp add: sink_host_def sink_arr_def asks_def demo_wc_def store_frame_wire frame_header_def)
  have "length (recv_calls (core sink_host)) = 0" by (simp add: sink_host_def)
  then show ?thesis using serves_on[OF sink_reach sink_stuck a w r] by (simp add: demo_sink_cx_def)
qed

lemma sink_end:
  "\<exists>h. host_reach list_gqueue (\<lambda>q. q) demo_env demo_sink_cx 0 h \<and> (\<forall>h'. \<not> own_step list_gqueue demo_env h h')"
proof -
  have "host_reach list_gqueue (\<lambda>q. q) demo_env demo_sink_cx 0 (arrive sink_arr sink_host)"
    by (rule reach_init[where init = "host_start list_gqueue (\<lambda>q. q) demo_env demo_sink_cx 0"]) (rule sink_start)
  then show ?thesis
    using host_can_finish[OF host_start_inv[OF sink_start]] reach_steps[of _ "arrive sink_arr sink_host"] by blast
qed

end
