(* ===== verification/Log.thy ===== *)
theory Log
  imports Rdma_Prelude
begin

text \<open>
  The lines that the macro \<open>LOG\<close> of \<open>src/rdma_log.h\<close> writes to \<open>stderr\<close>, and the one that a
  failed assertion writes before it aborts.
\<close>

section \<open>Printing numbers\<close>

text \<open>\<open>%d\<close> for numbers that are not negative, and \<open>%04lu\<close>, which fills up with zeros.\<close>

fun format_d :: "nat \<Rightarrow> string" where
  "format_d n = (if n < 10 then [char_of (48 + n)] else format_d (n div 10) @ [char_of (48 + n mod 10)])"

declare format_d.simps [simp del]

definition format_04lu :: "nat \<Rightarrow> string" where
  "format_04lu n = replicate (4 - length (format_d n)) (char_of (48 :: nat)) @ format_d n"

definition read_digits :: "string \<Rightarrow> nat" where
  "read_digits = foldl (\<lambda>a c. 10 * a + (of_char c - 48)) 0"

lemma read_format_d: "read_digits (format_d n) = n"
proof (induction n rule: format_d.induct)
  case (1 n)
  then show ?case by (subst format_d.simps) (auto simp: read_digits_def)
qed

lemma read_format_04lu: "read_digits (format_04lu n) = n"
proof -
  have "foldl (\<lambda>a c. 10 * a + (of_char c - 48)) (0 :: nat) (replicate k (char_of (48 :: nat))) = 0" for k
    by (induction k) simp_all
  then show ?thesis using read_format_d[of n] by (simp add: format_04lu_def read_digits_def)
qed

lemma length_format_d: "n < 10 ^ Suc k \<Longrightarrow> length (format_d n) \<le> Suc k"
proof (induction k arbitrary: n)
  case 0
  then show ?case by (subst format_d.simps) simp
next
  case (Suc k)
  then have "n div 10 < 10 ^ Suc k" by (simp add: div_less_iff_less_mult mult.commute)
  from Suc.IH[OF this] show ?case by (subst format_d.simps) simp
qed

lemma length_format_04lu: "n < 10000 \<Longrightarrow> length (format_04lu n) = 4"
  using length_format_d[of n 3] by (simp add: format_04lu_def)

section \<open>The macro\<close>

definition ERROR :: u32 where "ERROR = 0x01"
definition DEBUG :: u32 where "DEBUG = 0x02"
definition INFO :: u32 where "INFO = 0x04"
definition LOG_FLAGS :: u32 where "LOG_FLAGS = 0x07"

lemmas log_levels = ERROR_def DEBUG_def INFO_def LOG_FLAGS_def

text \<open>The tag of a level; levels that are not one of the three write nothing.\<close>

definition log_tag :: "u32 \<Rightarrow> string option" where
  "log_tag level = (if and level LOG_FLAGS = 0 then None
     else if level = ERROR then Some ''[ERROR]''
     else if level = DEBUG then Some ''[DEBUG]''
     else if level = INFO then Some ''[ INFO]''
     else None)"

text \<open>\<open>self\<close> is \<open>pthread_self()\<close>; \<open>message\<close> is what the format of the caller gives.\<close>

definition LOG :: "u32 \<Rightarrow> u64 \<Rightarrow> string \<Rightarrow> string \<Rightarrow> nat \<Rightarrow> string \<Rightarrow> string \<Rightarrow> string" where
  "LOG level self file fn line message stderr = (case log_tag level of
     None \<Rightarrow> stderr
   | Some tag \<Rightarrow> stderr @ ''['' @ format_04lu (unat (self mod 10000)) @ ''] '' @ tag @ '' '' @
       file @ ''@'' @ fn @ ''#'' @ format_d line @ '': '' @ message @ [char_of (10 :: nat)])"

text \<open>What a failed assertion writes, with the text of its condition.\<close>

definition assert_line :: "u64 \<Rightarrow> string \<Rightarrow> string \<Rightarrow> nat \<Rightarrow> string \<Rightarrow> string \<Rightarrow> string" where
  "assert_line self file fn line condition = LOG ERROR self file fn line (''assertion failed: '' @ condition)"

lemma log_tag_levels: "log_tag level \<noteq> None \<longleftrightarrow> level \<in> {ERROR, DEBUG, INFO}"
  by (simp add: log_tag_def log_levels)

text \<open>A line starts with ten characters that name the thread, by its last four digits, and the level.\<close>

lemma LOG_line:
  assumes "log_tag level = Some tag"
  shows "\<exists>thread rest. LOG level self file fn line message stderr = stderr @ ''['' @ thread @ ''] '' @ tag @ rest \<and>
    length thread = 4 \<and> read_digits thread = unat self mod 10000"
proof -
  have n: "unat (self mod 10000) = unat self mod 10000" by (simp add: unat_mod)
  show ?thesis
    by (intro exI[of _ "format_04lu (unat (self mod 10000))"]
          exI[of _ "'' '' @ file @ ''@'' @ fn @ ''#'' @ format_d line @ '': '' @ message @ [char_of (10 :: nat)]"])
      (simp add: LOG_def assms n length_format_04lu read_format_04lu)
qed

end
