(* ===== verification/Example.thy ===== *)
theory Example
  imports Server_Run End_To_End
begin

text \<open>
  The program \<open>example/example.c\<close>: its server, and its client, whose thread \<open>main\<close> no longer
  starts. They show the library used as a whole.
\<close>

definition local_ip_text :: string where "local_ip_text = ''127.0.0.1''"
definition remote_ip_text :: string where "remote_ip_text = ''172.18.0.12''"
definition example_port :: u16 where "example_port = 12345"

text \<open>The array \<open>msg\<close> with its closing zero, and \<open>strlen\<close>.\<close>

definition example_msg :: "u8 list" where
  "example_msg = map of_char ''hello, world'' @ [0]"

definition strlen :: "u8 list \<Rightarrow> nat" where
  "strlen bs = length (takeWhile (\<lambda>b. b \<noteq> 0) bs)"

definition server_thread ::
  "env \<Rightarrow> 'q net \<Rightarrow> boot \<Rightarrow> ('q, 'z) server_rt_scheme \<Rightarrow> ('q, 'z) server_rt_scheme res" where
  "server_thread E V B s = bind_res (init_server E V B local_ip_text example_port s) (\<lambda>(_, s1). Inr s1)"

definition client_thread ::
  "'q gqueue_ops \<Rightarrow> env \<Rightarrow> 'q net \<Rightarrow> peer \<Rightarrow> ('q, 'z) conn_rt_scheme \<Rightarrow> ('q, 'z) conn_rt_scheme res option" where
  "client_thread Q E V P s =
     map_option (\<lambda>r. bind_res r (\<lambda>(_, s1). Inr s1))
       (send_msg Q E V P remote_ip_text example_port example_msg (of_nat (strlen example_msg)) s)"

text \<open>
  \<open>main\<close>, where the thread it starts has run when \<open>sleep\<close> returns; \<open>ret\<close> is what \<open>pthread_create\<close>
  returns. When that is a positive error the program sleeps without a server.
\<close>

definition main :: "int \<Rightarrow> env \<Rightarrow> 'q net \<Rightarrow> boot \<Rightarrow> ('q, 'z) server_rt_scheme
    \<Rightarrow> (int \<times> ('q, 'z) server_rt_scheme) res" where
  "main ret E V B s =
     (if ret < 0 then Inl Aborted
      else bind_res (if ret = 0 then server_thread E V B s else Inr s) (\<lambda>s1. Inr (0, s1)))"

lemma strlen_msg: "strlen example_msg = 12" "take 12 example_msg = map of_char ''hello, world''"
  by (simp_all add: strlen_def example_msg_def)

lemma main_serves:
  assumes "calls_succeed E" and "boot_succeeds B V local_ip_text tp ip"
  shows "\<exists>s' ns free. main 0 E V B s = Inr (0, s') \<and>
    accepting s' = Some \<lparr>arg_sfd = socket_rc B, arg_ip_str = ip, arg_port = 12345\<rparr> \<and>
    pool_inv s' ns free \<and> length free = 4096"
proof -
  obtain s' ns free where "init_server E V B local_ip_text example_port s = Inr (0, s')"
      "accepting s' = Some \<lparr>arg_sfd = socket_rc B, arg_ip_str = ip,
        arg_port = (if example_port = 0 then IB_SERVER_PORT else example_port)\<rparr>"
      "pool_inv s' ns free" "length free = 4096"
    using init_server_ok[OF assms, of example_port s] by (elim exE conjE) (rule that; simp)
  then show ?thesis
    by (intro exI[of _ s'] exI[of _ ns] exI[of _ free]) (simp add: main_def server_thread_def example_port_def)
qed

text \<open>The client connects and posts one frame with the text, without the zero that ends it.\<close>

lemma client_thread_sends:
  fixes s :: "('q, 'z) conn_rt_scheme"
  assumes "pool_inv s ns xs" and E: "calls_succeed E" and "net_succeeds V"
    and "new_host V remote_ip_text ip local s" and "peer_answers P l a"
    and room: "unat (total_size s) + round_up (1024 - length xs) + 4096 < 2 ^ 32"
  shows "\<exists>t qp s'. v_qp V t = Some qp \<and> client_thread Q E V P s = Some (Inr s') \<and>
    wires_posted s s' = [(qp, frame_wire 0 (map of_char ''hello, world'') 0)]"
proof -
  let ?p = "map of_char ''hello, world'' :: u8 list"
  have room0: "unat (total_size s) + round_up (1024 - length xs) < 2 ^ 32" using room by linarith
  obtain t s1 where g: "get_transport_from_ip Q E V P remote_ip_text example_port s = Some (Inr (t, s1))"
      "connected_to V P ip l a ns xs t s s1"
    using connects[OF assms(1-5) room0, of Q example_port] by blast
  obtain tr qp where tr: "transports s1 t = Some tr" "rc_qp tr = Some qp" "tr_data_id tr = 0" "v_qp V t = Some qp"
    using g(2) by (auto simp: connected_to_def)
  obtain ns1 xs1 where inv1: "pool_inv s1 ns1 xs1"
      and sz: "unat (total_size s1) \<le> unat (total_size s) + round_up (1024 - length xs)" "send_calls s1 = send_calls s"
    using g(2) by (auto simp: connected_to_def)
  have n: "frame_count 12 = 1" "unat (chunk_count 12) = 1"
    by (simp_all add: chunk_count_eq frame_count_def body_size_def)
  have "unat (total_size s1) + round_up (unat (chunk_count 12) - length xs1) < 2 ^ 32"
    using sz(1) room round_up_le[of "unat (chunk_count 12) - length xs1"] by (simp add: n(2))
  then obtain s' where s': "send_msg_on E t example_msg 12 s1 = Inr (0, s')"
      "message_posted E t qp tr ?p ns1 xs1 s1 s'"
    using send_msg_on_ok[OF inv1 E tr(1,2), of 12 example_msg] strlen_msg(2) by (auto simp: example_msg_def)
  have len: "length ?p = 12" by simp
  obtain new where new: "send_calls s' = send_calls s1 @ new"
      "map (\<lambda>(q, wr, rc). (q, wire_of s' wr)) new
        = map (\<lambda>i. (qp, frame_wire (tr_data_id tr) ?p i)) [0..<frame_count (length ?p)]"
    using s'(2) unfolding message_posted_def by (elim exE conjE) (rule that; assumption)
  have "wires_posted s s' = [(qp, frame_wire 0 ?p 0)]"
    using new(1) new(2)[unfolded len n(1)] tr(3) by (simp add: wires_posted_def sz(2))
  moreover have "client_thread Q E V P s = Some (Inr s')"
    by (simp add: client_thread_def send_msg_def strlen_msg g(1) s'(1))
  ultimately show ?thesis using tr(4) by blast
qed

end
