(* ===== verification/Spec2Isabelle.thy ===== *)
theory Spec2Isabelle
  imports Accept_Thread Receive_Types Shutdown_Threads Pool_Threads Poll_Threads Receive_Window Receive_Sections Jni_Channel Jni_Server
    Two_Hosts Log Example
begin

text \<open>
  A verification development for the native part of SparkRdmaShuffleEngine (\<open>src/src/*.c\<close>), which
  carries the shuffle messages of Spark over RDMA.

  The program. A message is sent by \<open>send_msg\<close> or \<open>send_msg_with_header\<close>
  (\<open>rdma_transport_client.c\<close>): the transport of the host is found or set up, chunks are taken from a
  pool of registered memory (\<open>rdma_buffer_pool.c\<close>), header and payload are copied into them, and one
  send is posted per chunk (\<open>rdma_transport.c\<close>). At the receiver a poll thread takes completions
  off the completion queue, posts new receives for those used up and hands the completions to a
  handle thread; that thread collects the chunks of each message, and workers of a thread pool copy
  complete messages into Java arrays, call Java and release the chunks. Connections are made by
  the sender and by an accept thread (\<open>rdma_transport_server.c\<close>), which exchange the attributes of
  their queue pairs over TCP (\<open>rdma_utils.c\<close>). Java calls in through \<open>io_rdma_*.c\<close>.

  The theories, in the order in which they build on each other.
    \<^item> \<open>Rdma_Prelude\<close>: word types, faults and results as values, bounded loops, pointer chains,
      and the locale \<open>step_system\<close> in which an invariant is lifted to reachable states.
    \<^item> \<open>Rdma_Chunk\<close>, \<open>Buffer_Pool\<close>: the layout of a chunk, and every function of the pool over a heap
      of chunks and list nodes; the invariant \<open>pool_inv\<close> and the behaviour on every branch.
      \<open>Pool_Interface\<close> is the contract the callers use, as the locale \<open>chunk_pool\<close>. \<open>Pool_Threads\<close>
      interleaves the locked sections: no chunk is owned twice, the counters are exact, one consumer
      never faults, and two consumers can reach a NULL dereference.
    \<^item> \<open>Transport\<close>, \<open>Transport_Recv\<close>: \<open>struct rdma_transport\<close>, work chunks, arrays of chunks, and the
      functions that post receives and sends.
    \<^item> \<open>Client_Send\<close>, \<open>Client_Framing\<close>, \<open>Client_Message\<close>: the senders, the frames they cut a message
      into, and that exactly these are posted.
    \<^item> \<open>Receive\<close>, \<open>Receive_Groups\<close>, \<open>Receive_Threads\<close>, \<open>Receive_Safety\<close>, \<open>Receive_Delivery\<close>: the handlers
      of completions and \<open>work_thread\<close>, the specification of what they do as a function on lists,
      their locked sections as a step relation, its invariant, and what follows for Java.
      \<open>Wire_Messages\<close> ties the frames of a sender to the receiver, \<open>Receive_Types\<close> says what every pointer
      of the receiver points to, \<open>Receive_Sections\<close> shows that the functions as a whole are runs of the
      step relation.
    \<^item> \<open>Java_Upcalls\<close>, \<open>End_To_End\<close>: the calls into Java over the functions of JNI, with their laws as the
      locale \<open>java_machine\<close>, and streams of messages to a host, from the first \<open>send_msg\<close>, which
      connects, to the upcalls.
    \<^item> \<open>Poll\<close>, \<open>Poll_Threads\<close>, \<open>Receive_Window\<close>: the poll thread and the handle thread, their handover of
      completions as a step relation, and the receives posted in place of those used up.
    \<^item> \<open>Host_Threads\<close>, \<open>Host_Results\<close>: the receiver of a connection, its poll thread, the senders and
      the other users of the pool in one process, as one step relation. The receiver's invariant
      speaks of the chunks that it owns itself, and so survives the steps of the others: it
      delivers, faults nowhere, returns every chunk it took, and is ready for the next messages in
      the receives that the poll thread has posted. \<open>budget\<close> is the number of chunks that senders may
      still take and the assumption on \<open>total_size\<close> that the sizes of the pool do not wrap; with them
      no request for chunks is refused.
    \<^item> \<open>Rdma_Utils\<close>, \<open>Connection\<close>, \<open>Connection_Threads\<close>, \<open>Client_Connect\<close>, \<open>Accept_Thread\<close>: the exchange of
      attributes byte by byte, set-up and shutdown of a connection, the table of transports, the
      sections of senders and of the accept thread as a step relation, the senders and the accept
      thread as a whole, that these are runs of the step relation, and that two hosts which connect to
      each other agree on the attributes of the connection.
    \<^item> \<open>Server\<close>, \<open>Server_Run\<close>, \<open>Shutdown_Threads\<close>: the context, start and stop of the process, and a
      connection that is shut down while its threads run.
    \<^item> \<open>Jni_Channel\<close>, \<open>Jni_Server\<close>: the native methods, and that \<open>init\<close> prepares the upcalls.
    \<^item> \<open>Two_Hosts\<close>: two hosts to evaluate on. \<open>Log\<close>: the lines of the log. \<open>Example\<close>: the example
      program, which uses server and client.
    \<^item> This theory: what a sender hands to \<open>send_msg\<close> reaches Java on the other host whole.

  How C is modelled. A pointer is an address or \<open>None\<close>; chunks are addressed by block and index. A
  function returns \<open>Inl\<close> of a fault or \<open>Inr\<close> of its result and the new state; faults are \<open>abort()\<close>
  and failed assertions (\<open>Aborted\<close>) and the undefined behaviour that the code does not exclude (NULL or
  dangling pointers, indices out of bounds, reads of memory never written). \<open>uint32_t\<close> and the like
  are words, so that sums wrap. Loops over a count are \<open>for_loop\<close>, which is structural; only the
  walk over the nodes of the pool takes fuel, and \<open>None\<close> says that it is still running: as much
  fuel as the pool has nodes is enough (\<open>destroy_pool_frees\<close>). \<open>get_transport_from_ip\<close> is \<open>None\<close> where
  it waits for another thread. A section under a lock is one atomic step of a step relation.

  Code outside the repository is a parameter: \<open>malloc\<close> and \<open>ibv_reg_mr\<close> (record \<open>os\<close>), the posting verbs
  (\<open>env\<close>), the verbs of a connection, the resolver and the hash function (\<open>net\<close>), the sockets of an
  exchange (\<open>exchange_calls\<close>, \<open>peer\<close>), the calls of the start (\<open>boot\<close>), JNI (\<open>jni_env\<close>, \<open>jvm\<close>, and
  \<open>java_ops\<close> with the laws of the locale \<open>java_machine\<close>), and the queues of GLib (\<open>gqueue_ops\<close>, with
  the laws of the locale \<open>gqueue\<close>). The two hash tables are
  association lists, searched with the comparisons that the code installs.

  Not modelled, and why.
    \<^item> Where log lines are written, \<open>usleep\<close>, the random seed: they do not change the state.
    \<^item> Closing of sockets; what threads of a connection that is shut down do beyond beginning, looking at
      their queue and ending; a worker that still serves it.
    \<^item> The destruction of locks, and \<open>handle_cv_lock\<close>, which is used but never initialised.
    \<^item> \<open>get_gid\<close>, \<open>create_transport_fun\<close> and \<open>DYNARRY_MALLOC\<close>, which nothing uses.
    \<^item> Failures of JNI: an array that cannot be allocated, an exception that \<open>channelRead0\<close> throws.
    \<^item> Accesses without a lock are atomic here: the test of \<open>is_handle_running\<close> in \<open>handle_thread\<close>, the
      append to a chunk array in \<open>handle_recv_event\<close>, reads of \<open>is_ready\<close>. In \<open>Poll_Threads\<close> the replacement
      of the receives of one poll is one step, and so is the handling of one array; in
      \<open>Host_Threads\<close> the replacement for one completion is one step, and so is the sending of one
      message on a connection that is set up. That the locked sections of the pool can be
      interleaved more finely, and with what effect, is the subject of \<open>Pool_Threads\<close> alone.
    \<^item> In \<open>Host_Threads\<close> the receivers of other connections appear only through the chunks they hold;
      the bytes of all the messages of a round are in their chunks when the round begins, and only
      the completions come one by one. The set-up of connections is interleaved separately, in
      \<open>Connection_Threads\<close>, and so is the wake-up of the handle thread, in \<open>Poll_Threads\<close>: it can be
      lost, so that what \<open>Host_Results\<close> says of a connection at rest supposes that it is not.
    \<^item> The tests under \<open>test/\<close> and the Java sources.
\<close>

section \<open>From the sender's buffer to Java\<close>



text \<open>
  C2: End to end: messages that were cut into frames by \<open>send_msg\<close> or \<open>send_msg_with_header\<close>,
  whose frames arrive mixed in any way, are handed to Java whole: once no thread of the receiver
  can take a step, the arrays that Java got are the payloads of the messages, each exactly once,
  in the order in which their first frames arrived.
\<close>

theorem messages_delivered_intact:
  assumes "messages_arrive (cx_H cx) (cx_B cx) old msgs (cx_arr cx)"
    and "recv_reach Q items E cx s" and "\<And>s'. \<not> recv_step Q E s s'"
  shows "\<exists>ds. deliveries s = cx_before cx @ ds \<and>
    map array_of ds = map (\<lambda>d. the (map_of msgs d)) (arrival_order (cx_frames cx)) \<and>
    distinct (arrival_order (cx_frames cx)) \<and> set (arrival_order (cx_frames cx)) = fst ` set msgs \<and>
    list_all (\<lambda>d. dv_remote d = cx_ip cx \<and> dv_len d = int (length (array_of d))) ds"
  using messages_delivered[OF assms(1) conjunct1[OF quiescent_delivers[OF assms(2,3)]]] arrival_order_set[OF assms(1)] groups_of_ids(1)[of "cx_frames cx"]
  by (auto simp: arrival_order_def list_all_iff)

theorem messages_delivered_intact_witness:
  "\<exists>s. recv_reach list_gqueue (\<lambda>q. q) demo_env demo_cx s \<and>
     map array_of (deliveries s) = [[4], [1, 2, 3]]"
proof -
  obtain s where s: "recv_reach list_gqueue (\<lambda>q. q) demo_env demo_cx s"
      "\<And>s'. \<not> recv_step list_gqueue demo_env s s'"
    using demo_recv_end by blast
  from messages_delivered_intact[OF demo_messages_arrive s] show ?thesis
    using s(1) by (intro exI[of _ s]) (auto simp: demo_order demo_msgs_def)
qed

end
